(* ===== verification/Sting_Prelude.thy ===== *)
theory Sting_Prelude
  imports Main "HOL-Library.Word"
begin

text \<open>
  Shared vocabulary of the StingDB development: the fixed-width integer types of the C++ source,
  the constants of \<^verbatim>\<open>src/common/config.h\<close>, the error values by which an operation can end
  other than by returning, and the two byte-level primitives every on-page structure is built
  from, \<open>memcpy\<close> into and out of a character array.

  Integers keep their C++ width as words.  Multi-byte integers that the source copies with
  \<open>memcpy\<close> are laid out least significant byte first (the x86 targets of the build).
  A copy that leaves its array, a dereferenced null pointer and the like are undefined behaviour
  in C++; the model gives them the value \<open>Undefined\<close>, so that a theorem saying that an
  operation returns \<open>Inr\<close> also says that it stays inside its buffers.
\<close>

section \<open>Types and constants\<close>

type_synonym byte = "8 word"
type_synonym u16 = "16 word"
type_synonym u32 = "32 word"
type_synonym u64 = "64 word"
type_synonym i32 = "32 word"
type_synonym pageid = "32 word"
type_synonym bytes = "8 word list"

text \<open>Ways an operation ends without returning: undefined behaviour, a failed \<open>assert\<close>, a thrown
  \<open>std::runtime_error\<close> with its message, \<open>std::unordered_map::at\<close> on a missing key, and a
  loop that never ends.\<close>

datatype error =
    Undefined
  | Assertion_failed
  | Runtime_error string
  | Out_of_range
  | Nonterminating

definition PAGE_SIZE :: nat where
  "PAGE_SIZE = 8192"

definition INVALID_PAGE_ID :: pageid where
  "INVALID_PAGE_ID = 0xFFFFFFFF"

section \<open>Bytes of an integer\<close>

definition le_bytes :: "nat \<Rightarrow> 'a::len word \<Rightarrow> bytes" where
  "le_bytes n w = map (\<lambda>i. ucast (drop_bit (8 * i) w)) [0..<n]"

primrec le_word :: "bytes \<Rightarrow> 'a::len word" where
  "le_word [] = 0"
| "le_word (b # bs) = or (ucast b) (push_bit 8 (le_word bs))"

section \<open>Memory copies\<close>

definition mem_get :: "nat \<Rightarrow> nat \<Rightarrow> bytes \<Rightarrow> bytes" where
  "mem_get off n d = take n (drop off d)"

definition mem_put :: "nat \<Rightarrow> bytes \<Rightarrow> bytes \<Rightarrow> bytes" where
  "mem_put off bs d = take off d @ bs @ drop (off + length bs) d"

text \<open>The checked forms: reading or writing past the end of the array is undefined.\<close>

definition memcpy_from :: "bytes \<Rightarrow> nat \<Rightarrow> nat \<Rightarrow> error + bytes" where
  "memcpy_from d off n = (if off + n \<le> length d then Inr (mem_get off n d) else Inl Undefined)"

definition memcpy_to :: "bytes \<Rightarrow> nat \<Rightarrow> bytes \<Rightarrow> error + bytes" where
  "memcpy_to d off bs =
     (if off + length bs \<le> length d then Inr (mem_put off bs d) else Inl Undefined)"

section \<open>Lemma collections\<close>

named_theorems byte_simps
named_theorems page_simps

lemma PAGE_SIZE_gt [simp]: "0 < PAGE_SIZE" "PAGE_SIZE \<noteq> 0"
  by (simp_all add: PAGE_SIZE_def)

lemma length_le_bytes [simp]: "length (le_bytes n w) = n"
  by (simp add: le_bytes_def)

lemma nth_le_bytes: "i < n \<Longrightarrow> le_bytes n w ! i = ucast (drop_bit (8 * i) w)"
  by (simp add: le_bytes_def)

lemma bit_le_word:
  "bit (le_word bs :: 'a::len word) i \<longleftrightarrow>
     i < LENGTH('a) \<and> i div 8 < length bs \<and> bit (bs ! (i div 8)) (i mod 8)"
proof (induction bs arbitrary: i)
  case Nil
  then show ?case by simp
next
  case (Cons b bs)
  show ?case
  proof (cases "i < 8")
    case True
    then show ?thesis
      by (auto simp: bit_or_iff bit_push_bit_iff bit_ucast_iff)
  next
    case False
    then obtain j where j: "i = 8 + j" by (metis le_add_diff_inverse not_less)
    have hi: "\<not> bit b i" using False by (auto dest: bit_imp_le_length)
    have "bit (le_word (b # bs) :: 'a word) i \<longleftrightarrow> i < LENGTH('a) \<and> bit (le_word bs :: 'a word) j"
      using hi j by (auto simp: bit_or_iff bit_push_bit_iff bit_ucast_iff)
    moreover have "(8 + j) div 8 = Suc (j div 8)" by simp
    ultimately show ?thesis using j by (auto simp: Cons.IH)
  qed
qed

lemma le_word_le_bytes:
  "LENGTH('a) \<le> 8 * n \<Longrightarrow> le_word (le_bytes n w) = (w :: 'a::len word)"
  by (rule bit_word_eqI)
    (auto simp: bit_le_word nth_le_bytes bit_ucast_iff bit_drop_bit_eq less_mult_imp_div_less
      mult.commute)

lemma length_mem_get [simp]: "off + n \<le> length d \<Longrightarrow> length (mem_get off n d) = n"
  by (simp add: mem_get_def)

lemma nth_mem_get: "off + n \<le> length d \<Longrightarrow> i < n \<Longrightarrow> mem_get off n d ! i = d ! (off + i)"
  by (simp add: mem_get_def)

lemma length_mem_put [simp]: "off + length bs \<le> length d \<Longrightarrow> length (mem_put off bs d) = length d"
  by (simp add: mem_put_def)

lemma nth_mem_put:
  "off + length bs \<le> length d \<Longrightarrow> i < length d \<Longrightarrow>
   mem_put off bs d ! i = (if off \<le> i \<and> i < off + length bs then bs ! (i - off) else d ! i)"
  by (auto simp: mem_put_def nth_append min_def)

lemma mem_get_put_same [byte_simps]:
  "off + length bs \<le> length d \<Longrightarrow> n = length bs \<Longrightarrow> mem_get off n (mem_put off bs d) = bs"
  by (simp add: mem_get_def mem_put_def)

lemma mem_get_put_disjoint [byte_simps]:
  assumes "off + length bs \<le> length d" and "off' + n \<le> length d"
    and "off' + n \<le> off \<or> off + length bs \<le> off'"
  shows "mem_get off' n (mem_put off bs d) = mem_get off' n d"
  using assms by (intro nth_equalityI) (auto simp: nth_mem_get nth_mem_put)

lemma mem_get_cong:
  "length d = length d' \<Longrightarrow> off + n \<le> length d \<Longrightarrow>
   (\<And>i. off \<le> i \<Longrightarrow> i < off + n \<Longrightarrow> d ! i = d' ! i) \<Longrightarrow> mem_get off n d = mem_get off n d'"
  by (intro nth_equalityI) (auto simp: nth_mem_get)

lemma memcpy_from_ok [byte_simps]:
  "off + n \<le> length d \<Longrightarrow> memcpy_from d off n = Inr (mem_get off n d)"
  by (simp add: memcpy_from_def)

lemma memcpy_to_ok [byte_simps]:
  "off + length bs \<le> length d \<Longrightarrow> memcpy_to d off bs = Inr (mem_put off bs d)"
  by (simp add: memcpy_to_def)

lemma unat_of_nat_small: "x < 2 ^ LENGTH('a) \<Longrightarrow> unat (of_nat x :: 'a::len word) = x"
  by (simp add: unat_of_nat)

lemma ucast_up_down [simp]:
  "LENGTH('a) \<le> LENGTH('b) \<Longrightarrow> ucast (ucast w :: 'b::len word) = (w :: 'a::len word)"
  by (rule bit_word_eqI) (auto simp: bit_ucast_iff)

lemma unat_ucast_up [simp]:
  "LENGTH('a) \<le> LENGTH('b) \<Longrightarrow> unat (ucast w :: 'b::len word) = unat (w :: 'a::len word)"
  by (simp add: unsigned_ucast_eq take_bit_nat_eq_self_iff)
    (rule less_le_trans [OF unsigned_less], simp)

lemma set_butlast_distinct: "distinct xs \<Longrightarrow> xs \<noteq> [] \<Longrightarrow> set (butlast xs) = set xs - {last xs}"
  by (induction xs rule: rev_induct) auto

text \<open>Sums over a list that is updated in one place.\<close>

lemma sum_list_replaced:
  fixes xs :: "'a::comm_monoid_add list"
  shows "i < length xs \<Longrightarrow> sum_list (xs[i := x]) + xs ! i = sum_list xs + x"
proof (induction xs arbitrary: i)
  case (Cons y xs)
  then show ?case by (cases i) (auto simp: ac_simps)
qed simp

end
