(* ===== verification/Page.thy ===== *)
theory Page
  imports Sting_Prelude
begin

text \<open>
  The in-memory page frame of \<^verbatim>\<open>src/storage/page/page.h\<close>: a record with the members of the
  class, one definition per method.  Atomics are plain fields: every access the buffer pool makes
  is under its global latch.  The reader-writer latch is kept as a value that names the threads
  holding it; an attempt to take a latch that another thread holds in a conflicting mode blocks,
  which is the value \<open>None\<close>.

  The locale \<open>page_field\<close> states what the rest of the storage layer relies on when it keeps an
  integer at a fixed offset of a page; the slotted page and the tree node header interpret it once
  per field.
\<close>

section \<open>State and operations\<close>

text \<open>\<open>std::shared_mutex\<close>, with the threads that own it.\<close>

datatype latch = Unlocked | Shared "nat list" | Exclusive nat

record page =
  p_data :: bytes
  p_page_id :: pageid
  p_pin_count :: i32
  p_is_dirty :: bool
  p_latch :: latch

definition ResetMemory :: "page \<Rightarrow> page" where
  "ResetMemory p = p\<lparr>p_data := replicate PAGE_SIZE 0\<rparr>"

definition Page_ctor :: page where
  "Page_ctor = ResetMemory \<lparr>p_data = replicate PAGE_SIZE 0, p_page_id = INVALID_PAGE_ID,
     p_pin_count = 0, p_is_dirty = False, p_latch = Unlocked\<rparr>"

definition GetPinCount :: "page \<Rightarrow> int" where
  "GetPinCount p = sint (p_pin_count p)"

definition SetDirty :: "bool \<Rightarrow> page \<Rightarrow> page" where
  "SetDirty d p = p\<lparr>p_is_dirty := d\<rparr>"

text \<open>\<open>me\<close> is the calling thread.  Taking a latch that the calling thread already owns, in either mode, and
  releasing one that it does not own in that mode, are undefined behaviour of \<open>std::shared_mutex\<close>.\<close>

fun RLock :: "nat \<Rightarrow> page \<Rightarrow> error + page option" where
  "RLock me p = (case p_latch p of
     Unlocked \<Rightarrow> Inr (Some (p\<lparr>p_latch := Shared [me]\<rparr>))
   | Shared ts \<Rightarrow> if me \<in> set ts then Inl Undefined else Inr (Some (p\<lparr>p_latch := Shared (me # ts)\<rparr>))
   | Exclusive t \<Rightarrow> if t = me then Inl Undefined else Inr None)"

fun WLock :: "nat \<Rightarrow> page \<Rightarrow> error + page option" where
  "WLock me p = (case p_latch p of
     Unlocked \<Rightarrow> Inr (Some (p\<lparr>p_latch := Exclusive me\<rparr>))
   | Shared ts \<Rightarrow> if me \<in> set ts then Inl Undefined else Inr None
   | Exclusive t \<Rightarrow> if t = me then Inl Undefined else Inr None)"

fun RUnlock :: "nat \<Rightarrow> page \<Rightarrow> error + page" where
  "RUnlock me p = (case p_latch p of
     Shared ts \<Rightarrow>
       if me \<in> set ts then Inr (p\<lparr>p_latch := (case remove1 me ts of [] \<Rightarrow> Unlocked | us \<Rightarrow> Shared us)\<rparr>) else Inl Undefined
   | _ \<Rightarrow> Inl Undefined)"

fun WUnlock :: "nat \<Rightarrow> page \<Rightarrow> error + page" where
  "WUnlock me p = (case p_latch p of
     Exclusive t \<Rightarrow> if t = me then Inr (p\<lparr>p_latch := Unlocked\<rparr>) else Inl Undefined
   | _ \<Rightarrow> Inl Undefined)"

text \<open>The member \<open>data_\<close> is an array of \<open>PAGE_SIZE\<close> characters.\<close>

definition page_wf :: "page \<Rightarrow> bool" where
  "page_wf p \<longleftrightarrow> length (p_data p) = PAGE_SIZE"

section \<open>Lemmas\<close>

lemma page_wf_ResetMemory [simp, page_simps]: "page_wf (ResetMemory p)"
  by (simp add: page_wf_def ResetMemory_def)

lemma page_wf_ctor [simp, page_simps]: "page_wf Page_ctor"
  by (simp add: Page_ctor_def)

lemma page_wf_updates [simp]:
  "page_wf (p\<lparr>p_page_id := i\<rparr>) = page_wf p"
  "page_wf (p\<lparr>p_pin_count := c\<rparr>) = page_wf p"
  "page_wf (p\<lparr>p_is_dirty := b\<rparr>) = page_wf p"
  "page_wf (p\<lparr>p_latch := l\<rparr>) = page_wf p"
  by (simp_all add: page_wf_def)

lemma page_wf_put [simp]:
  "page_wf p \<Longrightarrow> off + length bs \<le> PAGE_SIZE \<Longrightarrow>
   page_wf (p\<lparr>p_data := mem_put off bs (p_data p)\<rparr>)"
  by (simp add: page_wf_def)

lemma SetDirty_simps [simp]:
  "p_data (SetDirty b p) = p_data p" "p_page_id (SetDirty b p) = p_page_id p"
  "p_pin_count (SetDirty b p) = p_pin_count p" "p_is_dirty (SetDirty b p) = b"
  "p_latch (SetDirty b p) = p_latch p" "page_wf (SetDirty b p) = page_wf p"
  by (simp_all add: SetDirty_def page_wf_def)

section \<open>Integers stored in a page\<close>

locale page_field =
  fixes rd :: "page \<Rightarrow> 'w"
    and wr :: "'w \<Rightarrow> page \<Rightarrow> page"
    and off :: nat
    and width :: nat
  assumes fits: "off + width \<le> PAGE_SIZE"
    and rd_wr: "page_wf p \<Longrightarrow> rd (wr v p) = v"
    and wr_put: "\<exists>bs. length bs = width \<and> wr v p = p\<lparr>p_data := mem_put off bs (p_data p)\<rparr>"
    and rd_local: "mem_get off width (p_data p) = mem_get off width (p_data q) \<Longrightarrow> rd p = rd q"
begin

lemma wf_wr: "page_wf p \<Longrightarrow> page_wf (wr v p)"
  using wr_put [of v p] fits by auto

lemma wr_meta:
  "p_page_id (wr v p) = p_page_id p" "p_pin_count (wr v p) = p_pin_count p"
  "p_is_dirty (wr v p) = p_is_dirty p" "p_latch (wr v p) = p_latch p"
  using wr_put [of v p] by auto

lemma get_wr_outside:
  assumes "page_wf p" and "off' + n \<le> PAGE_SIZE" and "off' + n \<le> off \<or> off + width \<le> off'"
  shows "mem_get off' n (p_data (wr v p)) = mem_get off' n (p_data p)"
  using wr_put [of v p] fits assms by (auto simp: page_wf_def mem_get_put_disjoint)

lemma rd_put_outside:
  assumes "page_wf p" and "off' + length bs \<le> PAGE_SIZE"
    and "off' + length bs \<le> off \<or> off + width \<le> off'"
  shows "rd (p\<lparr>p_data := mem_put off' bs (p_data p)\<rparr>) = rd p"
  using fits assms by (intro rd_local) (auto simp: page_wf_def mem_get_put_disjoint)

lemma rd_meta:
  "rd (p\<lparr>p_page_id := i\<rparr>) = rd p" "rd (p\<lparr>p_pin_count := c\<rparr>) = rd p"
  "rd (p\<lparr>p_is_dirty := b\<rparr>) = rd p" "rd (p\<lparr>p_latch := l\<rparr>) = rd p"
  by (rule rd_local, simp)+

end

text \<open>Two fields at disjoint places do not disturb each other.\<close>

locale page_field_pair =
  one: page_field rd wr off width + two: page_field rd2 wr2 off2 width2
  for rd :: "page \<Rightarrow> 'v" and wr off width
    and rd2 :: "page \<Rightarrow> 'w" and wr2 off2 width2 +
  assumes apart: "off + width \<le> off2 \<or> off2 + width2 \<le> off"
begin

lemma rd_two_wr_one: "page_wf p \<Longrightarrow> rd2 (wr v p) = rd2 p"
  using one.fits two.fits apart by (intro two.rd_local one.get_wr_outside) auto

lemma rd_one_wr_two: "page_wf p \<Longrightarrow> rd (wr2 w p) = rd p"
  using one.fits two.fits apart by (intro one.rd_local two.get_wr_outside) auto

end

text \<open>Every integer copied with \<open>memcpy\<close> at a fixed offset is such a field.\<close>

lemma page_field_word:
  assumes "off + n \<le> PAGE_SIZE" and "LENGTH('a) \<le> 8 * n"
  shows "page_field (\<lambda>p. le_word (mem_get off n (p_data p)) :: 'a::len word)
           (\<lambda>v p. p\<lparr>p_data := mem_put off (le_bytes n v) (p_data p)\<rparr>) off n"
proof
  show "off + n \<le> PAGE_SIZE" by (rule assms)
  show "le_word (mem_get off n (p_data (p\<lparr>p_data := mem_put off (le_bytes n v) (p_data p)\<rparr>))) = v"
    if "page_wf p" for p and v :: "'a word"
    using that assms by (simp add: page_wf_def mem_get_put_same le_word_le_bytes)
  show "\<exists>bs. length bs = n \<and> p\<lparr>p_data := mem_put off (le_bytes n v) (p_data p)\<rparr> =
      p\<lparr>p_data := mem_put off bs (p_data p)\<rparr>" for v :: "'a word" and p
    by (intro exI [of _ "le_bytes n v"]) simp
  show "(le_word (mem_get off n (p_data p)) :: 'a word) = le_word (mem_get off n (p_data q))"
    if "mem_get off n (p_data p) = mem_get off n (p_data q)" for p q
    using that by simp
qed

end
