(* ===== verification/Disk_Manager.thy ===== *)
theory Disk_Manager
  imports Page
begin

text \<open>
  The disk manager of \<^verbatim>\<open>src/storage/disk/disk_manager.h\<close> and \<^verbatim>\<open>disk_manager.cpp\<close>.

  The operating system (\<open>open\<close>, \<open>pread\<close>) and \<open>liburing\<close> are not part of the repository.  They are a
  parameter: a record of functions over an opaque kernel state, one per call the source makes.  A
  write is submitted with a \<^emph>\<open>pointer\<close> to the page buffer, and the kernel may read that buffer at any
  later moment until it posts the completion; every call therefore also receives the current content
  of the page buffers.

  The locale \<open>storage_device\<close> states what the code relies on: a read returns the block, padded with
  zeros at the end of the file; a write whose buffer stays unchanged until its completion has been
  reaped is then in the file; a submitted write completes after finitely many polls.  The
  interpretation \<open>sim\<close> instantiates it with a simulated device that delays every write.

  Diagnostics printed on \<open>std::cerr\<close> are not modelled.
\<close>

section \<open>The operating system interface\<close>

text \<open>The page buffers, by frame number.\<close>

type_synonym buffers = "nat \<Rightarrow> bytes"

text \<open>A negative result of \<open>pread\<close> is \<open>None\<close>; \<open>os_peek_cqe\<close> gives the \<open>res\<close> field of the completion
  at the head of the queue, \<open>None\<close> if the queue is empty.\<close>

record 'd os =
  os_open :: "'d \<Rightarrow> string \<Rightarrow> bool \<Rightarrow> int \<times> 'd"
  os_queue_init :: "'d \<Rightarrow> nat \<Rightarrow> int \<times> 'd"
  os_pread :: "buffers \<Rightarrow> 'd \<Rightarrow> int \<Rightarrow> nat \<Rightarrow> u64 \<Rightarrow> bytes option \<times> 'd"
  os_get_sqe :: "buffers \<Rightarrow> 'd \<Rightarrow> bool \<times> 'd"
  os_submit_write :: "buffers \<Rightarrow> 'd \<Rightarrow> int \<Rightarrow> nat \<Rightarrow> nat \<Rightarrow> u64 \<Rightarrow> u64 \<Rightarrow> 'd"
  os_peek_cqe :: "buffers \<Rightarrow> 'd \<Rightarrow> int option \<times> 'd"
  os_cq_advance :: "buffers \<Rightarrow> 'd \<Rightarrow> 'd"

section \<open>State and operations\<close>

record 'd disk =
  dm_file_name :: string
  dm_fd :: int
  dm_next_page_id :: pageid
  dm_ring :: 'd

definition DiskManager_ctor :: "'d os \<Rightarrow> string \<Rightarrow> 'd \<Rightarrow> (error + 'd disk) \<times> 'd" where
  "DiskManager_ctor os name d =
     (let (fd, d) = os_open os d name True;
          (fd, d) = (if fd < 0 then os_open os d name False else (fd, d))
      in if fd < 0 then (Inl (Runtime_error ''DiskManager: failed to open db file''), d)
         else
           let (r, d) = os_queue_init os d 256
           in if r < 0 then (Inl (Runtime_error ''DiskManager: failed to initialize io_uring''), d)
              else (Inr \<lparr>dm_file_name = name, dm_fd = fd, dm_next_page_id = 0, dm_ring = d\<rparr>, d))"

definition page_offset :: "pageid \<Rightarrow> u64" where
  "page_offset pid = ucast pid * of_nat PAGE_SIZE"

text \<open>\<open>ReadPage\<close> gives the new content of the buffer it fills; \<open>pread\<close> stores no more than the
  \<open>PAGE_SIZE\<close> bytes it is asked for.\<close>

definition ReadPage :: "'d os \<Rightarrow> buffers \<Rightarrow> pageid \<Rightarrow> 'd disk \<Rightarrow> (error + bytes) \<times> 'd disk" where
  "ReadPage os m pid dm =
     (let (r, d) = os_pread os m (dm_ring dm) (dm_fd dm) PAGE_SIZE (page_offset pid);
          dm = dm\<lparr>dm_ring := d\<rparr>
      in case r of
           None \<Rightarrow> (Inl (Runtime_error ''DiskManager: failed to read page''), dm)
         | Some bs \<Rightarrow>
             let bs = take PAGE_SIZE bs
             in (Inr (if length bs < PAGE_SIZE then bs @ replicate (PAGE_SIZE - length bs) 0 else bs), dm))"

definition WritePageAsync :: "'d os \<Rightarrow> buffers \<Rightarrow> pageid \<Rightarrow> nat \<Rightarrow> 'd disk \<Rightarrow> (error + unit) \<times> 'd disk" where
  "WritePageAsync os m pid f dm =
     (let (ok, d) = os_get_sqe os m (dm_ring dm)
      in if \<not> ok
         then (Inl (Runtime_error ''DiskManager: io_uring submission queue is full''), dm\<lparr>dm_ring := d\<rparr>)
         else (Inr (), dm\<lparr>dm_ring :=
                 os_submit_write os m d (dm_fd dm) f PAGE_SIZE (page_offset pid) (ucast pid)\<rparr>))"

text \<open>The loop of \<open>RetrieveAsyncCompletions\<close>: reap completions until the queue is empty.\<close>

partial_function (option) reap_loop :: "'d os \<Rightarrow> buffers \<Rightarrow> nat \<Rightarrow> 'd \<Rightarrow> (nat \<times> 'd) option" where
  "reap_loop os m completions d =
     (case os_peek_cqe os m d of
        (None, d') \<Rightarrow> Some (completions, d')
      | (Some res, d') \<Rightarrow> reap_loop os m (completions + 1) (os_cq_advance os m d'))"

definition RetrieveAsyncCompletions :: "'d os \<Rightarrow> buffers \<Rightarrow> 'd disk \<Rightarrow> (nat \<times> 'd disk) option" where
  "RetrieveAsyncCompletions os m dm =
     map_option (\<lambda>(n, d). (n, dm\<lparr>dm_ring := d\<rparr>)) (reap_loop os m 0 (dm_ring dm))"

definition AllocatePage :: "'d disk \<Rightarrow> pageid \<times> 'd disk" where
  "AllocatePage dm = (dm_next_page_id dm, dm\<lparr>dm_next_page_id := dm_next_page_id dm + 1\<rparr>)"

lemma ReadPage_length: "ReadPage os m pid dm = (Inr d, dm') \<Longrightarrow> length d = PAGE_SIZE"
  by (auto simp: ReadPage_def Let_def split: prod.splits option.splits)

section \<open>What the code relies on\<close>

text \<open>No write under way; one write under way, of a page from a frame, with the content the buffer
  had when it was submitted; anything else.\<close>

datatype io_phase = Idle | Writing pageid nat bytes | Crowded

locale storage_device =
  fixes os :: "'d os"
    and fd :: int
    and blocks :: "'d \<Rightarrow> pageid \<Rightarrow> bytes"
    and phase :: "'d \<Rightarrow> io_phase"
    and wait :: "'d \<Rightarrow> nat"
  assumes pread_block: "phase d = Idle \<Longrightarrow> os_pread os m d fd PAGE_SIZE (page_offset pid) = (r, d') \<Longrightarrow>
      phase d' = Idle \<and> blocks d' = blocks d \<and>
      (\<forall>bs. r = Some bs \<longrightarrow> length bs \<le> PAGE_SIZE \<and>
             bs @ replicate (PAGE_SIZE - length bs) 0 = blocks d pid)"
    and sqe_free: "phase d = Idle \<Longrightarrow> \<exists>d'. os_get_sqe os m d = (True, d') \<and> phase d' = Idle \<and> blocks d' = blocks d"
    and submit: "phase d = Idle \<Longrightarrow>
      d' = os_submit_write os m d fd f PAGE_SIZE (page_offset pid) (ucast pid) \<Longrightarrow>
      phase d' = Writing pid f (m f) \<and> (\<forall>q. q \<noteq> pid \<longrightarrow> blocks d' q = blocks d q)"
    and peek_idle: "phase d = Idle \<Longrightarrow> \<exists>d'. os_peek_cqe os m d = (None, d') \<and> phase d' = Idle \<and> blocks d' = blocks d"
    and peek_wait: "phase d = Writing pid f bs \<Longrightarrow> m f = bs \<Longrightarrow> os_peek_cqe os m d = (None, d') \<Longrightarrow>
      phase d' = Writing pid f bs \<and> (\<forall>q. q \<noteq> pid \<longrightarrow> blocks d' q = blocks d q) \<and> wait d' < wait d"
    and peek_done: "phase d = Writing pid f bs \<Longrightarrow> m f = bs \<Longrightarrow> os_peek_cqe os m d = (Some res, d') \<Longrightarrow>
      length bs = PAGE_SIZE \<Longrightarrow> 0 \<le> res \<Longrightarrow> phase (os_cq_advance os m d') = Idle \<and> blocks (os_cq_advance os m d') = (blocks d)(pid := bs)"
    and no_write_error: "phase d = Writing pid f bs \<Longrightarrow> os_peek_cqe os m d = (Some res, d') \<Longrightarrow> 0 \<le> res"
begin

lemma reap_idle:
  assumes "phase d = Idle"
  shows "\<exists>d'. reap_loop os m n d = Some (n, d') \<and> phase d' = Idle \<and> blocks d' = blocks d"
  using peek_idle [OF assms, of m] by (subst reap_loop.simps) auto

text \<open>Reaping while one write is under way: either nothing has completed yet and the device is closer
  to completing, or exactly one completion is counted and the block is in the file.\<close>

lemma reap_writing:
  assumes "phase d = Writing pid f bs" and "m f = bs" and "length bs = PAGE_SIZE"
  shows "(\<exists>d'. reap_loop os m 0 d = Some (0, d') \<and> phase d' = Writing pid f bs \<and> wait d' < wait d
            \<and> (\<forall>q. q \<noteq> pid \<longrightarrow> blocks d' q = blocks d q))
       \<or> (\<exists>d'. reap_loop os m 0 d = Some (1, d') \<and> phase d' = Idle \<and> blocks d' = (blocks d)(pid := bs))"
proof (cases "os_peek_cqe os m d")
  case (Pair r d1)
  show ?thesis
  proof (cases r)
    case None
    then show ?thesis using peek_wait [where m = m, OF assms(1,2)] Pair by (subst reap_loop.simps) auto
  next
    case (Some res)
    then have adv: "phase (os_cq_advance os m d1) = Idle"
        "blocks (os_cq_advance os m d1) = (blocks d)(pid := bs)"
      using peek_done [where m = m, OF assms(1,2) _ assms(3)] no_write_error [OF assms(1)] Pair by auto
    obtain d2 where "reap_loop os m 1 (os_cq_advance os m d1) = Some (1, d2)" "phase d2 = Idle"
        "blocks d2 = (blocks d)(pid := bs)"
      using reap_idle [OF adv(1), of m 1] adv(2) by auto
    then have "\<exists>d'. reap_loop os m 0 d = Some (1, d') \<and> phase d' = Idle \<and> blocks d' = (blocks d)(pid := bs)"
      using Pair Some by (subst reap_loop.simps) simp
    then show ?thesis by simp
  qed
qed

lemma ReadPage_idle:
  assumes "phase (dm_ring dm) = Idle" and "dm_fd dm = fd" and "ReadPage os m pid dm = (r, dm')"
  shows "phase (dm_ring dm') = Idle" "blocks (dm_ring dm') = blocks (dm_ring dm)"
    "dm_fd dm' = fd" "dm_next_page_id dm' = dm_next_page_id dm"
    "r = Inr bs \<Longrightarrow> bs = blocks (dm_ring dm) pid"
proof -
  obtain r1 d1 where p: "os_pread os m (dm_ring dm) fd PAGE_SIZE (page_offset pid) = (r1, d1)"
    by (cases "os_pread os m (dm_ring dm) fd PAGE_SIZE (page_offset pid)")
  show "phase (dm_ring dm') = Idle" "blocks (dm_ring dm') = blocks (dm_ring dm)"
    "dm_fd dm' = fd" "dm_next_page_id dm' = dm_next_page_id dm"
    "r = Inr bs \<Longrightarrow> bs = blocks (dm_ring dm) pid"
    using assms(2,3) pread_block [OF assms(1) p] p
    by (auto simp: ReadPage_def Let_def split: option.splits if_splits)
qed

lemma WritePageAsync_idle:
  assumes "phase (dm_ring dm) = Idle" and "dm_fd dm = fd"
  shows "\<exists>d'. WritePageAsync os m pid f dm = (Inr (), dm\<lparr>dm_ring := d'\<rparr>)
           \<and> phase d' = Writing pid f (m f) \<and> (\<forall>q. q \<noteq> pid \<longrightarrow> blocks d' q = blocks (dm_ring dm) q)"
proof -
  obtain d1 where d1: "os_get_sqe os m (dm_ring dm) = (True, d1)" "phase d1 = Idle"
      "blocks d1 = blocks (dm_ring dm)"
    using sqe_free [OF assms(1)] by blast
  then have "WritePageAsync os m pid f dm =
      (Inr (), dm\<lparr>dm_ring := os_submit_write os m d1 fd f PAGE_SIZE (page_offset pid) (ucast pid)\<rparr>)"
    using assms(2) by (simp add: WritePageAsync_def)
  with submit [OF d1(2) refl, of m f pid] d1(3) show ?thesis by auto
qed

end

section \<open>A simulated device\<close>

text \<open>Blocks by byte offset, the submission queue (frame, offset, page, content at submission), the
  completion queue, and the polls left until the next write is carried out.  The write stores what the
  buffer holds \<^emph>\<open>when it is carried out\<close>; the content at submission is recorded for the proof only.\<close>

record simdev =
  sd_blocks :: "u64 \<Rightarrow> bytes"
  sd_queue :: "(nat \<times> u64 \<times> pageid \<times> bytes) list"
  sd_cq :: "int list"
  sd_left :: nat
  sd_latency :: nat

fun sim_peek :: "buffers \<Rightarrow> simdev \<Rightarrow> int option \<times> simdev" where
  "sim_peek m d =
     (if sd_cq d \<noteq> [] then (Some (hd (sd_cq d)), d)
      else case sd_queue d of
          [] \<Rightarrow> (None, d)
        | (f, off, pid, bs) # q \<Rightarrow>
            if 0 < sd_left d then (None, d\<lparr>sd_left := sd_left d - 1\<rparr>)
            else (Some (int PAGE_SIZE), d\<lparr>sd_blocks := (sd_blocks d)(off := m f), sd_queue := q,
                    sd_cq := [int PAGE_SIZE], sd_left := sd_latency d\<rparr>))"

definition sim_os :: "simdev os" where
  "sim_os = \<lparr>
     os_open = (\<lambda>d name direct. (3, d)),
     os_queue_init = (\<lambda>d n. (0, d)),
     os_pread = (\<lambda>m d fd n off. (Some (take n (sd_blocks d off)), d)),
     os_get_sqe = (\<lambda>m d. (length (sd_queue d) < 256, d)),
     os_submit_write = (\<lambda>m d fd f n off u.
        d\<lparr>sd_queue := sd_queue d @ [(f, off, ucast u, m f)],
          sd_left := (if sd_queue d = [] then sd_latency d else sd_left d)\<rparr>),
     os_peek_cqe = sim_peek,
     os_cq_advance = (\<lambda>m d. d\<lparr>sd_cq := tl (sd_cq d)\<rparr>)\<rparr>"

definition sim_blocks :: "simdev \<Rightarrow> pageid \<Rightarrow> bytes" where
  "sim_blocks d pid =
     (let b = take PAGE_SIZE (sd_blocks d (page_offset pid)) in b @ replicate (PAGE_SIZE - length b) 0)"

fun sim_phase :: "simdev \<Rightarrow> io_phase" where
  "sim_phase d =
     (if sd_cq d \<noteq> [] then Crowded
      else case sd_queue d of
          [] \<Rightarrow> Idle
        | [(f, off, pid, bs)] \<Rightarrow> if off = page_offset pid then Writing pid f bs else Crowded
        | _ \<Rightarrow> Crowded)"

lemma page_offset_unat: "unat (page_offset pid) = unat pid * PAGE_SIZE"
proof -
  have "unat pid < 2 ^ LENGTH(32)" by (rule unsigned_less)
  then show ?thesis by (simp add: page_offset_def unat_word_ariths PAGE_SIZE_def)
qed

lemma page_offset_inject: "page_offset p = page_offset q \<longleftrightarrow> p = q"
  using page_offset_unat [of p] page_offset_unat [of q] by (auto simp: PAGE_SIZE_def word_unat_eq_iff)

interpretation sim: storage_device sim_os fd sim_blocks sim_phase sd_left for fd :: int
proof
  fix d m pid r d' f bs res
  show "sim_phase d' = Idle \<and> sim_blocks d' = sim_blocks d \<and>
      (\<forall>bs. r = Some bs \<longrightarrow> length bs \<le> PAGE_SIZE \<and>
         bs @ replicate (PAGE_SIZE - length bs) 0 = sim_blocks d pid)"
    if "sim_phase d = Idle" "os_pread sim_os m d fd PAGE_SIZE (page_offset pid) = (r, d')"
    using that by (auto simp: sim_os_def sim_blocks_def Let_def simp del: sim_phase.simps)
  show "\<exists>d'. os_get_sqe sim_os m d = (True, d') \<and> sim_phase d' = Idle \<and> sim_blocks d' = sim_blocks d"
    if "sim_phase d = Idle"
    using that by (auto simp: sim_os_def split: if_splits list.splits)
  show "sim_phase d' = Writing pid f (m f) \<and> (\<forall>q. q \<noteq> pid \<longrightarrow> sim_blocks d' q = sim_blocks d q)"
    if "sim_phase d = Idle"
      "d' = os_submit_write sim_os m d fd f PAGE_SIZE (page_offset pid) (ucast pid)"
    using that by (auto simp: sim_os_def sim_blocks_def split: if_splits list.splits)
  show "\<exists>d'. os_peek_cqe sim_os m d = (None, d') \<and> sim_phase d' = Idle \<and> sim_blocks d' = sim_blocks d"
    if "sim_phase d = Idle"
    using that by (auto simp: sim_os_def split: if_splits list.splits)
  show "sim_phase d' = Writing pid f bs \<and> (\<forall>q. q \<noteq> pid \<longrightarrow> sim_blocks d' q = sim_blocks d q)
      \<and> sd_left d' < sd_left d"
    if "sim_phase d = Writing pid f bs" "m f = bs" "os_peek_cqe sim_os m d = (None, d')"
    using that by (auto simp: sim_os_def sim_blocks_def split: if_splits list.splits)
  show "sim_phase (os_cq_advance sim_os m d') = Idle
      \<and> sim_blocks (os_cq_advance sim_os m d') = (sim_blocks d)(pid := bs)"
    if "sim_phase d = Writing pid f bs" "m f = bs" "os_peek_cqe sim_os m d = (Some res, d')"
      "length bs = PAGE_SIZE" "0 \<le> res"
    using that
    by (auto simp: sim_os_def sim_blocks_def fun_eq_iff page_offset_inject split: if_splits list.splits)
  show "0 \<le> res" if "sim_phase d = Writing pid f bs" "os_peek_cqe sim_os m d = (Some res, d')"
    using that by (auto simp: sim_os_def split: if_splits list.splits)
qed

end
