(* ===== verification/Buffer_Pool.thy ===== *)
theory Buffer_Pool
  imports Disk_Manager
begin

text \<open>
  The buffer pool of \<^verbatim>\<open>src/storage/buffer_pool/buffer_pool_manager.h\<close> and
  \<^verbatim>\<open>buffer_pool_manager.cpp\<close>.  Each public method holds the pool's mutex from its first to its last
  statement, so it is one function from state to state.  \<open>Page*\<close> is the number of the frame it points
  into (\<open>nullptr\<close> is \<open>None\<close>); frame numbers are naturals, which is what \<open>frame_id_t\<close> holds as long as
  the pool has at most \<open>2 ^ 31\<close> frames.  A method returns its result, or the error by which it ends,
  together with the state it leaves behind, because a thrown exception keeps what was already changed.
  \<open>assert\<close> is compiled out of release builds: \<open>UnpinPage\<close> takes the setting as an argument.
\<close>

section \<open>State\<close>

record 'd bpm =
  bp_pool_size :: nat
  bp_pages :: "page list"
  bp_page_table :: "pageid \<Rightarrow> nat option"
  bp_lru :: "nat list"
  bp_free :: "nat list"
  bp_disk :: "'d disk"

definition BufferPoolManager_ctor :: "nat \<Rightarrow> 'd disk \<Rightarrow> 'd bpm" where
  "BufferPoolManager_ctor n dm = \<lparr>bp_pool_size = n, bp_pages = replicate n Page_ctor,
     bp_page_table = Map.empty, bp_lru = [], bp_free = [0..<n], bp_disk = dm\<rparr>"

text \<open>The page buffers as the kernel sees them, and the update of one frame.\<close>

definition frame_buffers :: "'d bpm \<Rightarrow> buffers" where
  "frame_buffers s f = p_data (bp_pages s ! f)"

definition upd_page :: "nat \<Rightarrow> (page \<Rightarrow> page) \<Rightarrow> 'd bpm \<Rightarrow> 'd bpm" where
  "upd_page f g s = s\<lparr>bp_pages := (bp_pages s)[f := g (bp_pages s ! f)]\<rparr>"

section \<open>Operations\<close>

text \<open>\<open>while (disk_manager_->RetrieveAsyncCompletions() == 0) {}\<close>\<close>

partial_function (option) await_completion :: "'d os \<Rightarrow> buffers \<Rightarrow> 'd disk \<Rightarrow> 'd disk option" where
  "await_completion os m dm =
     Option.bind (RetrieveAsyncCompletions os m dm)
       (\<lambda>(n, dm'). if n = 0 then await_completion os m dm' else Some dm')"

text \<open>The part \<open>FetchPage\<close> and \<open>NewPage\<close> share: a free frame, else the frame at the back of the
  replacer, written back first if it is dirty, else none.\<close>

definition acquire_frame :: "'d os \<Rightarrow> 'd bpm \<Rightarrow> (error + nat option) \<times> 'd bpm" where
  "acquire_frame os s =
     (case bp_free s of
        f # fs \<Rightarrow> (Inr (Some f), s\<lparr>bp_free := fs\<rparr>)
      | [] \<Rightarrow>
          if bp_lru s = [] then (Inr None, s)
          else
            let f = last (bp_lru s); s = s\<lparr>bp_lru := butlast (bp_lru s)\<rparr>;
                victim = bp_pages s ! f;
                erased = (bp_page_table s)(p_page_id victim := None)
            in if p_is_dirty victim
               then (case WritePageAsync os (frame_buffers s) (p_page_id victim) f (bp_disk s) of
                   (Inl e, dm) \<Rightarrow> (Inl e, s\<lparr>bp_disk := dm\<rparr>)
                 | (Inr u, dm) \<Rightarrow> (case await_completion os (frame_buffers s) dm of
                     None \<Rightarrow> (Inl Nonterminating, s\<lparr>bp_disk := dm\<rparr>)
                   | Some dm' \<Rightarrow> (Inr (Some f), s\<lparr>bp_disk := dm', bp_page_table := erased\<rparr>)))
               else (Inr (Some f), s\<lparr>bp_page_table := erased\<rparr>))"

definition FetchPage :: "'d os \<Rightarrow> pageid \<Rightarrow> 'd bpm \<Rightarrow> (error + nat option) \<times> 'd bpm" where
  "FetchPage os pid s =
     (case bp_page_table s pid of
        Some f \<Rightarrow> (Inr (Some f),
          (upd_page f (\<lambda>p. p\<lparr>p_pin_count := p_pin_count p + 1\<rparr>) s)\<lparr>bp_lru := removeAll f (bp_lru s)\<rparr>)
      | None \<Rightarrow> (case acquire_frame os s of
          (Inl e, s1) \<Rightarrow> (Inl e, s1)
        | (Inr None, s1) \<Rightarrow> (Inr None, s1)
        | (Inr (Some f), s1) \<Rightarrow>
            let s2 = upd_page f ResetMemory s1
            in case ReadPage os (frame_buffers s2) pid (bp_disk s2) of
                 (Inl e, dm) \<Rightarrow> (Inl e, s2\<lparr>bp_disk := dm\<rparr>)
               | (Inr d, dm) \<Rightarrow> (Inr (Some f),
                   (upd_page f (\<lambda>p. p\<lparr>p_data := d, p_page_id := pid, p_pin_count := 1, p_is_dirty := False\<rparr>) s2)
                     \<lparr>bp_disk := dm, bp_page_table := (bp_page_table s2)(pid \<mapsto> f)\<rparr>)))"

definition UnpinPage :: "bool \<Rightarrow> pageid \<Rightarrow> bool \<Rightarrow> 'd bpm \<Rightarrow> (error + bool) \<times> 'd bpm" where
  "UnpinPage ndebug pid is_dirty s =
     (case bp_page_table s pid of
        None \<Rightarrow> (Inr False, s)
      | Some f \<Rightarrow>
          let s1 = (if is_dirty then upd_page f (SetDirty True) s else s);
              previous_pin_count = p_pin_count (bp_pages s1 ! f);
              s2 = upd_page f (\<lambda>p. p\<lparr>p_pin_count := p_pin_count p - 1\<rparr>) s1
          in if \<not> ndebug \<and> \<not> 0 < sint previous_pin_count then (Inl Assertion_failed, s2)
             else if previous_pin_count = 1 then (Inr True, s2\<lparr>bp_lru := f # bp_lru s2\<rparr>)
             else (Inr True, s2))"

definition FlushPage :: "'d os \<Rightarrow> pageid \<Rightarrow> 'd bpm \<Rightarrow> (error + bool) \<times> 'd bpm" where
  "FlushPage os pid s =
     (case bp_page_table s pid of
        None \<Rightarrow> (Inr False, s)
      | Some f \<Rightarrow>
          if p_is_dirty (bp_pages s ! f)
          then (case WritePageAsync os (frame_buffers s) pid f (bp_disk s) of
              (Inl e, dm) \<Rightarrow> (Inl e, s\<lparr>bp_disk := dm\<rparr>)
            | (Inr u, dm) \<Rightarrow> (Inr True, (upd_page f (SetDirty False) s)\<lparr>bp_disk := dm\<rparr>))
          else (Inr True, s))"

text \<open>The loop of \<open>FlushAllPages\<close> over the page table; the iteration order of the hash map is the
  list of keys given.\<close>

fun flush_loop :: "'d os \<Rightarrow> pageid list \<Rightarrow> 'd bpm \<Rightarrow> (error + unit) \<times> 'd bpm" where
  "flush_loop os [] s = (Inr (), s)"
| "flush_loop os (pid # pids) s = (case FlushPage os pid s of
     (Inl e, s1) \<Rightarrow> (Inl e, s1)
   | (Inr b, s1) \<Rightarrow> flush_loop os pids s1)"

text \<open>\<open>while (disk_manager_->RetrieveAsyncCompletions() < 0) {}\<close>\<close>

partial_function (option) drain_loop :: "'d os \<Rightarrow> buffers \<Rightarrow> 'd disk \<Rightarrow> 'd disk option" where
  "drain_loop os m dm =
     Option.bind (RetrieveAsyncCompletions os m dm)
       (\<lambda>(n, dm'). if int n < 0 then drain_loop os m dm' else Some dm')"

definition FlushAllPages :: "'d os \<Rightarrow> pageid list \<Rightarrow> 'd bpm \<Rightarrow> (error + unit) \<times> 'd bpm" where
  "FlushAllPages os order s =
     (case flush_loop os order s of
        (Inl e, s1) \<Rightarrow> (Inl e, s1)
      | (Inr u, s1) \<Rightarrow> (case drain_loop os (frame_buffers s1) (bp_disk s1) of
          None \<Rightarrow> (Inl Nonterminating, s1)
        | Some dm \<Rightarrow> (Inr (), s1\<lparr>bp_disk := dm\<rparr>)))"

definition NewPage :: "'d os \<Rightarrow> 'd bpm \<Rightarrow> (error + (pageid \<times> nat) option) \<times> 'd bpm" where
  "NewPage os s =
     (case acquire_frame os s of
        (Inl e, s1) \<Rightarrow> (Inl e, s1)
      | (Inr None, s1) \<Rightarrow> (Inr None, s1)
      | (Inr (Some f), s1) \<Rightarrow>
          let (new_page_id, dm) = AllocatePage (bp_disk s1)
          in (Inr (Some (new_page_id, f)),
              (upd_page f (\<lambda>p. (ResetMemory p)\<lparr>p_page_id := new_page_id, p_pin_count := 1, p_is_dirty := False\<rparr>) s1)
                \<lparr>bp_disk := dm, bp_page_table := (bp_page_table s1)(new_page_id \<mapsto> f)\<rparr>))"

definition DeletePage :: "pageid \<Rightarrow> 'd bpm \<Rightarrow> bool \<times> 'd bpm" where
  "DeletePage pid s = (False, s)"

section \<open>Invariant\<close>

text \<open>\<open>pool_safe\<close> holds in every state, also after an operation that threw: the page table points at
  frames that hold the page it says, the replacer holds unpinned resident frames only, and free list
  and replacer hold no frame twice.\<close>

definition pool_safe :: "'d bpm \<Rightarrow> bool" where
  "pool_safe s \<longleftrightarrow> length (bp_pages s) = bp_pool_size s \<and> (\<forall>p \<in> set (bp_pages s). page_wf p)
     \<and> distinct (bp_free s @ bp_lru s) \<and> set (bp_free s @ bp_lru s) \<subseteq> {..<bp_pool_size s}
     \<and> (\<forall>pid f. bp_page_table s pid = Some f \<longrightarrow>
          f < bp_pool_size s \<and> p_page_id (bp_pages s ! f) = pid \<and> f \<notin> set (bp_free s))
     \<and> (\<forall>f \<in> set (bp_lru s). p_pin_count (bp_pages s ! f) = 0
          \<and> bp_page_table s (p_page_id (bp_pages s ! f)) = Some f)"

text \<open>\<open>frame_kept\<close>: a frame is free, or resident and, when unpinned, a candidate for eviction.
  \<open>pool_inv\<close> adds that no frame is lost.\<close>

definition frame_kept :: "'d bpm \<Rightarrow> nat \<Rightarrow> bool" where
  "frame_kept s f \<longleftrightarrow> f \<in> set (bp_free s)
     \<or> bp_page_table s (p_page_id (bp_pages s ! f)) = Some f
       \<and> (p_pin_count (bp_pages s ! f) = 0 \<longrightarrow> f \<in> set (bp_lru s))"

definition pool_inv :: "'d bpm \<Rightarrow> bool" where
  "pool_inv s \<longleftrightarrow> pool_safe s \<and> (\<forall>f < bp_pool_size s. frame_kept s f)"

definition pinned :: "'d bpm \<Rightarrow> pageid \<Rightarrow> bool" where
  "pinned s pid \<longleftrightarrow> (\<exists>f. bp_page_table s pid = Some f \<and> p_pin_count (bp_pages s ! f) \<noteq> 0)"

section \<open>Basic facts\<close>

lemma WritePageAsync_disk:
  "WritePageAsync os m pid f dm = (r, dm') \<Longrightarrow> \<exists>d. dm' = dm\<lparr>dm_ring := d\<rparr>"
  by (auto simp: WritePageAsync_def split: prod.splits if_splits)

lemma ReadPage_disk: "ReadPage os m pid dm = (r, dm') \<Longrightarrow> \<exists>d. dm' = dm\<lparr>dm_ring := d\<rparr>"
  by (auto simp: ReadPage_def Let_def split: prod.splits option.splits)

lemma await_completion_disk:
  assumes "await_completion os m dm = Some dm'"
  shows "\<exists>d. dm' = dm\<lparr>dm_ring := d\<rparr>"
proof (rule await_completion.raw_induct [where P = "\<lambda>os m dm dm'. \<exists>d. dm' = dm\<lparr>dm_ring := d\<rparr>", OF _ assms])
  fix aw :: "'a os \<Rightarrow> buffers \<Rightarrow> 'a disk \<Rightarrow> 'a disk option" and os m dm dm'
  assume IH: "\<And>os m dm dm'. aw os m dm = Some dm' \<Longrightarrow> \<exists>d. dm' = dm\<lparr>dm_ring := d\<rparr>"
    and eq: "Option.bind (RetrieveAsyncCompletions os m dm)
      (\<lambda>(n, dm'). if n = 0 then aw os m dm' else Some dm') = Some dm'"
  from eq obtain n d where "RetrieveAsyncCompletions os m dm = Some (n, dm\<lparr>dm_ring := d\<rparr>)"
      and "(if n = 0 then aw os m (dm\<lparr>dm_ring := d\<rparr>) else Some (dm\<lparr>dm_ring := d\<rparr>)) = Some dm'"
    by (auto simp: RetrieveAsyncCompletions_def bind_eq_Some_conv)
  then show "\<exists>d. dm' = dm\<lparr>dm_ring := d\<rparr>"
    using IH [of os m "dm\<lparr>dm_ring := d\<rparr>" dm'] by (auto split: if_splits)
qed

lemma upd_page_simps [simp]:
  "bp_pool_size (upd_page f g s) = bp_pool_size s" "bp_page_table (upd_page f g s) = bp_page_table s"
  "bp_lru (upd_page f g s) = bp_lru s" "bp_free (upd_page f g s) = bp_free s"
  "bp_disk (upd_page f g s) = bp_disk s" "length (bp_pages (upd_page f g s)) = length (bp_pages s)"
  by (simp_all add: upd_page_def)

lemma nth_upd_page:
  "f < length (bp_pages s) \<Longrightarrow>
   bp_pages (upd_page f g s) ! i = (if i = f then g (bp_pages s ! f) else bp_pages s ! i)"
  by (simp add: upd_page_def nth_list_update)

lemma set_upd_page:
  "f < length (bp_pages s) \<Longrightarrow> \<forall>p \<in> set (bp_pages s). page_wf p \<Longrightarrow> page_wf (g (bp_pages s ! f)) \<Longrightarrow>
   \<forall>p \<in> set (bp_pages (upd_page f g s)). page_wf p"
  using set_update_subset_insert [of "bp_pages s" f "g (bp_pages s ! f)"] by (auto simp: upd_page_def)

lemma pool_safeD:
  assumes "pool_safe s"
  shows "length (bp_pages s) = bp_pool_size s"
    "f < bp_pool_size s \<Longrightarrow> page_wf (bp_pages s ! f)"
    "distinct (bp_free s)" "distinct (bp_lru s)" "set (bp_free s) \<inter> set (bp_lru s) = {}"
    "f \<in> set (bp_free s) \<Longrightarrow> f < bp_pool_size s" "f \<in> set (bp_lru s) \<Longrightarrow> f < bp_pool_size s"
    "bp_page_table s pid = Some f \<Longrightarrow> f < bp_pool_size s"
    "bp_page_table s pid = Some f \<Longrightarrow> p_page_id (bp_pages s ! f) = pid"
    "bp_page_table s pid = Some f \<Longrightarrow> f \<notin> set (bp_free s)"
    "f \<in> set (bp_lru s) \<Longrightarrow> p_pin_count (bp_pages s ! f) = 0"
    "f \<in> set (bp_lru s) \<Longrightarrow> bp_page_table s (p_page_id (bp_pages s ! f)) = Some f"
  using assms by (auto simp: pool_safe_def)

section \<open>Acquiring a frame\<close>

text \<open>A frame handed out is in range, no longer free, resident or a candidate; every other frame keeps
  its place.\<close>

definition taken :: "'d bpm \<Rightarrow> nat \<Rightarrow> 'd bpm \<Rightarrow> bool" where
  "taken s f s1 \<longleftrightarrow> bp_pages s1 = bp_pages s \<and> bp_pool_size s1 = bp_pool_size s \<and> f < bp_pool_size s
     \<and> f \<in> set (bp_free s) \<union> set (bp_lru s)
     \<and> set (bp_free s1) = set (bp_free s) - {f} \<and> set (bp_lru s1) = set (bp_lru s) - {f}
     \<and> (\<forall>pid g. bp_page_table s1 pid = Some g \<longleftrightarrow> bp_page_table s pid = Some g \<and> g \<noteq> f)
     \<and> dm_next_page_id (bp_disk s1) = dm_next_page_id (bp_disk s) \<and> dm_fd (bp_disk s1) = dm_fd (bp_disk s)
     \<and> pool_safe s1"

lemma acquire_from_free:
  assumes "pool_safe s" and "bp_free s = f # fs"
  shows "taken s f (s\<lparr>bp_free := fs\<rparr>)"
  using assms pool_safeD(10) [OF assms(1)] by (auto simp: taken_def pool_safe_def)

lemma acquire_from_lru:
  assumes safe: "pool_safe s" and "bp_free s = []" and ne: "bp_lru s \<noteq> []"
  shows "taken s (last (bp_lru s)) (s\<lparr>bp_lru := butlast (bp_lru s), bp_disk := (bp_disk s)\<lparr>dm_ring := d\<rparr>,
           bp_page_table := (bp_page_table s)(p_page_id (bp_pages s ! last (bp_lru s)) := None)\<rparr>)"
proof -
  let ?f = "last (bp_lru s)"
  have f: "?f \<in> set (bp_lru s)" using ne by simp
  have lru: "set (butlast (bp_lru s)) = set (bp_lru s) - {?f}"
    using pool_safeD(4) [OF safe] ne by (rule set_butlast_distinct)
  let ?t = "(bp_page_table s)(p_page_id (bp_pages s ! ?f) := None)"
  have t: "?t pid = Some g \<longleftrightarrow> bp_page_table s pid = Some g \<and> g \<noteq> ?f" for pid g
    using pool_safeD(9) [OF safe, of pid g] pool_safeD(12) [OF safe f] by auto
  have l: "p_pin_count (bp_pages s ! g) = 0 \<and> ?t (p_page_id (bp_pages s ! g)) = Some g"
    if "g \<in> set (butlast (bp_lru s))" for g
    using that lru pool_safeD(11,12) [OF safe, of g] t [of "p_page_id (bp_pages s ! g)" g] by simp
  have "pool_safe (s\<lparr>bp_lru := butlast (bp_lru s), bp_disk := (bp_disk s)\<lparr>dm_ring := d\<rparr>, bp_page_table := ?t\<rparr>)"
    using safe assms(2) t l lru pool_safeD(7) [OF safe]
    unfolding pool_safe_def by (simp add: distinct_butlast subset_iff del: fun_upd_apply) blast
  then show ?thesis
    using assms(2) f lru t pool_safeD(7) [OF safe f] unfolding taken_def
    by (simp del: fun_upd_apply)
qed

lemma acquire_frame_Some:
  assumes "pool_safe s" and "acquire_frame os s = (Inr (Some f), s1)"
  shows "taken s f s1"
proof (cases "bp_free s")
  case (Cons g fs)
  then show ?thesis using assms acquire_from_free [OF assms(1)] by (auto simp: acquire_frame_def)
next
  case Nil
  then have ne: "bp_lru s \<noteq> []" using assms(2) by (auto simp: acquire_frame_def)
  let ?s = "s\<lparr>bp_lru := butlast (bp_lru s)\<rparr>"
  from Nil ne assms(2) have f: "f = last (bp_lru s)"
    by (auto simp: acquire_frame_def Let_def split: if_splits prod.splits sum.splits option.splits)
  have "\<exists>d. s1 = ?s\<lparr>bp_disk := (bp_disk s)\<lparr>dm_ring := d\<rparr>,
      bp_page_table := (bp_page_table s)(p_page_id (bp_pages s ! f) := None)\<rparr>"
  proof (cases "p_is_dirty (bp_pages s ! f)")
    case False
    then show ?thesis using Nil ne assms(2) f
      by (intro exI [of _ "dm_ring (bp_disk s)"]) (auto simp: acquire_frame_def Let_def)
  next
    case True
    then obtain dm dm' where w: "WritePageAsync os (frame_buffers ?s) (p_page_id (bp_pages s ! f)) f (bp_disk s) = (Inr (), dm)"
        and a: "await_completion os (frame_buffers ?s) dm = Some dm'"
        and s1: "s1 = ?s\<lparr>bp_disk := dm', bp_page_table := (bp_page_table s)(p_page_id (bp_pages s ! f) := None)\<rparr>"
      using Nil ne assms(2) f
      by (auto simp: acquire_frame_def Let_def split: if_splits prod.splits sum.splits option.splits)
    show ?thesis using WritePageAsync_disk [OF w] await_completion_disk [OF a] s1 by auto
  qed
  then show ?thesis using acquire_from_lru [OF assms(1) Nil ne] f by (auto simp del: fun_upd_apply)
qed

lemma acquire_frame_None:
  "acquire_frame os s = (Inr None, s1) \<longleftrightarrow> s1 = s \<and> bp_free s = [] \<and> bp_lru s = []"
  by (auto simp: acquire_frame_def Let_def split: list.splits if_splits prod.splits sum.splits option.splits)

lemma acquire_frame_error:
  assumes "pool_safe s" and "acquire_frame os s = (Inl e, s1)"
  shows "\<exists>d. s1 = s\<lparr>bp_lru := butlast (bp_lru s), bp_disk := (bp_disk s)\<lparr>dm_ring := d\<rparr>\<rparr>"
  using assms(2)
  by (auto simp: acquire_frame_def Let_def dest!: WritePageAsync_disk
      split: list.splits if_splits prod.splits sum.splits option.splits)

section \<open>Placing a page in a frame\<close>

definition placed :: "nat \<Rightarrow> page \<Rightarrow> 'd disk \<Rightarrow> 'd bpm \<Rightarrow> 'd bpm" where
  "placed f q dm s = s\<lparr>bp_pages := (bp_pages s)[f := q], bp_disk := dm,
     bp_page_table := (bp_page_table s)(p_page_id q \<mapsto> f)\<rparr>"

lemma placed_simps [simp]:
  "bp_pool_size (placed f q dm s) = bp_pool_size s" "bp_lru (placed f q dm s) = bp_lru s"
  "bp_free (placed f q dm s) = bp_free s" "bp_disk (placed f q dm s) = dm"
  "bp_page_table (placed f q dm s) = (bp_page_table s)(p_page_id q \<mapsto> f)"
  "bp_pages (placed f q dm s) = (bp_pages s)[f := q]"
  by (simp_all add: placed_def)

lemma FetchPage_miss:
  assumes "bp_page_table s pid = None" and "acquire_frame os s = (Inr (Some f), s1)"
    and "ReadPage os (frame_buffers (upd_page f ResetMemory s1)) pid (bp_disk s1) = (Inr d, dm)"
  shows "FetchPage os pid s = (Inr (Some f), placed f ((bp_pages s1 ! f)
           \<lparr>p_data := d, p_page_id := pid, p_pin_count := 1, p_is_dirty := False\<rparr>) dm s1)"
  using assms
  by (cases "f < length (bp_pages s1)")
    (simp_all add: FetchPage_def Let_def placed_def upd_page_def ResetMemory_def list_update_beyond not_less)

lemma FetchPage_cases:
  assumes "FetchPage os pid s = (r, s')"
  obtains (hit) f where "bp_page_table s pid = Some f" "r = Inr (Some f)"
      "s' = (upd_page f (\<lambda>p. p\<lparr>p_pin_count := p_pin_count p + 1\<rparr>) s)\<lparr>bp_lru := removeAll f (bp_lru s)\<rparr>"
  | (evict_error) e where "bp_page_table s pid = None" "acquire_frame os s = (Inl e, s')" "r = Inl e"
  | (full) "bp_page_table s pid = None" "bp_free s = []" "bp_lru s = []" "r = Inr None" "s' = s"
  | (read_error) e f s1 dm where "bp_page_table s pid = None" "acquire_frame os s = (Inr (Some f), s1)"
      "ReadPage os (frame_buffers (upd_page f ResetMemory s1)) pid (bp_disk s1) = (Inl e, dm)"
      "r = Inl e" "s' = (upd_page f ResetMemory s1)\<lparr>bp_disk := dm\<rparr>"
  | (miss) f s1 d dm where "bp_page_table s pid = None" "acquire_frame os s = (Inr (Some f), s1)"
      "ReadPage os (frame_buffers (upd_page f ResetMemory s1)) pid (bp_disk s1) = (Inr d, dm)"
      "r = Inr (Some f)"
      "s' = placed f ((bp_pages s1 ! f)
              \<lparr>p_data := d, p_page_id := pid, p_pin_count := 1, p_is_dirty := False\<rparr>) dm s1"
proof (cases "bp_page_table s pid")
  case (Some f)
  then show ?thesis using assms hit by (simp add: FetchPage_def)
next
  case None
  obtain ra s1 where a: "acquire_frame os s = (ra, s1)" by (cases "acquire_frame os s")
  consider e where "ra = Inl e" | "ra = Inr None" | f where "ra = Inr (Some f)"
    by (cases ra) (auto intro: option.exhaust)
  then show ?thesis
  proof cases
    case 1
    then show ?thesis using None a assms evict_error by (auto simp: FetchPage_def)
  next
    case 2
    then show ?thesis using None a assms full acquire_frame_None [of os s s1] by (auto simp: FetchPage_def)
  next
    case (3 f)
    obtain rr dm where r: "ReadPage os (frame_buffers (upd_page f ResetMemory s1)) pid (bp_disk s1) = (rr, dm)"
      by (cases "ReadPage os (frame_buffers (upd_page f ResetMemory s1)) pid (bp_disk s1)")
    show ?thesis
    proof (cases rr)
      case (Inl e)
      then show ?thesis
        using None a 3 r assms read_error by (auto simp: FetchPage_def Let_def)
    next
      case (Inr d)
      then show ?thesis using None a 3 r assms FetchPage_miss [OF None] miss by auto
    qed
  qed
qed

lemma NewPage_cases:
  assumes "NewPage os s = (r, s')"
  obtains (evict_error) e where "acquire_frame os s = (Inl e, s')" "r = Inl e"
  | (full) "bp_free s = []" "bp_lru s = []" "r = Inr None" "s' = s"
  | (fresh) f s1 where "acquire_frame os s = (Inr (Some f), s1)"
      "r = Inr (Some (dm_next_page_id (bp_disk s1), f))"
      "s' = placed f ((ResetMemory (bp_pages s1 ! f))
              \<lparr>p_page_id := dm_next_page_id (bp_disk s1), p_pin_count := 1, p_is_dirty := False\<rparr>)
              ((bp_disk s1)\<lparr>dm_next_page_id := dm_next_page_id (bp_disk s1) + 1\<rparr>) s1"
proof -
  obtain ra s1 where a: "acquire_frame os s = (ra, s1)" by (cases "acquire_frame os s")
  consider e where "ra = Inl e" | "ra = Inr None" | f where "ra = Inr (Some f)"
    by (cases ra) (auto intro: option.exhaust)
  then show ?thesis
  proof cases
    case 1
    then show ?thesis using a assms evict_error by (auto simp: NewPage_def)
  next
    case 2
    then show ?thesis using a assms full acquire_frame_None [of os s s1] by (auto simp: NewPage_def)
  next
    case (3 f)
    then show ?thesis using a assms fresh
      by (auto simp: NewPage_def AllocatePage_def Let_def placed_def upd_page_def)
  qed
qed

lemma placed_safe:
  assumes t: "taken s f s1" and wf: "page_wf q" and new: "bp_page_table s (p_page_id q) = None"
  shows "pool_safe (placed f q dm s1)"
proof -
  have safe: "pool_safe s1" and f: "f < length (bp_pages s1)" "f \<notin> set (bp_free s1)" "f \<notin> set (bp_lru s1)"
    and tab: "bp_page_table s1 pid = Some g \<Longrightarrow> bp_page_table s pid = Some g \<and> g \<noteq> f" for pid g
    using t by (auto simp: taken_def dest: pool_safeD(1))
  have none: "bp_page_table s1 (p_page_id q) = None"
    using new tab by (cases "bp_page_table s1 (p_page_id q)") auto
  have wfs: "\<forall>p \<in> set ((bp_pages s1)[f := q]). page_wf p"
    using safe wf set_update_subset_insert [of "bp_pages s1" f q] by (auto simp: pool_safe_def)
  have entry: "g < bp_pool_size s1 \<and> p_page_id ((bp_pages s1)[f := q] ! g) = pid \<and> g \<notin> set (bp_free s1)"
    if "((bp_page_table s1)(p_page_id q \<mapsto> f)) pid = Some g" for pid g
  proof (cases "pid = p_page_id q")
    case True
    then show ?thesis using that f pool_safeD(1) [OF safe] by auto
  next
    case False
    then show ?thesis
      using that f tab [of pid g] pool_safeD(8,9,10) [OF safe, of pid g] by (auto simp: nth_list_update)
  qed
  have cand: "p_pin_count ((bp_pages s1)[f := q] ! g) = 0
      \<and> ((bp_page_table s1)(p_page_id q \<mapsto> f)) (p_page_id ((bp_pages s1)[f := q] ! g)) = Some g"
    if "g \<in> set (bp_lru s1)" for g
    using that f none pool_safeD(11,12) [OF safe that] by (auto simp: nth_list_update)
  show ?thesis
    using safe wfs entry cand unfolding pool_safe_def placed_simps
    by (simp del: fun_upd_apply)
qed

lemma placed_kept:
  assumes t: "taken s f s1" and new: "bp_page_table s (p_page_id q) = None" and pin: "p_pin_count q \<noteq> 0"
    and safe: "pool_safe s" and kept: "frame_kept s g" and g: "g < bp_pool_size s"
  shows "frame_kept (placed f q dm s1) g"
proof (cases "g = f")
  case True
  then show ?thesis using t pin pool_safeD(1) [OF safe] by (simp add: frame_kept_def taken_def)
next
  case False
  have "bp_page_table s1 pid = Some h \<longleftrightarrow> bp_page_table s pid = Some h \<and> h \<noteq> f" for pid h
    using t by (simp add: taken_def)
  moreover have "p_page_id (bp_pages s ! g) \<noteq> p_page_id q" if "g \<notin> set (bp_free s)"
    using that kept new by (auto simp: frame_kept_def)
  ultimately show ?thesis
    using False kept t unfolding frame_kept_def taken_def by (auto simp: nth_list_update)
qed

section \<open>Every operation keeps the invariant\<close>

lemma disk_irrelevant [simp]:
  "pool_safe (s\<lparr>bp_disk := dm\<rparr>) = pool_safe s" "frame_kept (s\<lparr>bp_disk := dm\<rparr>) = frame_kept s"
  "pool_inv (s\<lparr>bp_disk := dm\<rparr>) = pool_inv s"
  by (simp_all add: pool_safe_def frame_kept_def fun_eq_iff pool_inv_def)

text \<open>Updates of a frame that keep its page number and pin count.\<close>

lemma upd_page_keeps:
  assumes "pool_safe s" and "f < bp_pool_size s" and "page_wf (g (bp_pages s ! f))"
    and "p_page_id (g (bp_pages s ! f)) = p_page_id (bp_pages s ! f)"
    and "p_pin_count (g (bp_pages s ! f)) = p_pin_count (bp_pages s ! f)"
  shows "pool_safe (upd_page f g s)" "frame_kept (upd_page f g s) h = frame_kept s h"
proof -
  have len: "f < length (bp_pages s)" using assms(1,2) by (simp add: pool_safeD)
  have "p_page_id (bp_pages (upd_page f g s) ! i) = p_page_id (bp_pages s ! i)"
    "p_pin_count (bp_pages (upd_page f g s) ! i) = p_pin_count (bp_pages s ! i)" for i
    using assms(4,5) by (simp_all add: nth_upd_page len)
  then show "pool_safe (upd_page f g s)" "frame_kept (upd_page f g s) h = frame_kept s h"
    using assms(1) set_upd_page [of f s g, OF len _ assms(3)] by (simp_all add: pool_safe_def frame_kept_def)
qed

text \<open>Updates of the pin count of a resident frame, with the replacer following it.\<close>

lemma set_pin_safe:
  assumes safe: "pool_safe s" and res: "bp_page_table s pid = Some f"
    and l: "set l \<subseteq> insert f (set (bp_lru s))" "distinct l" "f \<in> set l \<Longrightarrow> c = 0"
  shows "pool_safe ((upd_page f (\<lambda>p. p\<lparr>p_pin_count := c\<rparr>) s)\<lparr>bp_lru := l\<rparr>)"
proof -
  have len: "f < length (bp_pages s)" using safe res by (simp add: pool_safeD)
  have ids: "p_page_id (bp_pages (upd_page f (\<lambda>p. p\<lparr>p_pin_count := c\<rparr>) s) ! g) = p_page_id (bp_pages s ! g)" for g
    by (simp add: nth_upd_page len)
  have "set (bp_free s) \<inter> set l = {}" "set l \<subseteq> {..<bp_pool_size s}"
    using l(1) pool_safeD(5,7,8,10) [OF safe] res by fastforce+
  moreover have "p_pin_count (bp_pages (upd_page f (\<lambda>p. p\<lparr>p_pin_count := c\<rparr>) s) ! g) = 0
      \<and> bp_page_table s (p_page_id (bp_pages (upd_page f (\<lambda>p. p\<lparr>p_pin_count := c\<rparr>) s) ! g)) = Some g"
    if "g \<in> set l" for g
    using that l pool_safeD(9,11,12) [OF safe] res by (auto simp: nth_upd_page len)
  moreover have "\<forall>p \<in> set (bp_pages (upd_page f (\<lambda>p. p\<lparr>p_pin_count := c\<rparr>) s)). page_wf p"
    using safe len by (intro set_upd_page) (auto simp: pool_safe_def)
  ultimately show ?thesis
    using safe l(2) unfolding pool_safe_def by (simp add: ids)
qed

lemma set_pin_kept:
  assumes safe: "pool_safe s" and res: "bp_page_table s pid = Some f"
    and l: "set (bp_lru s) - {f} \<subseteq> set l" "c = 0 \<Longrightarrow> f \<in> set l" and kept: "frame_kept s g"
  shows "frame_kept ((upd_page f (\<lambda>p. p\<lparr>p_pin_count := c\<rparr>) s)\<lparr>bp_lru := l\<rparr>) g"
proof -
  have len: "f < length (bp_pages s)" using safe res by (simp add: pool_safeD)
  show ?thesis
    using kept l res pool_safeD(9) [OF safe res] by (auto simp: frame_kept_def nth_upd_page len)
qed

lemma evict_error_safe:
  assumes "pool_safe s"
  shows "pool_safe (s\<lparr>bp_lru := butlast (bp_lru s), bp_disk := dm\<rparr>)"
  using assms by (auto simp: pool_safe_def distinct_butlast dest: in_set_butlastD)

lemma FetchPage_safe:
  assumes "pool_safe s" and "FetchPage os pid s = (r, s')"
  shows "pool_safe s'"
  using assms(2)
proof (cases rule: FetchPage_cases)
  case (hit f)
  then show ?thesis
    using set_pin_safe [OF assms(1) hit(1), of "removeAll f (bp_lru s)" "p_pin_count (bp_pages s ! f) + 1"]
      pool_safeD(4) [OF assms(1)]
    by (auto simp: distinct_removeAll upd_page_def)
next
  case (evict_error e)
  then show ?thesis using acquire_frame_error [OF assms(1) evict_error(2)] evict_error_safe [OF assms(1)] by auto
next
  case full
  then show ?thesis using assms(1) by simp
next
  case (read_error e f s1 dm)
  then have "taken s f s1" using assms(1) by (blast intro: acquire_frame_Some)
  then show ?thesis
    using read_error upd_page_keeps(1) [of s1 f ResetMemory] by (simp add: taken_def ResetMemory_def page_wf_def)
next
  case (miss f s1 d dm)
  then have "taken s f s1" using assms(1) by (blast intro: acquire_frame_Some)
  then show ?thesis
    using miss ReadPage_length [OF miss(3)] by (auto intro!: placed_safe simp: page_wf_def)
qed

lemma pool_invD: "pool_inv s \<Longrightarrow> pool_safe s" "pool_inv s \<Longrightarrow> f < bp_pool_size s \<Longrightarrow> frame_kept s f"
  by (simp_all add: pool_inv_def)

text \<open>A normal return of \<open>FetchPage\<close> loses no frame, as long as the pin count of the page does not wrap.\<close>

lemma FetchPage_kept:
  assumes safe: "pool_safe s" and call: "FetchPage os pid s = (Inr r, s')"
    and nowrap: "\<And>f. bp_page_table s pid = Some f \<Longrightarrow> p_pin_count (bp_pages s ! f) + 1 \<noteq> 0"
  shows "bp_pool_size s' = bp_pool_size s" "g < bp_pool_size s \<Longrightarrow> frame_kept s g \<Longrightarrow> frame_kept s' g"
proof -
  have "bp_pool_size s' = bp_pool_size s \<and> (g < bp_pool_size s \<longrightarrow> frame_kept s g \<longrightarrow> frame_kept s' g)"
    using call
  proof (cases rule: FetchPage_cases)
    case (hit f)
    then show ?thesis
      using set_pin_kept [OF safe hit(1), of "removeAll f (bp_lru s)" "p_pin_count (bp_pages s ! f) + 1" g] nowrap [OF hit(1)]
      by (auto simp: upd_page_def)
  next
    case (miss f s1 d dm)
    then have t: "taken s f s1" using safe by (blast intro: acquire_frame_Some)
    show ?thesis using miss placed_kept [OF t _ _ safe] t by (simp add: taken_def)
  qed simp_all
  then show "bp_pool_size s' = bp_pool_size s" "g < bp_pool_size s \<Longrightarrow> frame_kept s g \<Longrightarrow> frame_kept s' g" by simp_all
qed

lemma FetchPage_inv:
  assumes "pool_inv s" and "FetchPage os pid s = (Inr r, s')"
    and "\<And>f. bp_page_table s pid = Some f \<Longrightarrow> p_pin_count (bp_pages s ! f) + 1 \<noteq> 0"
  shows "pool_inv s'"
  using FetchPage_kept [OF pool_invD(1) [OF assms(1)] assms(2,3)] FetchPage_safe [OF pool_invD(1) [OF assms(1)] assms(2)] assms(1)
  by (simp add: pool_inv_def)

lemma NewPage_safe:
  assumes "pool_safe s" and "NewPage os s = (r, s')"
    and "bp_page_table s (dm_next_page_id (bp_disk s)) = None"
  shows "pool_safe s'"
  using assms(2)
proof (cases rule: NewPage_cases)
  case (evict_error e)
  then show ?thesis using acquire_frame_error [OF assms(1) evict_error(1)] evict_error_safe [OF assms(1)] by auto
next
  case full
  then show ?thesis using assms(1) by simp
next
  case (fresh f s1)
  then have "taken s f s1" using assms(1) by (blast intro: acquire_frame_Some)
  then show ?thesis using fresh assms(3) by (auto intro!: placed_safe simp: taken_def)
qed

lemma NewPage_kept:
  assumes safe: "pool_safe s" and call: "NewPage os s = (Inr r, s')"
    and new: "bp_page_table s (dm_next_page_id (bp_disk s)) = None"
  shows "bp_pool_size s' = bp_pool_size s" "g < bp_pool_size s \<Longrightarrow> frame_kept s g \<Longrightarrow> frame_kept s' g"
proof -
  have "bp_pool_size s' = bp_pool_size s \<and> (g < bp_pool_size s \<longrightarrow> frame_kept s g \<longrightarrow> frame_kept s' g)"
    using call
  proof (cases rule: NewPage_cases)
    case (fresh f s1)
    then have t: "taken s f s1" using safe by (blast intro: acquire_frame_Some)
    show ?thesis using fresh new placed_kept [OF t _ _ safe] t by (simp add: taken_def)
  qed simp_all
  then show "bp_pool_size s' = bp_pool_size s" "g < bp_pool_size s \<Longrightarrow> frame_kept s g \<Longrightarrow> frame_kept s' g" by simp_all
qed

lemma NewPage_inv:
  assumes "pool_inv s" and "NewPage os s = (Inr r, s')" and "bp_page_table s (dm_next_page_id (bp_disk s)) = None"
  shows "pool_inv s'"
  using NewPage_kept [OF pool_invD(1) [OF assms(1)] assms(2,3)] NewPage_safe [OF pool_invD(1) [OF assms(1)] assms(2,3)] assms(1)
  by (simp add: pool_inv_def)

text \<open>A call that throws loses at most one frame: the one it took, or was about to evict.\<close>

lemma acquire_error_kept:
  assumes safe: "pool_safe s" and a: "acquire_frame os s = (Inl e, s')"
  shows "pool_safe s'" "bp_pool_size s' = bp_pool_size s" "g \<noteq> last (bp_lru s) \<Longrightarrow> frame_kept s g \<Longrightarrow> frame_kept s' g"
proof -
  obtain d where s': "s' = s\<lparr>bp_lru := butlast (bp_lru s), bp_disk := (bp_disk s)\<lparr>dm_ring := d\<rparr>\<rparr>" using acquire_frame_error [OF assms] by blast
  show "pool_safe s'" unfolding s' by (rule evict_error_safe [OF safe])
  show "bp_pool_size s' = bp_pool_size s" by (simp add: s')
  have "g \<in> set (butlast (bp_lru s))" if "g \<in> set (bp_lru s)" "g \<noteq> last (bp_lru s)"
    using that by (metis append_butlast_last_id in_set_conv_decomp length_pos_if_in_set length_greater_0_conv Un_iff set_append singletonD list.set(1,2) insert_iff empty_iff)
  then show "g \<noteq> last (bp_lru s) \<Longrightarrow> frame_kept s g \<Longrightarrow> frame_kept s' g" by (auto simp: s' frame_kept_def)
qed

lemma FetchPage_throws:
  assumes safe: "pool_safe s" and call: "FetchPage os pid s = (Inl e, s')"
  shows "pool_safe s' \<and> bp_pool_size s' = bp_pool_size s \<and> (\<exists>f. \<forall>g. g \<noteq> f \<longrightarrow> frame_kept s g \<longrightarrow> frame_kept s' g)"
proof -
  have "bp_pool_size s' = bp_pool_size s \<and> (\<exists>f. \<forall>g. g \<noteq> f \<longrightarrow> frame_kept s g \<longrightarrow> frame_kept s' g)"
    using call
  proof (cases rule: FetchPage_cases)
    case (evict_error e')
    then show ?thesis using acquire_error_kept [OF safe evict_error(2)] by blast
  next
    case (read_error e' f s1 dm)
    have t: "taken s f s1" using safe read_error(2) by (rule acquire_frame_Some)
    have "frame_kept s' g" if "g \<noteq> f" "frame_kept s g" for g
      using that t read_error(5) by (auto simp: frame_kept_def taken_def upd_page_def)
    then show ?thesis using t read_error(5) by (auto simp: taken_def)
  qed simp_all
  then show ?thesis using FetchPage_safe [OF safe call] by blast
qed

lemma NewPage_throws:
  assumes safe: "pool_safe s" and call: "NewPage os s = (Inl e, s')"
  shows "pool_safe s' \<and> bp_pool_size s' = bp_pool_size s \<and> (\<exists>f. \<forall>g. g \<noteq> f \<longrightarrow> frame_kept s g \<longrightarrow> frame_kept s' g)"
  using call
proof (cases rule: NewPage_cases)
  case (evict_error e')
  then show ?thesis using acquire_error_kept [OF safe evict_error(1)] by blast
qed simp_all

text \<open>What \<open>UnpinPage\<close> leaves behind, with the dirty flag folded in.\<close>

lemma UnpinPage_unfold:
  assumes "bp_page_table s pid = Some f" and "f < length (bp_pages s)"
    and s1: "s1 = upd_page f (SetDirty (b \<or> p_is_dirty (bp_pages s ! f))) s"
    and c: "c = p_pin_count (bp_pages s ! f)"
  shows "UnpinPage ndebug pid b s =
    (if \<not> ndebug \<and> \<not> 0 < sint c then Inl Assertion_failed else Inr True,
     (upd_page f (\<lambda>p. p\<lparr>p_pin_count := c - 1\<rparr>) s1)
       \<lparr>bp_lru := (if (ndebug \<or> 0 < sint c) \<and> c = 1 then f # bp_lru s else bp_lru s)\<rparr>)"
  using assms by (cases b) (auto simp: UnpinPage_def Let_def upd_page_def SetDirty_def)

lemma UnpinPage_inv:
  assumes safe: "pool_safe s" and pin: "\<And>f. bp_page_table s pid = Some f \<Longrightarrow> p_pin_count (bp_pages s ! f) \<noteq> 0"
    and call: "UnpinPage ndebug pid b s = (r, s')"
  shows "pool_safe s'" "r = Inr x \<Longrightarrow> frame_kept s g \<Longrightarrow> frame_kept s' g"
proof -
  have "pool_safe s' \<and> (r = Inr x \<longrightarrow> frame_kept s g \<longrightarrow> frame_kept s' g)"
  proof (cases "bp_page_table s pid")
    case None
    then show ?thesis using safe call by (simp add: UnpinPage_def)
  next
    case (Some f)
    have len: "f < bp_pool_size s" using safe Some by (rule pool_safeD)
    define s1 where "s1 = upd_page f (SetDirty (b \<or> p_is_dirty (bp_pages s ! f))) s"
    define c where "c = p_pin_count (bp_pages s ! f)"
    have s1: "pool_safe s1" "frame_kept s1 g = frame_kept s g" "bp_page_table s1 pid = Some f"
        "bp_lru s1 = bp_lru s"
      using upd_page_keeps [OF safe len] pool_safeD(2) [OF safe len] Some by (simp_all add: s1_def)
    have nolru: "f \<notin> set (bp_lru s)" using pin [OF Some] pool_safeD(11) [OF safe, of f] by auto
    have c0: "c \<noteq> 0" using pin [OF Some] by (simp add: c_def)
    define l where "l = (if (ndebug \<or> 0 < sint c) \<and> c = 1 then f # bp_lru s else bp_lru s)"
    have s': "s' = (upd_page f (\<lambda>p. p\<lparr>p_pin_count := c - 1\<rparr>) s1)\<lparr>bp_lru := l\<rparr>"
      and r: "r = (if \<not> ndebug \<and> \<not> 0 < sint c then Inl Assertion_failed else Inr True)"
      using call UnpinPage_unfold [OF Some _ s1_def c_def] len
      by (auto simp: l_def pool_safeD(1) [OF safe] split: if_splits)
    have "pool_safe s'"
      unfolding s' using nolru pool_safeD(4) [OF safe] s1(4)
      by (intro set_pin_safe [OF s1(1,3)]) (auto simp: l_def split: if_splits)
    moreover have "frame_kept s' g" if "frame_kept s g" "r = Inr x"
      unfolding s' using that nolru s1(2,4) r
      by (intro set_pin_kept [OF s1(1,3)]) (auto simp: l_def split: if_splits)
    ultimately show ?thesis by blast
  qed
  then show "pool_safe s'" "r = Inr x \<Longrightarrow> frame_kept s g \<Longrightarrow> frame_kept s' g" by auto
qed

lemma FlushPage_inv:
  assumes safe: "pool_safe s" and call: "FlushPage os pid s = (r, s')"
  shows "pool_safe s'" "frame_kept s' g = frame_kept s g" "bp_page_table s' = bp_page_table s"
proof -
  have "pool_safe s' \<and> frame_kept s' g = frame_kept s g \<and> bp_page_table s' = bp_page_table s"
  proof (cases "bp_page_table s pid")
    case None
    then show ?thesis using safe call by (simp add: FlushPage_def)
  next
    case (Some f)
    have len: "f < bp_pool_size s" using safe Some by (rule pool_safeD)
    have "pool_safe (upd_page f (SetDirty False) s)"
        "frame_kept (upd_page f (SetDirty False) s) g = frame_kept s g"
      using pool_safeD(2) [OF safe len] by (simp_all add: upd_page_keeps [OF safe len])
    then show ?thesis
      using call Some safe
      by (auto simp: FlushPage_def split: prod.splits sum.splits if_splits)
  qed
  then show "pool_safe s'" "frame_kept s' g = frame_kept s g" "bp_page_table s' = bp_page_table s"
    by auto
qed

lemma flush_loop_inv:
  "pool_safe s \<Longrightarrow> flush_loop os pids s = (r, s') \<Longrightarrow> pool_safe s' \<and> (frame_kept s' g = frame_kept s g)"
proof (induction pids arbitrary: s)
  case Nil
  then show ?case by simp
next
  case (Cons pid pids)
  obtain x s1 where x: "FlushPage os pid s = (x, s1)" by (cases "FlushPage os pid s")
  show ?case
  proof (cases x)
    case (Inl e)
    then show ?thesis using Cons.prems x FlushPage_inv [OF Cons.prems(1) x] by auto
  next
    case (Inr b)
    then show ?thesis using Cons x FlushPage_inv [OF Cons.prems(1) x] by auto
  qed
qed

lemma flush_loop_size: "flush_loop os pids s = (r, s') \<Longrightarrow> bp_pool_size s' = bp_pool_size s"
  by (induction pids arbitrary: s)
    (auto simp: FlushPage_def split: prod.splits sum.splits option.splits if_splits)

lemma FlushAllPages_inv:
  assumes "pool_inv s" and "FlushAllPages os order s = (r, s')"
  shows "pool_inv s'"
proof -
  obtain x s1 where x: "flush_loop os order s = (x, s1)" by (cases "flush_loop os order s")
  have "pool_inv s1"
    using flush_loop_inv [OF pool_invD(1) [OF assms(1)] x] flush_loop_size [OF x] assms(1)
    by (simp add: pool_inv_def)
  then show ?thesis
    using assms(2) x by (auto simp: FlushAllPages_def split: sum.splits option.splits)
qed

section \<open>Reachable states\<close>

text \<open>The calls a client makes, with what it must observe: it unpins only pages it has pinned, and writes
  only into pages it has pinned.  A page number handed out by \<open>NewPage\<close> is not resident yet; the pin
  count of a page does not reach \<open>2 ^ 32\<close>.\<close>

inductive pool_step :: "'d os \<Rightarrow> bool \<Rightarrow> 'd bpm \<Rightarrow> 'd bpm \<Rightarrow> bool" for os ndebug where
  fetch: "FetchPage os pid s = (Inr r, s') \<Longrightarrow>
    (\<And>f. bp_page_table s pid = Some f \<Longrightarrow> p_pin_count (bp_pages s ! f) + 1 \<noteq> 0) \<Longrightarrow>
    pool_step os ndebug s s'"
| new_page: "NewPage os s = (Inr r', s') \<Longrightarrow> bp_page_table s (dm_next_page_id (bp_disk s)) = None \<Longrightarrow>
    pool_step os ndebug s s'"
| unpin: "pinned s pid \<Longrightarrow> UnpinPage ndebug pid b s = (Inr x, s') \<Longrightarrow> pool_step os ndebug s s'"
| flush: "FlushPage os pid s = (y, s') \<Longrightarrow> pool_step os ndebug s s'"
| flush_all: "FlushAllPages os order s = (z, s') \<Longrightarrow> pool_step os ndebug s s'"
| client_write: "bp_page_table s pid = Some f \<Longrightarrow> p_pin_count (bp_pages s ! f) \<noteq> 0 \<Longrightarrow> length d = PAGE_SIZE \<Longrightarrow>
    pool_step os ndebug s (upd_page f (\<lambda>p. p\<lparr>p_data := d, p_is_dirty := p_is_dirty p \<or> b\<rparr>) s)"

text \<open>Histories: calls that return, and \<open>k\<close> calls of \<open>FetchPage\<close> and \<open>NewPage\<close> that throw.\<close>

inductive pool_history :: "'d os \<Rightarrow> bool \<Rightarrow> nat \<Rightarrow> 'd disk \<Rightarrow> nat \<Rightarrow> 'd bpm \<Rightarrow> bool" for os ndebug n dm where
  start: "pool_history os ndebug n dm 0 (BufferPoolManager_ctor n dm)"
| returns: "pool_history os ndebug n dm k s \<Longrightarrow> pool_step os ndebug s s' \<Longrightarrow> pool_history os ndebug n dm k s'"
| fetch_throws: "pool_history os ndebug n dm k s \<Longrightarrow> FetchPage os pid s = (Inl e, s') \<Longrightarrow> e \<noteq> Nonterminating \<Longrightarrow> pool_history os ndebug n dm (Suc k) s'"
| new_page_throws: "pool_history os ndebug n dm k s \<Longrightarrow> NewPage os s = (Inl e, s') \<Longrightarrow> e \<noteq> Nonterminating \<Longrightarrow> pool_history os ndebug n dm (Suc k) s'"

lemma pool_inv_ctor: "pool_inv (BufferPoolManager_ctor n dm)"
  by (auto simp: pool_inv_def pool_safe_def frame_kept_def BufferPoolManager_ctor_def)

lemma pool_step_kept:
  assumes "pool_step os ndebug s s'" and safe: "pool_safe s"
  shows "pool_safe s' \<and> bp_pool_size s' = bp_pool_size s \<and> (\<forall>g < bp_pool_size s. frame_kept s g \<longrightarrow> frame_kept s' g)"
  using assms(1)
proof (cases rule: pool_step.cases)
  case (fetch pid r)
  then show ?thesis using FetchPage_safe [OF safe fetch(1)] FetchPage_kept [OF safe fetch] by blast
next
  case (new_page r)
  then show ?thesis using NewPage_safe [OF safe new_page] NewPage_kept [OF safe new_page] by blast
next
  case (unpin pid b x)
  have "bp_pool_size s' = bp_pool_size s"
    using unpin(2) by (auto simp: UnpinPage_def Let_def split: option.splits if_splits)
  then show ?thesis using UnpinPage_inv [OF safe _ unpin(2)] unpin(1) by (auto simp: pinned_def)
next
  case (flush pid y)
  have "bp_pool_size s' = bp_pool_size s"
    using flush by (auto simp: FlushPage_def split: prod.splits sum.splits option.splits if_splits)
  then show ?thesis using FlushPage_inv [OF safe flush] by simp
next
  case (flush_all order z)
  obtain x s1 where x: "flush_loop os order s = (x, s1)" by (cases "flush_loop os order s")
  then show ?thesis
    using flush_all flush_loop_inv [OF safe x] flush_loop_size [OF x] by (auto simp: FlushAllPages_def split: sum.splits option.splits)
next
  case (client_write pid f d b)
  have len: "f < bp_pool_size s" using safe client_write(2) by (rule pool_safeD)
  show ?thesis using client_write upd_page_keeps [OF safe len] by (simp add: page_wf_def)
qed

lemma pool_step_inv: "pool_step os ndebug s s' \<Longrightarrow> pool_inv s \<Longrightarrow> pool_inv s'"
  using pool_step_kept by (auto simp: pool_inv_def)

section \<open>The pool as a transparent page store\<close>

text \<open>What the pool holds for a page: its frame if it is resident, else its block on disk.\<close>

definition contents :: "('d \<Rightarrow> pageid \<Rightarrow> bytes) \<Rightarrow> 'd bpm \<Rightarrow> pageid \<Rightarrow> bytes" where
  "contents blocks s pid =
     (case bp_page_table s pid of
        Some f \<Rightarrow> p_data (bp_pages s ! f)
      | None \<Rightarrow> blocks (dm_ring (bp_disk s)) pid)"

text \<open>Coherence: no write is under way, and a clean page equals its block, unless it is one of the pages
  \<open>W\<close> a client still has pinned and has changed without having reported it dirty yet.\<close>

definition coherent :: "int \<Rightarrow> ('d \<Rightarrow> pageid \<Rightarrow> bytes) \<Rightarrow> ('d \<Rightarrow> io_phase) \<Rightarrow> pageid set \<Rightarrow> 'd bpm \<Rightarrow> bool" where
  "coherent fd blocks phase W s \<longleftrightarrow> pool_safe s \<and> phase (dm_ring (bp_disk s)) = Idle \<and> dm_fd (bp_disk s) = fd
     \<and> (\<forall>pid \<in> W. pinned s pid)
     \<and> (\<forall>pid f. bp_page_table s pid = Some f \<longrightarrow> pid \<notin> W \<longrightarrow>
          \<not> p_is_dirty (bp_pages s ! f) \<longrightarrow> p_data (bp_pages s ! f) = blocks (dm_ring (bp_disk s)) pid)"

text \<open>Taking a frame leaves the pinned pages where they are.\<close>

lemma taken_pinned:
  assumes safe: "pool_safe s" and t: "taken s f s1"
  shows "pinned s1 pid \<longleftrightarrow> pinned s pid"
proof -
  have "g \<noteq> f" if "bp_page_table s pid = Some g" "p_pin_count (bp_pages s ! g) \<noteq> 0" for g
    using that t pool_safeD(10,11) [OF safe] by (auto simp: taken_def)
  then show ?thesis using t by (auto simp: pinned_def taken_def)
qed

context storage_device
begin

lemma await_writing:
  assumes "phase (dm_ring dm) = Writing pid f bs" and "m f = bs" and "length bs = PAGE_SIZE"
  shows "\<exists>d. await_completion os m dm = Some (dm\<lparr>dm_ring := d\<rparr>) \<and> phase d = Idle
           \<and> blocks d = (blocks (dm_ring dm))(pid := bs)"
  using assms(1)
proof (induction "wait (dm_ring dm)" arbitrary: dm rule: less_induct)
  case less
  from reap_writing [where m = m, OF less.prems assms(2,3)] show ?case
  proof
    assume "\<exists>d'. reap_loop os m 0 (dm_ring dm) = Some (0, d') \<and> phase d' = Writing pid f bs
      \<and> wait d' < wait (dm_ring dm) \<and> (\<forall>q. q \<noteq> pid \<longrightarrow> blocks d' q = blocks (dm_ring dm) q)"
    then obtain d' where d': "reap_loop os m 0 (dm_ring dm) = Some (0, d')" "phase d' = Writing pid f bs"
        "wait d' < wait (dm_ring dm)" "\<forall>q. q \<noteq> pid \<longrightarrow> blocks d' q = blocks (dm_ring dm) q" by blast
    then obtain d where d: "await_completion os m (dm\<lparr>dm_ring := d'\<rparr>) = Some (dm\<lparr>dm_ring := d\<rparr>)"
        "phase d = Idle" "blocks d = (blocks d')(pid := bs)"
      using less.hyps [of "dm\<lparr>dm_ring := d'\<rparr>"] by auto
    then show ?thesis
      using d' by (subst await_completion.simps) (auto simp: RetrieveAsyncCompletions_def fun_eq_iff)
  next
    assume "\<exists>d'. reap_loop os m 0 (dm_ring dm) = Some (1, d') \<and> phase d' = Idle
      \<and> blocks d' = (blocks (dm_ring dm))(pid := bs)"
    then show ?thesis
      by (subst await_completion.simps) (auto simp: RetrieveAsyncCompletions_def)
  qed
qed

text \<open>Writing a buffer and waiting for the completion, from an idle device.\<close>

lemma write_and_wait:
  assumes "phase (dm_ring dm) = Idle" and "dm_fd dm = fd" and "length (m f) = PAGE_SIZE"
  shows "\<exists>d1 d2. WritePageAsync os m pid f dm = (Inr (), dm\<lparr>dm_ring := d1\<rparr>)
           \<and> await_completion os m (dm\<lparr>dm_ring := d1\<rparr>) = Some (dm\<lparr>dm_ring := d2\<rparr>)
           \<and> phase d2 = Idle \<and> blocks d2 = (blocks (dm_ring dm))(pid := m f)"
proof -
  obtain d1 where d1: "WritePageAsync os m pid f dm = (Inr (), dm\<lparr>dm_ring := d1\<rparr>)"
      "phase d1 = Writing pid f (m f)" "\<forall>q. q \<noteq> pid \<longrightarrow> blocks d1 q = blocks (dm_ring dm) q"
    using WritePageAsync_idle [OF assms(1,2)] by blast
  show ?thesis
    using d1 await_writing [of "dm\<lparr>dm_ring := d1\<rparr>" pid f "m f" m] assms(3) by (fastforce simp: fun_eq_iff)
qed

text \<open>Dropping the victim from the pool once its block is up to date.\<close>

lemma evicted_coherent:
  assumes c: "coherent fd blocks phase W s" and "bp_free s = []" and ne: "bp_lru s \<noteq> []"
    and f: "f = last (bp_lru s)" and v: "v = p_page_id (bp_pages s ! f)"
    and d: "phase d = Idle" "blocks d = (blocks (dm_ring (bp_disk s)))(v := p_data (bp_pages s ! f))"
    and s1: "s1 = s\<lparr>bp_lru := butlast (bp_lru s), bp_disk := (bp_disk s)\<lparr>dm_ring := d\<rparr>,
                bp_page_table := (bp_page_table s)(v := None)\<rparr>"
  shows "contents blocks s1 = contents blocks s" "coherent fd blocks phase W s1"
proof -
  have safe: "pool_safe s" using c by (simp add: coherent_def)
  have t: "taken s f s1" using acquire_from_lru [OF safe assms(2) ne] f v s1 by simp
  have res: "bp_page_table s v = Some f" using pool_safeD(12) [OF safe] ne f v by simp
  show "contents blocks s1 = contents blocks s"
    using res d(2) s1 by (auto simp: contents_def fun_eq_iff split: option.splits)
  have "p_data (bp_pages s ! g) = blocks d pid"
    if "bp_page_table s1 pid = Some g" "pid \<notin> W" "\<not> p_is_dirty (bp_pages s ! g)" for pid g
    using that c d(2) s1 by (auto simp: coherent_def split: if_splits)
  then show "coherent fd blocks phase W s1"
    using t c d(1) s1 taken_pinned [OF safe t] by (simp add: coherent_def taken_def)
qed

text \<open>On an idle device a frame is always obtained if there is one, and obtaining it changes no page.\<close>

lemma acquire_coherent:
  assumes c: "coherent fd blocks phase W s"
  shows "(\<exists>f s1. acquire_frame os s = (Inr (Some f), s1) \<and> contents blocks s1 = contents blocks s
             \<and> coherent fd blocks phase W s1)
       \<or> acquire_frame os s = (Inr None, s)"
proof (cases "bp_free s")
  case (Cons f fs)
  have "taken s f (s\<lparr>bp_free := fs\<rparr>)"
    using c Cons by (intro acquire_from_free) (simp_all add: coherent_def)
  then have "coherent fd blocks phase W (s\<lparr>bp_free := fs\<rparr>)"
    using c taken_pinned [of s f "s\<lparr>bp_free := fs\<rparr>"] by (simp add: coherent_def taken_def)
  then show ?thesis using Cons by (simp add: acquire_frame_def contents_def fun_eq_iff split: option.splits)
next
  case Nil
  show ?thesis
  proof (cases "bp_lru s = []")
    case True
    then show ?thesis using Nil by (simp add: acquire_frame_def)
  next
    case False
    define f where "f = last (bp_lru s)"
    define v where "v = p_page_id (bp_pages s ! f)"
    let ?s = "s\<lparr>bp_lru := butlast (bp_lru s)\<rparr>" and ?dm = "bp_disk s"
    let ?s1 = "\<lambda>d. s\<lparr>bp_lru := butlast (bp_lru s), bp_disk := ?dm\<lparr>dm_ring := d\<rparr>,
        bp_page_table := (bp_page_table s)(v := None)\<rparr>"
    note safe = c [unfolded coherent_def, THEN conjunct1]
    have f: "f \<in> set (bp_lru s)" using False by (simp add: f_def)
    have buf: "frame_buffers ?s f = p_data (bp_pages s ! f)" by (simp add: frame_buffers_def)
    have len: "length (frame_buffers ?s f) = PAGE_SIZE"
      using pool_safeD(2) [OF safe pool_safeD(7) [OF safe f]] buf by (simp add: page_wf_def)
    have idle: "phase (dm_ring ?dm) = Idle" "dm_fd ?dm = fd" using c by (simp_all add: coherent_def)
    have "\<exists>d. acquire_frame os s = (Inr (Some f), ?s1 d) \<and> phase d = Idle
        \<and> blocks d = (blocks (dm_ring ?dm))(v := p_data (bp_pages s ! f))"
    proof (cases "p_is_dirty (bp_pages s ! f)")
      case True
      show ?thesis
        using write_and_wait [where m = "frame_buffers ?s" and f = f and pid = v, OF idle len] True Nil False
        by (auto simp: acquire_frame_def Let_def f_def [symmetric] v_def [symmetric] buf)
    next
      case clean: False
      have "p_data (bp_pages s ! f) = blocks (dm_ring ?dm) v"
        using c clean pool_safeD(11,12) [OF safe f] by (fastforce simp: coherent_def v_def pinned_def)
      then show ?thesis
        using clean Nil False idle
        by (intro exI [of _ "dm_ring ?dm"])
          (auto simp: acquire_frame_def Let_def f_def [symmetric] v_def [symmetric])
    qed
    then show ?thesis using evicted_coherent [OF c Nil False f_def v_def] by blast
  qed
qed

text \<open>Placing a page whose content is given in the frame obtained.\<close>

lemma placed_coherent:
  assumes t: "taken s f s1" and c1: "coherent fd blocks phase W s1"
    and q: "page_wf q" "p_pin_count q \<noteq> 0" "bp_page_table s (p_page_id q) = None"
    and W: "W' = W \<and> p_data q = blocks (dm_ring dm) (p_page_id q) \<or> W' = insert (p_page_id q) W"
    and dm: "phase (dm_ring dm) = Idle" "dm_fd dm = fd" "blocks (dm_ring dm) = blocks (dm_ring (bp_disk s1))"
  shows "coherent fd blocks phase W' (placed f q dm s1)"
    "contents blocks (placed f q dm s1) = (contents blocks s1)(p_page_id q := p_data q)"
proof -
  have f: "f < length (bp_pages s1)" using t by (auto simp: taken_def dest: pool_safeD(1))
  have other: "(bp_pages s1)[f := q] ! g = bp_pages s1 ! g" if "bp_page_table s1 pid = Some g" for pid g
    using that t by (auto simp: taken_def)
  have new: "pinned (placed f q dm s1) (p_page_id q)" using f q(2) by (simp add: pinned_def)
  have "pinned (placed f q dm s1) pid" if "pinned s1 pid" for pid
    using that new other by (cases "pid = p_page_id q") (auto simp: pinned_def)
  then show "coherent fd blocks phase W' (placed f q dm s1)"
    using c1 dm placed_safe [OF t q(1,3)] new W f other by (auto simp: coherent_def)
  show "contents blocks (placed f q dm s1) = (contents blocks s1)(p_page_id q := p_data q)"
    using f other dm by (auto simp: contents_def fun_eq_iff split: option.splits)
qed

lemma fetch_coherent:
  assumes c: "coherent fd blocks phase W s" and call: "FetchPage os pid s = (r, s')"
    and nowrap: "\<And>f. bp_page_table s pid = Some f \<Longrightarrow> p_pin_count (bp_pages s ! f) + 1 \<noteq> 0"
  shows "coherent fd blocks phase W s'" "contents blocks s' = contents blocks s"
    "r = Inr (Some f) \<Longrightarrow> bp_page_table s' pid = Some f \<and> p_data (bp_pages s' ! f) = contents blocks s pid"
proof -
  have safe: "pool_safe s" using c by (simp add: coherent_def)
  have "coherent fd blocks phase W s' \<and> contents blocks s' = contents blocks s \<and>
    (r = Inr (Some f) \<longrightarrow> bp_page_table s' pid = Some f \<and> p_data (bp_pages s' ! f) = contents blocks s pid)"
    using call
  proof (cases rule: FetchPage_cases)
    case (hit g)
    have len: "g < length (bp_pages s)" using safe hit(1) by (simp add: pool_safeD)
    have "contents blocks s' = contents blocks s"
      unfolding hit(3) by (simp add: contents_def nth_upd_page len fun_eq_iff split: option.splits)
    moreover have "coherent fd blocks phase W s'"
      using c nowrap [OF hit(1)] FetchPage_safe [OF safe call] unfolding hit(3) coherent_def
      by (auto simp: nth_upd_page len pinned_def split: if_splits)
    ultimately show ?thesis using hit len by (auto simp: contents_def nth_upd_page)
  next
    case (evict_error e)
    then show ?thesis using acquire_coherent [OF c] by auto
  next
    case full
    then show ?thesis using c by simp
  next
    case (read_error e g s1 dm)
    then have t: "taken s g s1" using safe by (blast intro: acquire_frame_Some)
    have c1: "coherent fd blocks phase W s1" "contents blocks s1 = contents blocks s"
      using acquire_coherent [OF c] read_error(2) by auto
    have g: "g < length (bp_pages s1)" using t by (auto simp: taken_def dest: pool_safeD(1))
    have other: "bp_pages (upd_page g ResetMemory s1) ! h = bp_pages s1 ! h" if "bp_page_table s1 q = Some h" for q h
      using that t by (simp add: nth_upd_page [OF g] taken_def)
    note R = ReadPage_idle [OF _ _ read_error(3)]
    have "contents blocks s' = contents blocks s1"
      using R(2) c1(1) other
      by (auto simp: read_error(5) contents_def fun_eq_iff coherent_def split: option.splits)
    moreover have "coherent fd blocks phase W s'"
      using R(1,2,3) c1(1) other FetchPage_safe [OF safe call]
      by (auto simp: read_error(5) coherent_def pinned_def)
    ultimately show ?thesis using c1(2) read_error(4) by simp
  next
    case (miss g s1 d dm)
    then have t: "taken s g s1" using safe by (blast intro: acquire_frame_Some)
    have c1: "coherent fd blocks phase W s1" "contents blocks s1 = contents blocks s"
      using acquire_coherent [OF c] miss(2) by auto
    note idle = c1(1) [unfolded coherent_def, THEN conjunct2, THEN conjunct1]
    have fd1: "dm_fd (bp_disk s1) = fd" using c1(1) by (simp add: coherent_def)
    note R = ReadPage_idle [OF idle fd1 miss(3)]
    have "bp_page_table s1 pid = None"
      using t miss(1) by (cases "bp_page_table s1 pid") (auto simp: taken_def)
    then have d: "d = contents blocks s pid"
      using R(5) [of d] by (simp add: c1(2) [symmetric] contents_def)
    show ?thesis
      using placed_coherent [OF t c1(1), of "(bp_pages s1 ! g)
          \<lparr>p_data := d, p_page_id := pid, p_pin_count := 1, p_is_dirty := False\<rparr>" W dm]
        miss R ReadPage_length [OF miss(3)] d c1(2) t pool_safeD(1) [OF safe]
      by (auto simp: page_wf_def fun_eq_iff taken_def)
  qed
  then show "coherent fd blocks phase W s'" "contents blocks s' = contents blocks s"
    "r = Inr (Some f) \<Longrightarrow> bp_page_table s' pid = Some f \<and> p_data (bp_pages s' ! f) = contents blocks s pid"
    by auto
qed

lemma new_coherent:
  assumes c: "coherent fd blocks phase W s" and call: "NewPage os s = (r, s')"
    and new: "bp_page_table s (dm_next_page_id (bp_disk s)) = None"
  shows "r = Inr None \<and> s' = s \<or>
    (\<exists>f. r = Inr (Some (dm_next_page_id (bp_disk s), f))
       \<and> coherent fd blocks phase (insert (dm_next_page_id (bp_disk s)) W) s'
       \<and> contents blocks s' = (contents blocks s)(dm_next_page_id (bp_disk s) := replicate PAGE_SIZE 0))"
  using call
proof (cases rule: NewPage_cases)
  case (evict_error e)
  then show ?thesis using acquire_coherent [OF c] by auto
next
  case full
  then show ?thesis by simp
next
  case (fresh f s1)
  then have t: "taken s f s1" using c by (auto simp: coherent_def intro: acquire_frame_Some)
  have c1: "coherent fd blocks phase W s1" "contents blocks s1 = contents blocks s"
    using acquire_coherent [OF c] fresh(1) by auto
  define q where "q = (ResetMemory (bp_pages s1 ! f))
    \<lparr>p_page_id := dm_next_page_id (bp_disk s1), p_pin_count := 1, p_is_dirty := False\<rparr>"
  have n: "dm_next_page_id (bp_disk s1) = dm_next_page_id (bp_disk s)" using t by (simp add: taken_def)
  have q: "page_wf q" "p_pin_count q \<noteq> 0" "p_page_id q = dm_next_page_id (bp_disk s)"
      "p_data q = replicate PAGE_SIZE 0"
    using n by (simp_all add: q_def ResetMemory_def page_wf_def)
  note P = placed_coherent [OF t c1(1) q(1,2), of "insert (p_page_id q) W"
      "(bp_disk s1)\<lparr>dm_next_page_id := dm_next_page_id (bp_disk s1) + 1\<rparr>", unfolded q(3)]
  have s': "s' = placed f q ((bp_disk s1)\<lparr>dm_next_page_id := dm_next_page_id (bp_disk s1) + 1\<rparr>) s1"
    using fresh(3) by (simp add: q_def)
  have "phase (dm_ring (bp_disk s1)) = Idle" "dm_fd (bp_disk s1) = fd" using c1(1) by (simp_all add: coherent_def)
  then show ?thesis using P c1(2) new fresh(2) s' n q(4) by simp
qed

text \<open>Replacing the page object of one resident frame.\<close>

lemma replace_coherent:
  assumes c: "coherent fd blocks phase W s" and res: "bp_page_table s pid = Some f"
    and s': "pool_safe s'" "bp_page_table s' = bp_page_table s" "bp_disk s' = bp_disk s"
      "\<And>g. bp_pages s' ! g = (if g = f then p' else bp_pages s ! g)"
    and W': "W' - {pid} = W - {pid}" "pid \<in> W' \<Longrightarrow> p_pin_count p' \<noteq> 0"
      "pid \<notin> W' \<Longrightarrow> \<not> p_is_dirty p' \<Longrightarrow> p_data p' = blocks (dm_ring (bp_disk s)) pid"
  shows "coherent fd blocks phase W' s'" "contents blocks s' = (contents blocks s)(pid := p_data p')"
proof -
  have inj: "g = f \<longleftrightarrow> q = pid" if "bp_page_table s q = Some g" for q g
    using that res c pool_safeD(9) [of s] unfolding coherent_def by (metis option.inject)
  have "pinned s' q" if "q \<in> W'" for q
  proof (cases "q = pid")
    case True
    then show ?thesis using that W'(2) res s' by (simp add: pinned_def)
  next
    case False
    then have "pinned s q" using that W'(1) c unfolding coherent_def by blast
    then show ?thesis using False s' inj by (auto simp: pinned_def)
  qed
  moreover have "p_data (bp_pages s' ! g) = blocks (dm_ring (bp_disk s)) q"
    if "bp_page_table s q = Some g" "q \<notin> W'" "\<not> p_is_dirty (bp_pages s' ! g)" for q g
  proof (cases "q = pid")
    case True
    then show ?thesis using that res s'(4) W'(3) by simp
  next
    case False
    then have "q \<notin> W" using that(2) W'(1) by blast
    then show ?thesis using that c s'(4) inj [OF that(1)] False unfolding coherent_def by auto
  qed
  ultimately show "coherent fd blocks phase W' s'" using s' c by (simp add: coherent_def)
  show "contents blocks s' = (contents blocks s)(pid := p_data p')"
    using s' res inj by (auto simp: contents_def fun_eq_iff split: option.splits)
qed

lemma write_coherent:
  assumes c: "coherent fd blocks phase W s" and res: "bp_page_table s pid = Some f"
    and pin: "p_pin_count (bp_pages s ! f) \<noteq> 0" and d: "length d = PAGE_SIZE"
  shows "coherent fd blocks phase (insert pid W) (upd_page f (\<lambda>p. p\<lparr>p_data := d\<rparr>) s)"
    "contents blocks (upd_page f (\<lambda>p. p\<lparr>p_data := d\<rparr>) s) = (contents blocks s)(pid := d)"
proof -
  have safe: "pool_safe s" using c by (simp add: coherent_def)
  have f: "f < bp_pool_size s" using safe res by (rule pool_safeD)
  then have len: "f < length (bp_pages s)" using pool_safeD(1) [OF safe] by simp
  have "pool_safe (upd_page f (\<lambda>p. p\<lparr>p_data := d\<rparr>) s)"
    using d by (intro upd_page_keeps [OF safe f]) (simp_all add: page_wf_def)
  note R = replace_coherent [OF c res this, of "(bp_pages s ! f)\<lparr>p_data := d\<rparr>" "insert pid W"]
  show "coherent fd blocks phase (insert pid W) (upd_page f (\<lambda>p. p\<lparr>p_data := d\<rparr>) s)"
    "contents blocks (upd_page f (\<lambda>p. p\<lparr>p_data := d\<rparr>) s) = (contents blocks s)(pid := d)"
    using R pin by (simp_all add: nth_upd_page len)
qed

lemma unpin_coherent:
  assumes c: "coherent fd blocks phase W s" and res: "bp_page_table s pid = Some f"
    and pin: "p_pin_count (bp_pages s ! f) \<noteq> 0" and call: "UnpinPage ndebug pid b s = (r, s')"
    and owed: "b \<or> pid \<notin> W \<or> p_pin_count (bp_pages s ! f) \<noteq> 1"
  shows "coherent fd blocks phase (if b then W - {pid} else W) s'" "contents blocks s' = contents blocks s"
proof -
  let ?p = "bp_pages s ! f"
  let ?p' = "?p\<lparr>p_pin_count := p_pin_count ?p - 1, p_is_dirty := b \<or> p_is_dirty ?p\<rparr>"
  have safe: "pool_safe s" using c by (simp add: coherent_def)
  have len: "f < length (bp_pages s)" using safe res by (simp add: pool_safeD)
  have s': "bp_page_table s' = bp_page_table s" "bp_disk s' = bp_disk s"
      "bp_pages s' ! g = (if g = f then ?p' else bp_pages s ! g)" for g
    using call UnpinPage_unfold [OF res len refl refl, of ndebug b]
    by (auto simp: nth_upd_page len SetDirty_def split: if_splits)
  have "pool_safe s'"
    using UnpinPage_inv(1) [OF safe _ call] res pin by auto
  note R = replace_coherent [OF c res this s', of "if b then W - {pid} else W"]
  have clean: "p_data ?p = blocks (dm_ring (bp_disk s)) pid" if "pid \<notin> W" "\<not> p_is_dirty ?p"
    using c res that by (simp add: coherent_def)
  show "coherent fd blocks phase (if b then W - {pid} else W) s'"
    using owed clean by (intro R(1)) (auto split: if_splits)
  have "contents blocks s' = (contents blocks s)(pid := p_data ?p')"
    using owed clean by (intro R(2)) (auto split: if_splits)
  then show "contents blocks s' = contents blocks s"
    using res by (simp add: contents_def fun_eq_iff)
qed

end

text \<open>A client's view of the pool: it fetches pages, allocates them, writes into the buffer of a page it
  has pinned, and unpins.  \<open>Got\<close> carries the content of the buffer a fetch hands out.\<close>

datatype pool_op = Fetch_op pageid | New_op | Write_op pageid bytes | Unpin_op pageid bool

datatype pool_out = Got "bytes option" | Allocated "pageid option" | Done | Threw error

fun pool_do :: "'d os \<Rightarrow> bool \<Rightarrow> pool_op \<Rightarrow> 'd bpm \<Rightarrow> pool_out \<times> 'd bpm" where
  "pool_do os ndebug (Fetch_op pid) s = (case FetchPage os pid s of
     (Inl e, s') \<Rightarrow> (Threw e, s')
   | (Inr r, s') \<Rightarrow> (Got (map_option (\<lambda>f. p_data (bp_pages s' ! f)) r), s'))"
| "pool_do os ndebug New_op s = (case NewPage os s of
     (Inl e, s') \<Rightarrow> (Threw e, s')
   | (Inr r, s') \<Rightarrow> (Allocated (map_option fst r), s'))"
| "pool_do os ndebug (Write_op pid d) s = (case bp_page_table s pid of
     None \<Rightarrow> (Done, s)
   | Some f \<Rightarrow> (Done, upd_page f (\<lambda>p. p\<lparr>p_data := d\<rparr>) s))"
| "pool_do os ndebug (Unpin_op pid b) s = (case UnpinPage ndebug pid b s of
     (Inl e, s') \<Rightarrow> (Threw e, s')
   | (Inr r, s') \<Rightarrow> (Done, s'))"

text \<open>The discipline the pool expects of its clients: fetch without overflowing the pin count, allocate
  while the next page number is not resident, write and unpin only pages that are pinned, and pass
  \<open>is_dirty\<close> when giving up the last pin of a page that was changed (the set \<open>W\<close>; a page that was just
  allocated counts as changed).\<close>

definition pin_count :: "'d bpm \<Rightarrow> pageid \<Rightarrow> 32 word" where
  "pin_count s pid = (case bp_page_table s pid of None \<Rightarrow> 0 | Some f \<Rightarrow> p_pin_count (bp_pages s ! f))"

fun client_ok :: "pool_op \<Rightarrow> pageid set \<Rightarrow> 'd bpm \<Rightarrow> bool" where
  "client_ok (Fetch_op pid) W s = (pin_count s pid + 1 \<noteq> 0)"
| "client_ok New_op W s = (bp_page_table s (dm_next_page_id (bp_disk s)) = None)"
| "client_ok (Write_op pid d) W s = (pin_count s pid \<noteq> 0 \<and> length d = PAGE_SIZE)"
| "client_ok (Unpin_op pid b) W s = (pin_count s pid \<noteq> 0 \<and> (b \<or> pid \<notin> W \<or> pin_count s pid \<noteq> 1))"

fun client_changed :: "pool_op \<times> pool_out \<Rightarrow> pageid set \<Rightarrow> pageid set" where
  "client_changed (New_op, Allocated (Some pid)) W = insert pid W"
| "client_changed (Write_op pid d, x) W = insert pid W"
| "client_changed (Unpin_op pid b, x) W = (if b then W - {pid} else W)"
| "client_changed _ W = W"

fun pool_run :: "'d os \<Rightarrow> bool \<Rightarrow> pool_op list \<Rightarrow> 'd bpm \<Rightarrow> (pool_op \<times> pool_out) list \<times> 'd bpm" where
  "pool_run os ndebug [] s = ([], s)"
| "pool_run os ndebug (a # as) s =
     (let (x, s1) = pool_do os ndebug a s; (ys, s2) = pool_run os ndebug as s1 in ((a, x) # ys, s2))"

fun disciplined :: "'d os \<Rightarrow> bool \<Rightarrow> pool_op list \<Rightarrow> pageid set \<Rightarrow> 'd bpm \<Rightarrow> bool" where
  "disciplined os ndebug [] W s = True"
| "disciplined os ndebug (a # as) W s =
     (client_ok a W s \<and> (case pool_do os ndebug a s of (x, s1) \<Rightarrow>
        disciplined os ndebug as (client_changed (a, x) W) s1))"

text \<open>The specification: an array of pages with no cache and no disk.  It accepts a fetch only if it
  returned the current content of the page, or nothing; a write sets the content, an allocation zeroes it.\<close>

fun store_accepts :: "(pool_op \<times> pool_out) list \<Rightarrow> (pageid \<Rightarrow> bytes) \<Rightarrow> (pageid \<Rightarrow> bytes) option" where
  "store_accepts [] m = Some m"
| "store_accepts ((Fetch_op pid, Got (Some d)) # es) m = (if d = m pid then store_accepts es m else None)"
| "store_accepts ((New_op, Allocated (Some pid)) # es) m = store_accepts es (m(pid := replicate PAGE_SIZE 0))"
| "store_accepts ((Write_op pid d, x) # es) m = store_accepts es (m(pid := d))"
| "store_accepts (_ # es) m = store_accepts es m"

context storage_device
begin

lemma pool_do_accepted:
  assumes c: "coherent fd blocks phase W s" and ok: "client_ok a W s" and call: "pool_do os ndebug a s = (x, s')"
  shows "coherent fd blocks phase (client_changed (a, x) W) s'
    \<and> store_accepts ((a, x) # es) (contents blocks s) = store_accepts es (contents blocks s')"
proof (cases a)
  case (Fetch_op pid)
  obtain r s1 where f: "FetchPage os pid s = (r, s1)" by (cases "FetchPage os pid s")
  have "p_pin_count (bp_pages s ! f) + 1 \<noteq> 0" if "bp_page_table s pid = Some f" for f
    using ok Fetch_op that by (simp add: pin_count_def)
  note F = fetch_coherent [OF c f this]
  consider e where "r = Inl e" | "r = Inr None" | g where "r = Inr (Some g)"
    by (cases r) (auto intro: option.exhaust)
  then show ?thesis using Fetch_op call f F by cases auto
next
  case New_op
  obtain r s1 where f: "NewPage os s = (r, s1)" by (cases "NewPage os s")
  show ?thesis using new_coherent [OF c f] ok New_op call f c by auto
next
  case (Write_op pid d)
  then obtain f where "bp_page_table s pid = Some f" "p_pin_count (bp_pages s ! f) \<noteq> 0" "length d = PAGE_SIZE"
    using ok by (auto simp: pin_count_def split: option.splits)
  then show ?thesis using write_coherent [OF c] Write_op call by auto
next
  case (Unpin_op pid b)
  then obtain f where res: "bp_page_table s pid = Some f" "p_pin_count (bp_pages s ! f) \<noteq> 0"
      "b \<or> pid \<notin> W \<or> p_pin_count (bp_pages s ! f) \<noteq> 1"
    using ok by (auto simp: pin_count_def split: option.splits)
  obtain r s1 where u: "UnpinPage ndebug pid b s = (r, s1)" by (cases "UnpinPage ndebug pid b s")
  show ?thesis using unpin_coherent [OF c res(1,2) u res(3)] Unpin_op call u by (auto split: sum.splits)
qed

lemma pool_run_accepted:
  assumes "coherent fd blocks phase W s" and "disciplined os ndebug as W s"
    and "pool_run os ndebug as s = (es, s')"
  shows "store_accepts es (contents blocks s) = Some (contents blocks s')
    \<and> coherent fd blocks phase (fold client_changed es W) s'"
  using assms
proof (induction as arbitrary: W s es)
  case Nil
  then show ?case by simp
next
  case (Cons a as)
  obtain x s1 where d: "pool_do os ndebug a s = (x, s1)" by (cases "pool_do os ndebug a s")
  obtain ys where r: "pool_run os ndebug as s1 = (ys, s')" and es: "es = (a, x) # ys"
    using Cons.prems(3) d by (auto split: prod.splits)
  have "coherent fd blocks phase (client_changed (a, x) W) s1"
      "store_accepts es (contents blocks s) = store_accepts ys (contents blocks s1)"
    using pool_do_accepted [OF Cons.prems(1) _ d] Cons.prems(2) es by simp_all
  then show ?case using Cons.IH Cons.prems(2) d r es by simp
qed

end

end
