(* ===== verification/Slotted_Page.thy ===== *)
theory Slotted_Page
  imports Page
begin

text \<open>
  The slotted page of \<^verbatim>\<open>src/storage/table/slotted_page.h\<close> and \<^verbatim>\<open>slotted_page.cpp\<close>: header
  (LSN, tuple count, free-space pointer), slot array growing upwards, tuples growing downwards.
  The class only wraps a \<open>Page*\<close>, so its methods are functions on the page record.  All sixteen bit
  arithmetic is kept at its width, with the casts of the source.

  \<open>sp_inv\<close> is the layout invariant and \<open>sp_tuples\<close> the abstract content of a page, a list with one
  entry per slot.  The locale \<open>tuple_store\<close> is the contract the table scan and the insert executor
  rely on; the interpretation at the end discharges it for the methods below.
\<close>

section \<open>Layout constants and record identifiers\<close>

record rid =
  rid_page_id :: pageid
  rid_slot_num :: u32

definition LSN_OFFSET :: nat where "LSN_OFFSET = 0"

definition TUPLE_COUNT_OFFSET :: nat where "TUPLE_COUNT_OFFSET = 8"

definition FREE_SPACE_OFFSET :: nat where "FREE_SPACE_OFFSET = 10"

definition HEADER_SIZE :: nat where "HEADER_SIZE = 12"

definition SLOT_SIZE :: nat where "SLOT_SIZE = 4"

lemmas layout_defs = LSN_OFFSET_def TUPLE_COUNT_OFFSET_def FREE_SPACE_OFFSET_def HEADER_SIZE_def
  SLOT_SIZE_def PAGE_SIZE_def

section \<open>Header accessors\<close>

definition GetLSN :: "page \<Rightarrow> u64" where
  "GetLSN p = le_word (mem_get LSN_OFFSET 8 (p_data p))"

definition SetLSN :: "u64 \<Rightarrow> page \<Rightarrow> page" where
  "SetLSN lsn p = p\<lparr>p_data := mem_put LSN_OFFSET (le_bytes 8 lsn) (p_data p)\<rparr>"

definition GetTupleCount :: "page \<Rightarrow> u16" where
  "GetTupleCount p = le_word (mem_get TUPLE_COUNT_OFFSET 2 (p_data p))"

definition SetTupleCount :: "u16 \<Rightarrow> page \<Rightarrow> page" where
  "SetTupleCount c p = p\<lparr>p_data := mem_put TUPLE_COUNT_OFFSET (le_bytes 2 c) (p_data p)\<rparr>"

definition GetFreeSpacePointer :: "page \<Rightarrow> u16" where
  "GetFreeSpacePointer p = le_word (mem_get FREE_SPACE_OFFSET 2 (p_data p))"

definition SetFreeSpacePointer :: "u16 \<Rightarrow> page \<Rightarrow> page" where
  "SetFreeSpacePointer f p = p\<lparr>p_data := mem_put FREE_SPACE_OFFSET (le_bytes 2 f) (p_data p)\<rparr>"

section \<open>Operations\<close>

definition SP_Init :: "page \<Rightarrow> page" where
  "SP_Init p = SetFreeSpacePointer (of_nat PAGE_SIZE) (SetTupleCount 0 (SetLSN 0 (ResetMemory p)))"

text \<open>The offset of a slot, \<open>static_cast<uint16_t>(HEADER_SIZE + slot * SLOT_SIZE)\<close>.\<close>

definition slot_offset :: "nat \<Rightarrow> u16" where
  "slot_offset i = of_nat (HEADER_SIZE + i * SLOT_SIZE)"

definition InsertTuple :: "bytes \<Rightarrow> page \<Rightarrow> error + rid option \<times> page" where
  "InsertTuple tuple_data p =
     (if length tuple_data > 65535 then Inr (None, p)
      else
        let tuple_size = of_nat (length tuple_data) :: u16;
            tuple_count = GetTupleCount p;
            free_space = GetFreeSpacePointer p;
            required_space = of_nat (unat tuple_size + SLOT_SIZE) :: u16;
            used_space_header = slot_offset (unat tuple_count)
        in
          if uint free_space - uint used_space_header < uint required_space
          then Inr (None, p)
          else
            let free_space = free_space - tuple_size;
                p1 = SetFreeSpacePointer free_space p;
                slot = unat (slot_offset (unat tuple_count))
            in case memcpy_to (p_data p1) (unat free_space) tuple_data of
                 Inl e \<Rightarrow> Inl e
               | Inr d2 \<Rightarrow> (case memcpy_to d2 slot (le_bytes 2 free_space) of
                   Inl e \<Rightarrow> Inl e
                 | Inr d3 \<Rightarrow> (case memcpy_to d3 (slot + 2) (le_bytes 2 tuple_size) of
                     Inl e \<Rightarrow> Inl e
                   | Inr d4 \<Rightarrow>
                       Inr (Some \<lparr>rid_page_id = p_page_id p, rid_slot_num = ucast tuple_count\<rparr>,
                            SetDirty True (SetTupleCount (tuple_count + 1) (p1\<lparr>p_data := d4\<rparr>))))))"

definition GetTuple :: "rid \<Rightarrow> page \<Rightarrow> error + bytes option" where
  "GetTuple r p =
     (if unat (rid_slot_num r) \<ge> unat (GetTupleCount p) then Inr None
      else
        let slot = unat (slot_offset (unat (rid_slot_num r)))
        in case memcpy_from (p_data p) slot 2 of
             Inl e \<Rightarrow> Inl e
           | Inr ob \<Rightarrow> (case memcpy_from (p_data p) (slot + 2) 2 of
               Inl e \<Rightarrow> Inl e
             | Inr sb \<Rightarrow>
                 let tuple_offset = le_word ob :: u16; tuple_size = le_word sb :: u16
                 in if tuple_size = 0 then Inr None
                    else (case memcpy_from (p_data p) (unat tuple_offset) (unat tuple_size) of
                        Inl e \<Rightarrow> Inl e
                      | Inr t \<Rightarrow> Inr (Some t))))"

definition MarkDelete :: "rid \<Rightarrow> page \<Rightarrow> error + bool \<times> page" where
  "MarkDelete r p =
     (if unat (rid_slot_num r) \<ge> unat (GetTupleCount p) then Inr (False, p)
      else
        let slot = unat (slot_offset (unat (rid_slot_num r)))
        in case memcpy_to (p_data p) (slot + 2) (le_bytes 2 (0 :: u16)) of
             Inl e \<Rightarrow> Inl e
           | Inr d \<Rightarrow> Inr (True, SetDirty True (p\<lparr>p_data := d\<rparr>)))"

section \<open>Layout invariant and abstract content\<close>

definition tup_off :: "nat \<Rightarrow> page \<Rightarrow> u16" where
  "tup_off i p = le_word (mem_get (HEADER_SIZE + i * SLOT_SIZE) 2 (p_data p))"

definition tup_size :: "nat \<Rightarrow> page \<Rightarrow> u16" where
  "tup_size i p = le_word (mem_get (HEADER_SIZE + i * SLOT_SIZE + 2) 2 (p_data p))"

definition sp_count :: "page \<Rightarrow> nat" where
  "sp_count p = unat (GetTupleCount p)"

definition sp_free :: "page \<Rightarrow> nat" where
  "sp_free p = unat (GetFreeSpacePointer p)"

text \<open>Header, slot array and free space do not overlap; every tuple lies above the free-space
  pointer and below the end of the page; a later tuple lies below every earlier one.\<close>

definition sp_inv :: "page \<Rightarrow> bool" where
  "sp_inv p \<longleftrightarrow> page_wf p
     \<and> HEADER_SIZE + sp_count p * SLOT_SIZE \<le> sp_free p \<and> sp_free p \<le> PAGE_SIZE
     \<and> (\<forall>i < sp_count p. sp_free p \<le> unat (tup_off i p)
          \<and> unat (tup_off i p) + unat (tup_size i p) \<le> PAGE_SIZE)
     \<and> (\<forall>j < sp_count p. \<forall>i < j. unat (tup_off j p) + unat (tup_size j p) \<le> unat (tup_off i p))"

text \<open>The bytes between the slot array and the free-space pointer.\<close>

definition sp_room :: "page \<Rightarrow> nat" where
  "sp_room p = sp_free p - (HEADER_SIZE + sp_count p * SLOT_SIZE)"

definition sp_tuple :: "page \<Rightarrow> nat \<Rightarrow> bytes option" where
  "sp_tuple p i = (if tup_size i p = 0 then None
     else Some (mem_get (unat (tup_off i p)) (unat (tup_size i p)) (p_data p)))"

definition sp_tuples :: "page \<Rightarrow> bytes option list" where
  "sp_tuples p = map (sp_tuple p) [0..<sp_count p]"

text \<open>What a slot holds after a tuple was stored in it: a slot of size zero reads as deleted.\<close>

definition stored :: "bytes \<Rightarrow> bytes option" where
  "stored t = (if t = [] then None else Some t)"


section \<open>Fields\<close>

interpretation lsn: page_field GetLSN SetLSN LSN_OFFSET 8
  using page_field_word [of LSN_OFFSET 8, where 'a = 64]
  by (simp add: GetLSN_def [abs_def] SetLSN_def [abs_def] layout_defs)

interpretation tuple_count: page_field GetTupleCount SetTupleCount TUPLE_COUNT_OFFSET 2
  using page_field_word [of TUPLE_COUNT_OFFSET 2, where 'a = 16]
  by (simp add: GetTupleCount_def [abs_def] SetTupleCount_def [abs_def] layout_defs)

interpretation free_ptr: page_field GetFreeSpacePointer SetFreeSpacePointer FREE_SPACE_OFFSET 2
  using page_field_word [of FREE_SPACE_OFFSET 2, where 'a = 16]
  by (simp add: GetFreeSpacePointer_def [abs_def] SetFreeSpacePointer_def [abs_def] layout_defs)

interpretation lsn_count: page_field_pair GetLSN SetLSN LSN_OFFSET 8
    GetTupleCount SetTupleCount TUPLE_COUNT_OFFSET 2
  by unfold_locales (simp add: layout_defs)

interpretation lsn_free: page_field_pair GetLSN SetLSN LSN_OFFSET 8
    GetFreeSpacePointer SetFreeSpacePointer FREE_SPACE_OFFSET 2
  by unfold_locales (simp add: layout_defs)

interpretation count_free: page_field_pair GetTupleCount SetTupleCount TUPLE_COUNT_OFFSET 2
    GetFreeSpacePointer SetFreeSpacePointer FREE_SPACE_OFFSET 2
  by unfold_locales (simp add: layout_defs)

lemmas header_wf [page_simps] = lsn.wf_wr tuple_count.wf_wr free_ptr.wf_wr
lemmas header_rd_wr [page_simps] = lsn.rd_wr tuple_count.rd_wr free_ptr.rd_wr
  lsn_count.rd_two_wr_one lsn_count.rd_one_wr_two lsn_free.rd_two_wr_one lsn_free.rd_one_wr_two
  count_free.rd_two_wr_one count_free.rd_one_wr_two
lemmas header_meta [page_simps] = lsn.wr_meta tuple_count.wr_meta free_ptr.wr_meta

text \<open>The content of a page depends on its bytes only.\<close>

lemma sp_cong:
  assumes "p_data p = p_data q"
  shows "GetLSN p = GetLSN q" "sp_count p = sp_count q" "sp_free p = sp_free q"
    "tup_off i p = tup_off i q" "tup_size i p = tup_size i q" "sp_inv p = sp_inv q"
    "sp_tuples p = sp_tuples q" "sp_room p = sp_room q"
  using assms
  by (simp_all add: GetLSN_def sp_count_def sp_free_def tup_off_def tup_size_def sp_inv_def
      page_wf_def GetTupleCount_def GetFreeSpacePointer_def sp_tuples_def sp_tuple_def [abs_def]
      sp_room_def)

text \<open>Two pages that agree on every byte from the slot array upwards agree on every slot in use.\<close>

lemma sp_inv_count_bound: "sp_inv p \<Longrightarrow> sp_count p \<le> 2045"
  by (simp add: sp_inv_def layout_defs)

lemma slot_offset_unat: "i \<le> 2045 \<Longrightarrow> unat (slot_offset i) = HEADER_SIZE + i * SLOT_SIZE"
  unfolding slot_offset_def by (rule unat_of_nat_small) (simp add: layout_defs)

lemma sp_inv_lengths:
  assumes "sp_inv p" and "i < sp_count p"
  shows "HEADER_SIZE + i * SLOT_SIZE + 4 \<le> PAGE_SIZE" "HEADER_SIZE + i * SLOT_SIZE + 4 \<le> sp_free p"
    "length (p_data p) = PAGE_SIZE"
    "unat (tup_off i p) + unat (tup_size i p) \<le> PAGE_SIZE" "sp_free p \<le> unat (tup_off i p)"
  using assms by (auto simp: sp_inv_def page_wf_def layout_defs)

lemma GetTuple_view:
  assumes "sp_inv p"
  shows "GetTuple r p = Inr (if unat (rid_slot_num r) < length (sp_tuples p)
           then sp_tuples p ! unat (rid_slot_num r) else None)"
proof (cases "unat (rid_slot_num r) < sp_count p")
  case False
  then show ?thesis by (simp add: GetTuple_def sp_tuples_def sp_count_def)
next
  case True
  let ?i = "unat (rid_slot_num r)"
  note L = sp_inv_lengths [OF assms True]
  have so: "unat (slot_offset ?i) = HEADER_SIZE + ?i * SLOT_SIZE"
    using True sp_inv_count_bound [OF assms] by (intro slot_offset_unat) simp
  show ?thesis
    using True L
    by (auto simp: GetTuple_def so sp_count_def [symmetric] sp_tuples_def sp_tuple_def Let_def
        memcpy_from_def tup_off_def tup_size_def)
qed

text \<open>The page that \<open>InsertTuple\<close> leaves when it succeeds, with the offsets as numbers.\<close>

definition inserted :: "bytes \<Rightarrow> page \<Rightarrow> page" where
  "inserted t p =
     (let f = GetFreeSpacePointer p - of_nat (length t); s = HEADER_SIZE + sp_count p * SLOT_SIZE in
      SetDirty True (SetTupleCount (GetTupleCount p + 1)
        (p\<lparr>p_data := mem_put (s + 2) (le_bytes 2 (of_nat (length t) :: u16))
           (mem_put s (le_bytes 2 f)
             (mem_put (sp_free p - length t) t (p_data (SetFreeSpacePointer f p))))\<rparr>)))"

text \<open>The arithmetic of a page with room for \<open>t\<close>: nothing wraps.\<close>

lemma room_arith:
  assumes "sp_inv p" and "length t + SLOT_SIZE \<le> sp_room p"
  shows "HEADER_SIZE + sp_count p * SLOT_SIZE + 4 + length t \<le> sp_free p"
    and "sp_free p \<le> PAGE_SIZE"
    and "unat (GetFreeSpacePointer p - of_nat (length t)) = sp_free p - length t"
    and "unat (of_nat (length t) :: u16) = length t"
    and "uint (of_nat (unat (of_nat (length t) :: u16) + SLOT_SIZE) :: u16) = int (length t + SLOT_SIZE)"
    and "unat (GetTupleCount p + 1) = Suc (sp_count p)"
proof -
  show a: "HEADER_SIZE + sp_count p * SLOT_SIZE + 4 + length t \<le> sp_free p"
    and b: "sp_free p \<le> PAGE_SIZE"
    using assms by (auto simp: sp_room_def sp_inv_def layout_defs)
  have small: "length t + SLOT_SIZE < 2 ^ LENGTH(16)" using a b by (simp add: layout_defs)
  show sz: "unat (of_nat (length t) :: u16) = length t"
    using small by (intro unat_of_nat_small) simp
  show "uint (of_nat (unat (of_nat (length t) :: u16) + SLOT_SIZE) :: u16) = int (length t + SLOT_SIZE)"
    unfolding sz uint_nat unat_of_nat_small [OF small] ..
  have "of_nat (length t) \<le> GetFreeSpacePointer p"
    using a sz by (simp add: word_le_nat_alt sp_free_def)
  then show "unat (GetFreeSpacePointer p - of_nat (length t)) = sp_free p - length t"
    using sz by (simp add: unat_sub sp_free_def)
  have "unat (GetTupleCount p) + 1 < 2 ^ LENGTH(16)"
    using sp_inv_count_bound [OF assms(1)] by (simp add: sp_count_def)
  then show "unat (GetTupleCount p + 1) = Suc (sp_count p)"
    by (simp add: sp_count_def unat_word_ariths)
qed

lemma InsertTuple_ok:
  assumes inv: "sp_inv p" and room: "length t + SLOT_SIZE \<le> sp_room p"
  shows "InsertTuple t p = Inr (Some \<lparr>rid_page_id = p_page_id p,
           rid_slot_num = of_nat (sp_count p)\<rparr>, inserted t p)"
proof -
  note A = room_arith [OF assms]
  define f where "f = GetFreeSpacePointer p - of_nat (length t)"
  have so: "unat (slot_offset (sp_count p)) = HEADER_SIZE + sp_count p * SLOT_SIZE"
    using sp_inv_count_bound [OF inv] by (rule slot_offset_unat)
  have len1: "length (p_data (SetFreeSpacePointer f p)) = PAGE_SIZE"
    using free_ptr.wf_wr [of p f] inv by (simp add: page_wf_def sp_inv_def)
  have small: "length t \<le> 65535" using A(1,2) by (simp add: layout_defs)
  have guard: "\<not> uint (GetFreeSpacePointer p) - uint (slot_offset (sp_count p)) <
      uint (of_nat (unat (of_nat (length t) :: u16) + SLOT_SIZE) :: u16)"
    unfolding A(5) unfolding uint_nat so sp_free_def [symmetric]
    using A(1) by (simp add: layout_defs)
  have cnt: "ucast (GetTupleCount p) = (of_nat (sp_count p) :: u32)"
    by (simp add: sp_count_def)
  show ?thesis
    using small guard A(1,2,3,4) len1 cnt
    by (simp add: InsertTuple_def inserted_def Let_def so memcpy_to_ok f_def [symmetric]
        sp_count_def [symmetric] SetFreeSpacePointer_def del: of_nat_add)
qed

lemma wf_inserted:
  assumes "sp_inv p" and "length t + SLOT_SIZE \<le> sp_room p"
  shows "page_wf (inserted t p)"
  using assms room_arith [OF assms] free_ptr.wf_wr [of p]
  by (simp add: inserted_def Let_def page_wf_def sp_inv_def layout_defs SetTupleCount_def)

text \<open>Bytes outside the header words, the new slot and the new tuple are untouched.\<close>

lemma inserted_get:
  assumes "sp_inv p" and "length t + SLOT_SIZE \<le> sp_room p"
    and "HEADER_SIZE \<le> off" and "off + n \<le> PAGE_SIZE"
    and "off + n \<le> HEADER_SIZE + sp_count p * SLOT_SIZE \<or> sp_free p \<le> off"
  shows "mem_get off n (p_data (inserted t p)) = mem_get off n (p_data p)"
  using assms room_arith [OF assms(1,2)] free_ptr.wf_wr [of p]
    free_ptr.get_wr_outside [of p off n] tuple_count.get_wr_outside
  by (auto simp: inserted_def Let_def page_wf_def sp_inv_def layout_defs SetTupleCount_def
      mem_get_put_disjoint)

lemma inserted_new:
  assumes "sp_inv p" and "length t + SLOT_SIZE \<le> sp_room p"
  shows "GetTupleCount (inserted t p) = GetTupleCount p + 1"
    and "GetFreeSpacePointer (inserted t p) = GetFreeSpacePointer p - of_nat (length t)"
    and "GetLSN (inserted t p) = GetLSN p"
    and "tup_off (sp_count p) (inserted t p) = GetFreeSpacePointer p - of_nat (length t)"
    and "tup_size (sp_count p) (inserted t p) = of_nat (length t)"
    and "mem_get (sp_free p - length t) (length t) (p_data (inserted t p)) = t"
  using assms room_arith [OF assms(1,2)] free_ptr.wf_wr [of p] free_ptr.get_wr_outside
  by (auto simp: inserted_def Let_def page_wf_def sp_inv_def layout_defs
      SetTupleCount_def SetFreeSpacePointer_def GetTupleCount_def GetFreeSpacePointer_def GetLSN_def
      tup_off_def tup_size_def mem_get_put_disjoint mem_get_put_same le_word_le_bytes)

lemma inserted_old:
  assumes "sp_inv p" and "length t + SLOT_SIZE \<le> sp_room p" and "i < sp_count p"
  shows "tup_off i (inserted t p) = tup_off i p"
    and "tup_size i (inserted t p) = tup_size i p"
    and "mem_get (unat (tup_off i p)) (unat (tup_size i p)) (p_data (inserted t p)) =
         mem_get (unat (tup_off i p)) (unat (tup_size i p)) (p_data p)"
  unfolding tup_off_def tup_size_def
  using assms room_arith [OF assms(1,2)] sp_inv_lengths [OF assms(1,3)]
  by (simp_all add: inserted_get layout_defs tup_off_def tup_size_def)

lemma inserted_meta:
  "p_page_id (inserted t p) = p_page_id p" "p_pin_count (inserted t p) = p_pin_count p"
  "p_latch (inserted t p) = p_latch p" "p_is_dirty (inserted t p)"
  by (simp_all add: inserted_def Let_def SetTupleCount_def)

lemma inserted_view:
  assumes inv: "sp_inv p" and room: "length t + SLOT_SIZE \<le> sp_room p"
  shows "sp_inv (inserted t p)" "sp_tuples (inserted t p) = sp_tuples p @ [stored t]"
    "sp_room (inserted t p) = sp_room p - (length t + SLOT_SIZE)"
proof -
  note A = room_arith [OF assms] and N = inserted_new [OF assms] and O = inserted_old [OF assms]
  have c: "sp_count (inserted t p) = Suc (sp_count p)"
    using A(6) N(1) by (simp add: sp_count_def)
  have f: "sp_free (inserted t p) = sp_free p - length t"
    using A(3) N(2) by (simp add: sp_free_def)
  show "sp_inv (inserted t p)"
    unfolding sp_inv_def c f less_Suc_eq
    using A N O inv wf_inserted [OF assms]
    by (auto simp: sp_inv_def layout_defs)
  have "sp_tuple (inserted t p) (sp_count p) = stored t"
    using A N by (auto simp: sp_tuple_def stored_def unat_eq_0)
  moreover have "map (sp_tuple (inserted t p)) [0..<sp_count p] = sp_tuples p"
    using O by (simp add: sp_tuples_def sp_tuple_def)
  ultimately show "sp_tuples (inserted t p) = sp_tuples p @ [stored t]"
    by (simp add: sp_tuples_def c)
  show "sp_room (inserted t p) = sp_room p - (length t + SLOT_SIZE)"
    using A by (simp add: sp_room_def c f layout_defs)
qed

lemma InsertTuple_full:
  assumes inv: "sp_inv p" and sz: "length t + SLOT_SIZE \<le> 65535"
    and full: "sp_room p < length t + SLOT_SIZE"
  shows "InsertTuple t p = Inr (None, p)"
proof -
  have "unat (of_nat (length t) :: u16) = length t"
    using sz by (intro unat_of_nat_small) simp
  moreover have "unat (of_nat (length t + SLOT_SIZE) :: u16) = length t + SLOT_SIZE"
    using sz by (intro unat_of_nat_small) simp
  moreover have "unat (slot_offset (sp_count p)) = HEADER_SIZE + sp_count p * SLOT_SIZE"
    using sp_inv_count_bound [OF inv] by (rule slot_offset_unat)
  ultimately have "uint (GetFreeSpacePointer p) - uint (slot_offset (sp_count p)) <
      uint (of_nat (unat (of_nat (length t) :: u16) + SLOT_SIZE) :: u16)"
    unfolding uint_nat sp_free_def [symmetric] using full inv
    by (simp add: sp_room_def sp_inv_def del: of_nat_add)
  then show ?thesis by (simp add: InsertTuple_def Let_def sp_count_def [symmetric] del: of_nat_add)
qed

lemma InsertTuple_too_long: "65535 < length t \<Longrightarrow> InsertTuple t p = Inr (None, p)"
  by (simp add: InsertTuple_def)

text \<open>\<open>tuple_size + SLOT_SIZE\<close> is cast to sixteen bits before it is compared with the space that is
  left: from 65532 bytes on the sum wraps to almost nothing.\<close>

lemma InsertTuple_wraps:
  assumes inv: "sp_inv p" and sz: "65532 \<le> length t" "length t \<le> 65535"
    and room: "length t - 65532 \<le> sp_room p"
  shows "InsertTuple t p = Inl Undefined"
proof -
  have u: "unat (of_nat (length t) :: u16) = length t"
    using sz by (intro unat_of_nat_small) simp
  have "(length t + SLOT_SIZE) mod 65536 = length t - 65532"
    using sz unfolding SLOT_SIZE_def by (subst mod_if) auto
  then have r: "unat (of_nat (length t + SLOT_SIZE) :: u16) = length t - 65532"
    unfolding unat_of_nat by simp
  have so: "unat (slot_offset (sp_count p)) = HEADER_SIZE + sp_count p * SLOT_SIZE"
    using sp_inv_count_bound [OF inv] by (rule slot_offset_unat)
  have guard: "\<not> uint (GetFreeSpacePointer p) - uint (slot_offset (sp_count p)) <
      uint (of_nat (unat (of_nat (length t) :: u16) + SLOT_SIZE) :: u16)"
    unfolding uint_nat sp_free_def [symmetric] u r so using room inv
    by (simp add: sp_room_def sp_inv_def layout_defs) arith
  have "unat (GetFreeSpacePointer p - of_nat (length t)) = sp_free p + 65536 - length t"
    unfolding unat_sub_if' u sp_free_def [symmetric] using inv sz by (simp add: sp_inv_def layout_defs)
  then have "unat (GetFreeSpacePointer p - of_nat (length t)) + length t > PAGE_SIZE"
    using sz by (simp add: layout_defs)
  moreover have "length (p_data (SetFreeSpacePointer v p)) = PAGE_SIZE" for v
    using free_ptr.wf_wr [of p v] inv by (simp add: page_wf_def sp_inv_def)
  ultimately show ?thesis
    using guard sz
    by (simp add: InsertTuple_def Let_def memcpy_to_def sp_count_def [symmetric] del: of_nat_add)
qed

section \<open>Deletion, initialisation and the log sequence number\<close>

definition deleted :: "nat \<Rightarrow> page \<Rightarrow> page" where
  "deleted i p = SetDirty True (p\<lparr>p_data :=
     mem_put (HEADER_SIZE + i * SLOT_SIZE + 2) (le_bytes 2 (0 :: u16)) (p_data p)\<rparr>)"

lemma MarkDelete_ok:
  assumes "sp_inv p" and "unat (rid_slot_num r) < sp_count p"
  shows "MarkDelete r p = Inr (True, deleted (unat (rid_slot_num r)) p)"
proof -
  have so: "unat (slot_offset (unat (rid_slot_num r))) = HEADER_SIZE + unat (rid_slot_num r) * SLOT_SIZE"
    using assms(2) sp_inv_count_bound [OF assms(1)] by (intro slot_offset_unat) simp
  show ?thesis
    using assms(2) sp_inv_lengths [OF assms]
    by (simp add: MarkDelete_def so deleted_def memcpy_to_ok sp_count_def [symmetric])
qed

lemma MarkDelete_none:
  "\<not> unat (rid_slot_num r) < sp_count p \<Longrightarrow> MarkDelete r p = Inr (False, p)"
  by (simp add: MarkDelete_def sp_count_def)

lemma deleted_fields:
  assumes "sp_inv p" and "k < sp_count p"
  shows "GetTupleCount (deleted k p) = GetTupleCount p"
    "GetFreeSpacePointer (deleted k p) = GetFreeSpacePointer p" "GetLSN (deleted k p) = GetLSN p"
    "page_wf (deleted k p)"
  using sp_inv_lengths [OF assms]
  by (simp_all add: deleted_def GetTupleCount_def GetFreeSpacePointer_def GetLSN_def page_wf_def
      layout_defs mem_get_put_disjoint)

lemma deleted_slots:
  assumes "sp_inv p" and "k < sp_count p" and "i < sp_count p"
  shows "tup_off i (deleted k p) = tup_off i p"
    "tup_size i (deleted k p) = (if i = k then 0 else tup_size i p)"
    "mem_get (unat (tup_off i p)) (unat (tup_size i p)) (p_data (deleted k p)) =
       mem_get (unat (tup_off i p)) (unat (tup_size i p)) (p_data p)"
proof -
  note L = sp_inv_lengths [OF assms(1,2)] sp_inv_lengths [OF assms(1,3)]
  show "tup_off i (deleted k p) = tup_off i p"
    using L by (cases i k rule: linorder_cases)
      (simp_all add: deleted_def tup_off_def layout_defs mem_get_put_disjoint)
  show "tup_size i (deleted k p) = (if i = k then 0 else tup_size i p)"
    using L by (cases i k rule: linorder_cases)
      (simp_all add: deleted_def tup_size_def layout_defs mem_get_put_disjoint mem_get_put_same
        le_word_le_bytes)
  show "mem_get (unat (tup_off i p)) (unat (tup_size i p)) (p_data (deleted k p)) =
       mem_get (unat (tup_off i p)) (unat (tup_size i p)) (p_data p)"
    using L by (simp add: deleted_def layout_defs mem_get_put_disjoint)
qed

lemma deleted_view:
  assumes "sp_inv p" and "k < sp_count p"
  shows "sp_inv (deleted k p)" "sp_tuples (deleted k p) = (sp_tuples p)[k := None]"
    "sp_room (deleted k p) = sp_room p"
proof -
  note F = deleted_fields [OF assms] and S = deleted_slots [OF assms]
  have c: "sp_count (deleted k p) = sp_count p" "sp_free (deleted k p) = sp_free p"
    using F by (simp_all add: sp_count_def sp_free_def)
  have below: "unat (tup_off k p) \<le> unat (tup_off i p)" if "i < k" for i
  proof -
    have "unat (tup_off k p) + unat (tup_size k p) \<le> unat (tup_off i p)"
      using assms that by (simp add: sp_inv_def)
    then show ?thesis by simp
  qed
  show "sp_inv (deleted k p)"
    using assms F(4) S below unfolding sp_inv_def c by (auto dest: add_leD1)
  show "sp_tuples (deleted k p) = (sp_tuples p)[k := None]"
    using S by (intro nth_equalityI) (auto simp: sp_tuples_def c sp_tuple_def nth_list_update)
  show "sp_room (deleted k p) = sp_room p" by (simp add: sp_room_def c)
qed

lemma SP_Init_view:
  "sp_inv (SP_Init p)" "sp_tuples (SP_Init p) = []" "GetLSN (SP_Init p) = 0"
  "sp_room (SP_Init p) = 8180"
proof -
  have c: "sp_count (SP_Init p) = 0" "sp_free (SP_Init p) = PAGE_SIZE"
    by (simp_all add: SP_Init_def sp_count_def sp_free_def header_rd_wr header_wf PAGE_SIZE_def)
  show "sp_inv (SP_Init p)"
    unfolding sp_inv_def c by (simp add: SP_Init_def header_wf layout_defs)
  show "sp_tuples (SP_Init p) = []" by (simp add: sp_tuples_def c)
  show "GetLSN (SP_Init p) = 0" by (simp add: SP_Init_def header_rd_wr header_wf)
  show "sp_room (SP_Init p) = 8180" by (simp add: sp_room_def c layout_defs)
qed

lemma SP_Init_meta:
  "p_page_id (SP_Init p) = p_page_id p" "p_pin_count (SP_Init p) = p_pin_count p"
  "p_is_dirty (SP_Init p) = p_is_dirty p" "p_latch (SP_Init p) = p_latch p"
  by (simp_all add: SP_Init_def header_meta ResetMemory_def)

lemma SetLSN_view:
  assumes "sp_inv p"
  shows "sp_inv (SetLSN l p)" "sp_tuples (SetLSN l p) = sp_tuples p" "GetLSN (SetLSN l p) = l"
    "sp_room (SetLSN l p) = sp_room p"
proof -
  have wf: "page_wf p" using assms by (simp add: sp_inv_def)
  have c: "sp_count (SetLSN l p) = sp_count p" "sp_free (SetLSN l p) = sp_free p"
    using wf by (simp_all add: sp_count_def sp_free_def header_rd_wr)
  have s: "tup_off i (SetLSN l p) = tup_off i p" "tup_size i (SetLSN l p) = tup_size i p"
    "mem_get (unat (tup_off i p)) (unat (tup_size i p)) (p_data (SetLSN l p)) =
     mem_get (unat (tup_off i p)) (unat (tup_size i p)) (p_data p)" if "i < sp_count p" for i
    using sp_inv_lengths [OF assms that] wf
    by (simp_all add: tup_off_def tup_size_def lsn.get_wr_outside layout_defs)
  show "sp_inv (SetLSN l p)"
    using assms lsn.wf_wr [OF wf] s unfolding sp_inv_def c by auto
  show "sp_tuples (SetLSN l p) = sp_tuples p"
    using s by (simp add: sp_tuples_def c sp_tuple_def)
  show "GetLSN (SetLSN l p) = l" using wf by (rule lsn.rd_wr)
  show "sp_room (SetLSN l p) = sp_room p" by (simp add: sp_room_def c)
qed

section \<open>The contract of a tuple store\<close>

text \<open>What the executors rely on, stated over an abstract list of slots and the bytes left.\<close>

locale tuple_store =
  fixes ins :: "bytes \<Rightarrow> 's \<Rightarrow> error + rid option \<times> 's"
    and gt :: "rid \<Rightarrow> 's \<Rightarrow> error + bytes option"
    and del :: "rid \<Rightarrow> 's \<Rightarrow> error + bool \<times> 's"
    and view :: "'s \<Rightarrow> bytes option list"
    and room :: "'s \<Rightarrow> nat"
    and pid :: "'s \<Rightarrow> pageid"
    and inv :: "'s \<Rightarrow> bool"
  assumes view_small: "inv s \<Longrightarrow> length (view s) < 2 ^ 16"
    and gt_view: "inv s \<Longrightarrow> gt r s = Inr (if unat (rid_slot_num r) < length (view s)
                    then view s ! unat (rid_slot_num r) else None)"
    and ins_full: "inv s \<Longrightarrow> length t + SLOT_SIZE \<le> 65535 \<Longrightarrow> room s < length t + SLOT_SIZE \<Longrightarrow>
                    ins t s = Inr (None, s)"
    and ins_ok: "inv s \<Longrightarrow> length t + SLOT_SIZE \<le> room s \<Longrightarrow>
                  \<exists>s'. ins t s = Inr (Some \<lparr>rid_page_id = pid s,
                         rid_slot_num = of_nat (length (view s))\<rparr>, s')
                     \<and> inv s' \<and> view s' = view s @ [stored t]
                     \<and> room s' = room s - (length t + SLOT_SIZE) \<and> pid s' = pid s"
    and del_ok: "inv s \<Longrightarrow> unat (rid_slot_num r) < length (view s) \<Longrightarrow>
                  \<exists>s'. del r s = Inr (True, s') \<and> inv s'
                     \<and> view s' = (view s)[unat (rid_slot_num r) := None]
                     \<and> room s' = room s \<and> pid s' = pid s"
    and del_none: "\<not> unat (rid_slot_num r) < length (view s) \<Longrightarrow> inv s \<Longrightarrow>
                  del r s = Inr (False, s)"
begin

lemma new_slot: "inv s \<Longrightarrow> unat (of_nat (length (view s)) :: u32) = length (view s)"
  using view_small [of s] by (intro unat_of_nat_small) simp

text \<open>A stored tuple is read back under its record identifier; the tuples stored before it are read
  as before.\<close>

lemma ins_gt:
  assumes "inv s" and "length t + SLOT_SIZE \<le> room s"
  shows "\<exists>r s'. ins t s = Inr (Some r, s') \<and> inv s' \<and> gt r s' = Inr (stored t)
           \<and> (\<forall>q. unat (rid_slot_num q) \<noteq> unat (rid_slot_num r) \<longrightarrow> gt q s' = gt q s)"
proof -
  obtain s' where s': "ins t s = Inr (Some \<lparr>rid_page_id = pid s,
        rid_slot_num = of_nat (length (view s))\<rparr>, s')" "inv s'" "view s' = view s @ [stored t]"
    using ins_ok [OF assms] by blast
  show ?thesis
    using s' new_slot [OF assms(1)]
    by (auto simp: gt_view [OF assms(1)] gt_view [OF s'(2)] nth_append)
qed

lemma del_gt:
  assumes "inv s" and "unat (rid_slot_num r) < length (view s)"
  shows "\<exists>s'. del r s = Inr (True, s') \<and> inv s' \<and> gt r s' = Inr None
           \<and> (\<forall>q. unat (rid_slot_num q) \<noteq> unat (rid_slot_num r) \<longrightarrow> gt q s' = gt q s)"
proof -
  obtain s' where s': "del r s = Inr (True, s')" "inv s'"
      "view s' = (view s)[unat (rid_slot_num r) := None]"
    using del_ok [OF assms] by blast
  show ?thesis
    using s' assms(2) by (auto simp: gt_view [OF assms(1)] gt_view [OF s'(2)])
qed

end

lemma length_sp_tuples [simp]: "length (sp_tuples p) = sp_count p"
  by (simp add: sp_tuples_def)

interpretation slotted: tuple_store InsertTuple GetTuple MarkDelete sp_tuples sp_room p_page_id sp_inv
proof
  show "length (sp_tuples p) < 2 ^ 16" if "sp_inv p" for p
    using sp_inv_count_bound [OF that] by simp
  show "\<exists>s'. InsertTuple t p = Inr (Some \<lparr>rid_page_id = p_page_id p,
          rid_slot_num = of_nat (length (sp_tuples p))\<rparr>, s') \<and> sp_inv s'
        \<and> sp_tuples s' = sp_tuples p @ [stored t]
        \<and> sp_room s' = sp_room p - (length t + SLOT_SIZE) \<and> p_page_id s' = p_page_id p"
    if "sp_inv p" "length t + SLOT_SIZE \<le> sp_room p" for p t
    using InsertTuple_ok [OF that] inserted_view [OF that] inserted_meta(1) by simp
  show "\<exists>s'. MarkDelete r p = Inr (True, s') \<and> sp_inv s'
        \<and> sp_tuples s' = (sp_tuples p)[unat (rid_slot_num r) := None]
        \<and> sp_room s' = sp_room p \<and> p_page_id s' = p_page_id p"
    if "sp_inv p" "unat (rid_slot_num r) < length (sp_tuples p)" for p r
    using that MarkDelete_ok [of p r] deleted_view [of p] by (simp add: deleted_def)
qed (simp_all add: GetTuple_view InsertTuple_full MarkDelete_none)

section \<open>Sequences of operations against an abstract page\<close>

datatype sp_op = Op_Insert bytes | Op_Get rid | Op_Delete rid

datatype sp_out = Out_Rid "rid option" | Out_Tuple "bytes option" | Out_Bool bool

fun sp_step :: "sp_op \<Rightarrow> page \<Rightarrow> error + sp_out \<times> page" where
  "sp_step (Op_Insert t) p = (case InsertTuple t p of Inl e \<Rightarrow> Inl e | Inr (r, p') \<Rightarrow> Inr (Out_Rid r, p'))"
| "sp_step (Op_Get r) p = (case GetTuple r p of Inl e \<Rightarrow> Inl e | Inr t \<Rightarrow> Inr (Out_Tuple t, p))"
| "sp_step (Op_Delete r) p = (case MarkDelete r p of Inl e \<Rightarrow> Inl e | Inr (b, p') \<Rightarrow> Inr (Out_Bool b, p'))"

fun sp_run :: "sp_op list \<Rightarrow> page \<Rightarrow> error + sp_out list \<times> page" where
  "sp_run [] p = Inr ([], p)"
| "sp_run (x # xs) p = (case sp_step x p of
     Inl e \<Rightarrow> Inl e
   | Inr (o1, p1) \<Rightarrow> (case sp_run xs p1 of
       Inl e \<Rightarrow> Inl e
     | Inr (os, p2) \<Rightarrow> Inr (o1 # os, p2)))"

text \<open>The specification: a list of optional tuples and a number of free bytes.\<close>

record slots =
  sl_view :: "bytes option list"
  sl_room :: nat
  sl_page_id :: pageid

fun spec_step :: "sp_op \<Rightarrow> slots \<Rightarrow> sp_out \<times> slots" where
  "spec_step (Op_Insert t) a =
     (if length t + SLOT_SIZE \<le> sl_room a
      then (Out_Rid (Some \<lparr>rid_page_id = sl_page_id a, rid_slot_num = of_nat (length (sl_view a))\<rparr>),
            a\<lparr>sl_view := sl_view a @ [stored t], sl_room := sl_room a - (length t + SLOT_SIZE)\<rparr>)
      else (Out_Rid None, a))"
| "spec_step (Op_Get r) a =
     (Out_Tuple (if unat (rid_slot_num r) < length (sl_view a)
        then sl_view a ! unat (rid_slot_num r) else None), a)"
| "spec_step (Op_Delete r) a =
     (if unat (rid_slot_num r) < length (sl_view a)
      then (Out_Bool True, a\<lparr>sl_view := (sl_view a)[unat (rid_slot_num r) := None]\<rparr>)
      else (Out_Bool False, a))"

fun spec_run :: "sp_op list \<Rightarrow> slots \<Rightarrow> sp_out list \<times> slots" where
  "spec_run [] a = ([], a)"
| "spec_run (x # xs) a =
     (let (o1, a1) = spec_step x a; (os, a2) = spec_run xs a1 in (o1 # os, a2))"

definition sp_abs :: "page \<Rightarrow> slots" where
  "sp_abs p = \<lparr>sl_view = sp_tuples p, sl_room = sp_room p, sl_page_id = p_page_id p\<rparr>"

text \<open>Tuples of up to 65531 bytes: longer ones reach the wrap-around of the space check.\<close>

fun op_ok :: "sp_op \<Rightarrow> bool" where
  "op_ok (Op_Insert t) = (length t + SLOT_SIZE \<le> 65535)"
| "op_ok _ = True"

lemma sp_step_sim:
  assumes "sp_inv p" and "op_ok x"
  shows "\<exists>p'. sp_step x p = Inr (fst (spec_step x (sp_abs p)), p') \<and> sp_inv p'
           \<and> sp_abs p' = snd (spec_step x (sp_abs p))"
proof (cases x)
  case (Op_Insert t)
  show ?thesis
  proof (cases "length t + SLOT_SIZE \<le> sp_room p")
    case True
    then show ?thesis using slotted.ins_ok [OF assms(1) True] Op_Insert by (auto simp: sp_abs_def)
  next
    case False
    then show ?thesis using slotted.ins_full [OF assms(1)] assms Op_Insert by (simp add: sp_abs_def)
  qed
next
  case (Op_Get r)
  then show ?thesis using assms by (simp add: slotted.gt_view sp_abs_def)
next
  case (Op_Delete r)
  then show ?thesis
    using assms slotted.del_ok [of p r] slotted.del_none [of r p]
    by (cases "unat (rid_slot_num r) < length (sp_tuples p)") (auto simp: sp_abs_def)
qed

section \<open>Properties\<close>

text \<open>(C4) Any sequence of insertions (of tuples of at most 65531 bytes, \<open>op_ok\<close>; longer ones make the 16-bit space check
  wrap), lookups and deletions on a well-formed page runs without undefined behaviour and returns exactly what the abstract page (a list of optional tuples and a
  count of free bytes) returns, and leaves a well-formed page with the abstract page's content.\<close>

theorem sp_run_refines:
  assumes "sp_inv p" and "list_all op_ok xs"
  shows "\<exists>p'. sp_run xs p = Inr (fst (spec_run xs (sp_abs p)), p') \<and> sp_inv p'
           \<and> sp_abs p' = snd (spec_run xs (sp_abs p))"
  using assms
proof (induction xs arbitrary: p)
  case Nil
  then show ?case by simp
next
  case (Cons x xs)
  then obtain p1 where p1: "sp_step x p = Inr (fst (spec_step x (sp_abs p)), p1)" "sp_inv p1"
      "sp_abs p1 = snd (spec_step x (sp_abs p))"
    using sp_step_sim [of p x] by auto
  from Cons.IH [OF p1(2)] Cons.prems show ?case
    by (auto simp: p1 split: prod.splits)
qed

theorem sp_run_refines_witness:
  "\<exists>p'. sp_run [Op_Insert [1, 2], Op_Get \<lparr>rid_page_id = 0, rid_slot_num = 0\<rparr>,
        Op_Delete \<lparr>rid_page_id = 0, rid_slot_num = 0\<rparr>, Op_Get \<lparr>rid_page_id = 0, rid_slot_num = 0\<rparr>]
        (SP_Init Page_ctor) =
      Inr ([Out_Rid (Some \<lparr>rid_page_id = INVALID_PAGE_ID, rid_slot_num = 0\<rparr>),
            Out_Tuple (Some [1, 2]), Out_Bool True, Out_Tuple None], p')
      \<and> sp_inv p' \<and> sl_view (sp_abs p') = [None]"
  using sp_run_refines [of "SP_Init Page_ctor"
      "[Op_Insert [1, 2], Op_Get \<lparr>rid_page_id = 0, rid_slot_num = 0\<rparr>,
        Op_Delete \<lparr>rid_page_id = 0, rid_slot_num = 0\<rparr>, Op_Get \<lparr>rid_page_id = 0, rid_slot_num = 0\<rparr>]"]
  by (auto simp: SP_Init_view SP_Init_meta sp_abs_def SLOT_SIZE_def stored_def Page_ctor_def
      ResetMemory_def simp del: sp_run.simps)

text \<open>(C30) Round trip: on a well-formed page with room for a non-empty tuple, \<open>InsertTuple\<close>
  succeeds, \<open>GetTuple\<close> under the returned identifier gives the tuple back, every other identifier
  reads what it read before, the page is marked dirty and its LSN is untouched.\<close>

theorem insert_get_roundtrip:
  assumes "sp_inv p" and "length t + SLOT_SIZE \<le> sp_room p" and "t \<noteq> []"
  shows "\<exists>r p'. InsertTuple t p = Inr (Some r, p') \<and> sp_inv p' \<and> GetTuple r p' = Inr (Some t)
           \<and> (\<forall>q. unat (rid_slot_num q) \<noteq> unat (rid_slot_num r) \<longrightarrow> GetTuple q p' = GetTuple q p)
           \<and> p_is_dirty p' \<and> GetLSN p' = GetLSN p"
  using slotted.ins_gt [OF assms(1,2)] InsertTuple_ok [OF assms(1,2)] inserted_meta(4) [of t p]
    inserted_new(3) [OF assms(1,2)] assms(3)
  by (auto simp: stored_def)

theorem insert_get_roundtrip_witness:
  "\<exists>r p'. InsertTuple [7, 8, 9] (SP_Init Page_ctor) = Inr (Some r, p')
     \<and> GetTuple r p' = Inr (Some [7, 8, 9])"
  using insert_get_roundtrip [of "SP_Init Page_ctor" "[7, 8, 9]"]
  by (auto simp: SP_Init_view SLOT_SIZE_def)

text \<open>\<open>MarkDelete\<close> of an existing slot succeeds, the slot then reads as deleted, every other
  slot reads as before, and neither the free space nor the LSN changes; an identifier past the last
  slot is refused and the page is left as it is.\<close>

theorem delete_get:
  assumes "sp_inv p"
  shows "if unat (rid_slot_num r) < sp_count p
         then \<exists>p'. MarkDelete r p = Inr (True, p') \<and> sp_inv p' \<and> GetTuple r p' = Inr None
                \<and> (\<forall>q. unat (rid_slot_num q) \<noteq> unat (rid_slot_num r) \<longrightarrow> GetTuple q p' = GetTuple q p)
                \<and> sp_room p' = sp_room p \<and> GetLSN p' = GetLSN p \<and> p_is_dirty p'
         else MarkDelete r p = Inr (False, p)"
proof (cases "unat (rid_slot_num r) < sp_count p")
  case True
  then show ?thesis
    using slotted.del_gt [OF assms, of r] MarkDelete_ok [OF assms True]
      deleted_view(3) [OF assms True] deleted_fields(3) [OF assms True]
    by (auto simp: deleted_def)
next
  case False
  then show ?thesis by (simp add: MarkDelete_none)
qed

theorem delete_get_witness:
  "\<exists>p'. MarkDelete \<lparr>rid_page_id = 0, rid_slot_num = 0\<rparr> (inserted [5] (SP_Init Page_ctor)) = Inr (True, p')
     \<and> GetTuple \<lparr>rid_page_id = 0, rid_slot_num = 0\<rparr> p' = Inr None"
proof -
  note v = inserted_view [of "SP_Init Page_ctor" "[5]", simplified SP_Init_view, simplified SLOT_SIZE_def]
  have "sp_count (inserted [5] (SP_Init Page_ctor)) = 1"
    using v(2) length_sp_tuples [of "inserted [5] (SP_Init Page_ctor)"] by simp
  then show ?thesis
    using delete_get [of "inserted [5] (SP_Init Page_ctor)" "\<lparr>rid_page_id = 0, rid_slot_num = 0\<rparr>"] v(1)
    by auto
qed

text \<open>The free-space check compares a sum cast to sixteen bits: a tuple of 65532 to 65535 bytes
  passes it on any well-formed page that has room for the zero to three bytes the wrapped sum asks for,
  and the copy then runs past the end of the page.\<close>

theorem insert_size_wraps:
  assumes "sp_inv p" and "length t \<in> {65532..65535}" and "length t - 65532 \<le> sp_room p"
  shows "InsertTuple t p = Inl Undefined"
  using InsertTuple_wraps [OF assms(1)] assms(2,3) by simp

theorem insert_size_wraps_witness:
  "InsertTuple (replicate 65532 0) (SP_Init Page_ctor) = Inl Undefined"
  using insert_size_wraps [of "SP_Init Page_ctor" "replicate 65532 0"] by (simp add: SP_Init_view)

text \<open>Initialisation gives a well-formed empty page with 8180 free bytes whatever the page held before, and
  writing the LSN leaves every tuple and the free space as they were.\<close>

lemma init_and_lsn:
  "sp_inv (SP_Init p) \<and> sp_tuples (SP_Init p) = [] \<and> sp_room (SP_Init p) = 8180
   \<and> (sp_inv q \<longrightarrow> sp_inv (SetLSN l q) \<and> GetLSN (SetLSN l q) = l
        \<and> sp_tuples (SetLSN l q) = sp_tuples q \<and> sp_room (SetLSN l q) = sp_room q)"
  by (simp add: SP_Init_view SetLSN_view)

end
