(* ===== verification/Epoch_Manager.thy ===== *)
theory Epoch_Manager
  imports Sting_Prelude "HOL-Library.Multiset"
begin

text \<open>
  The epoch manager of \<^verbatim>\<open>src/transaction/epoch_manager.h\<close>: a global epoch number and, for each of
  1024 slots, the number of transactions that entered an epoch falling into the slot.  Every method is
  one atomic access to the state (or a read of the epoch followed by one), so it is a function on it.

  The locale \<open>epoch_tracker\<close> is what the transaction manager relies on: entering an epoch adds one
  reader of it, leaving it takes one away.  It is interpreted on the operations of this theory.
\<close>

section \<open>State and operations\<close>

definition MAX_EPOCHS :: nat where
  "MAX_EPOCHS = 1024"

record epoch_manager =
  em_global_epoch :: u64
  em_active_epochs :: "i32 list"

definition EpochManager_ctor :: epoch_manager where
  "EpochManager_ctor = \<lparr>em_global_epoch = 1, em_active_epochs = replicate MAX_EPOCHS 0\<rparr>"

definition epoch_slot :: "u64 \<Rightarrow> nat" where
  "epoch_slot e = unat e mod MAX_EPOCHS"

definition EnterEpoch :: "epoch_manager \<Rightarrow> u64 \<times> epoch_manager" where
  "EnterEpoch em =
     (let current = em_global_epoch em; i = epoch_slot current
      in (current, em\<lparr>em_active_epochs := (em_active_epochs em)[i := em_active_epochs em ! i + 1]\<rparr>))"

definition ExitEpoch :: "u64 \<Rightarrow> epoch_manager \<Rightarrow> epoch_manager" where
  "ExitEpoch epoch em =
     (let i = epoch_slot epoch
      in em\<lparr>em_active_epochs := (em_active_epochs em)[i := em_active_epochs em ! i - 1]\<rparr>)"

definition AdvanceEpoch :: "epoch_manager \<Rightarrow> epoch_manager" where
  "AdvanceEpoch em = em\<lparr>em_global_epoch := em_global_epoch em + 1\<rparr>"

text \<open>The loop \<open>for (e = current; e > 0; --e)\<close>, counting the epoch down as a natural number.\<close>

fun scan_epochs :: "epoch_manager \<Rightarrow> nat \<Rightarrow> u64" where
  "scan_epochs em 0 = em_global_epoch em"
| "scan_epochs em (Suc n) =
     (if 0 < sint (em_active_epochs em ! epoch_slot (of_nat (Suc n))) then of_nat (Suc n) else scan_epochs em n)"

definition GetOldestActiveEpoch :: "epoch_manager \<Rightarrow> u64" where
  "GetOldestActiveEpoch em = scan_epochs em (unat (em_global_epoch em))"

section \<open>The interface\<close>

text \<open>\<open>tracked em M\<close>: the readers are the multiset \<open>M\<close> of the epochs they entered.\<close>

locale epoch_tracker =
  fixes enter :: "'e \<Rightarrow> u64 \<times> 'e" and leave :: "u64 \<Rightarrow> 'e \<Rightarrow> 'e"
    and tracked :: "'e \<Rightarrow> u64 multiset \<Rightarrow> bool"
  assumes enter_tracked: "tracked em M \<Longrightarrow> enter em = (e, em') \<Longrightarrow> tracked em' (add_mset e M)"
    and leave_tracked: "tracked em M \<Longrightarrow> e \<in># M \<Longrightarrow> tracked (leave e em) (M - {#e#})"
begin

lemma enter_leave:
  assumes "tracked em M" and "enter em = (e, em')"
  shows "tracked (leave e em') M"
  using leave_tracked [OF enter_tracked [OF assms], of e] by simp

text \<open>Readers leave in any order.\<close>

lemma leave_all:
  assumes "tracked em (mset es + M)"
  shows "tracked (fold leave es em) M"
  using assms
proof (induction es arbitrary: em)
  case Nil
  then show ?case by simp
next
  case (Cons e es)
  then show ?case using leave_tracked [of em "mset (e # es) + M" e] by simp
qed

end

section \<open>The counters count the readers\<close>

definition slot_readers :: "u64 multiset \<Rightarrow> nat \<Rightarrow> nat" where
  "slot_readers M i = size (filter_mset (\<lambda>e. epoch_slot e = i) M)"

definition epochs_tracked :: "epoch_manager \<Rightarrow> u64 multiset \<Rightarrow> bool" where
  "epochs_tracked em M \<longleftrightarrow> length (em_active_epochs em) = MAX_EPOCHS
     \<and> (\<forall>i < MAX_EPOCHS. em_active_epochs em ! i = of_nat (slot_readers M i))"

lemma epoch_slot_less [simp]: "epoch_slot e < MAX_EPOCHS"
  by (simp add: epoch_slot_def MAX_EPOCHS_def)

lemma slot_readers_simps [simp]:
  "slot_readers {#} i = 0"
  "slot_readers (add_mset e M) i = (if epoch_slot e = i then 1 else 0) + slot_readers M i"
  by (simp_all add: slot_readers_def)

lemma slot_readers_le: "slot_readers M i \<le> size M"
  by (simp add: slot_readers_def size_filter_mset_lesseq)

lemma slot_readers_remove:
  assumes "e \<in># M"
  shows "slot_readers M i = (if epoch_slot e = i then 1 else 0) + slot_readers (M - {#e#}) i"
  using slot_readers_simps(2) [of e "M - {#e#}" i] assms by simp

lemma epochs_tracked_ctor: "epochs_tracked EpochManager_ctor {#}"
  by (simp add: epochs_tracked_def EpochManager_ctor_def)

lemma epochs_tracked_advance: "epochs_tracked em M \<Longrightarrow> epochs_tracked (AdvanceEpoch em) M"
  by (simp add: epochs_tracked_def AdvanceEpoch_def)

interpretation epochs: epoch_tracker EnterEpoch ExitEpoch epochs_tracked
proof
  fix em M e em'
  show "epochs_tracked em' (add_mset e M)" if "epochs_tracked em M" "EnterEpoch em = (e, em')"
    using that by (auto simp: epochs_tracked_def EnterEpoch_def Let_def nth_list_update)
  show "epochs_tracked (ExitEpoch e em) (M - {#e#})" if "epochs_tracked em M" "e \<in># M"
    using that slot_readers_remove [OF that(2)]
    by (auto simp: epochs_tracked_def ExitEpoch_def Let_def nth_list_update)
qed

text \<open>With fewer than \<open>2 ^ 31\<close> readers a positive counter means that there is a reader.\<close>

lemma counter_positive:
  assumes "epochs_tracked em M" and "size M < 2 ^ 31"
  shows "0 < sint (em_active_epochs em ! epoch_slot e) \<longleftrightarrow> (\<exists>x \<in># M. epoch_slot x = epoch_slot e)"
proof -
  let ?n = "slot_readers M (epoch_slot e)"
  have "?n < 2 ^ 31" using slot_readers_le [of M "epoch_slot e"] assms(2) by simp
  then have "sint (of_nat ?n :: i32) = int ?n"
    by (simp add: signed_of_nat signed_take_bit_int_eq_self)
  moreover have "0 < ?n \<longleftrightarrow> (\<exists>x \<in># M. epoch_slot x = epoch_slot e)"
    by (auto simp: slot_readers_def nonempty_has_size [symmetric] filter_mset_eq_conv multiset_eq_iff)
  ultimately show ?thesis using assms(1) by (simp add: epochs_tracked_def)
qed

section \<open>What the scan finds\<close>

lemma scan_epochs_result:
  assumes "scan_epochs em n = e" and "n < 2 ^ 64"
  shows "e = em_global_epoch em \<and> (\<forall>k. 0 < k \<and> k \<le> n \<longrightarrow> \<not> 0 < sint (em_active_epochs em ! epoch_slot (of_nat k)))
    \<or> 0 < unat e \<and> unat e \<le> n \<and> 0 < sint (em_active_epochs em ! epoch_slot e)
      \<and> (\<forall>k. unat e < k \<and> k \<le> n \<longrightarrow> \<not> 0 < sint (em_active_epochs em ! epoch_slot (of_nat k)))"
  using assms
proof (induction n)
  case 0
  then show ?case by auto
next
  case (Suc n)
  have u: "unat (of_nat (Suc n) :: u64) = Suc n" using Suc.prems(2) by (simp only: unat_of_nat) simp
  show ?case
  proof (cases "0 < sint (em_active_epochs em ! epoch_slot (of_nat (Suc n)))")
    case True
    then show ?thesis using Suc.prems(1) u by auto
  next
    case False
    then have "scan_epochs em n = e" using Suc.prems(1) by simp
    from Suc.IH [OF this] show ?thesis using Suc.prems(2) False by (auto simp: le_Suc_eq)
  qed
qed

lemma epoch_slot_window:
  assumes "epoch_slot x = epoch_slot y" and "unat x \<le> g" "unat y \<le> g" and "g < unat x + MAX_EPOCHS" "g < unat y + MAX_EPOCHS"
  shows "x = y"
proof -
  have "a = b" if "a mod MAX_EPOCHS = b mod MAX_EPOCHS" "a \<le> b" "b < a + MAX_EPOCHS" for a b
    using that by (metis add_diff_cancel_left' le_add_diff_inverse less_diff_conv2 mod_eq_dvd_iff_nat nat_dvd_not_less
        not_gr_zero add.right_neutral add.commute)
  then have "unat x = unat y"
    using assms unfolding epoch_slot_def by (metis nle_le order.strict_trans1 add_le_cancel_right le_trans)
  then show ?thesis by (simp add: word_unat_eq_iff)
qed

text \<open>(C39) Despite its name, \<open>GetOldestActiveEpoch\<close> finds the \<^emph>\<open>newest\<close> epoch that still has a reader, because
  it scans downwards from the current epoch and stops at the first hit: as long as the readers are less than
  \<open>2\<^sup>3\<^sup>1\<close> and within the last 1024 epochs (the counters are indexed modulo 1024), its result is the maximum of their epochs (and the current epoch if there is
  none).\<close>

theorem oldest_active_epoch_is_newest:
  assumes "epochs_tracked em M" and "size M < 2 ^ 31"
    and "\<And>e. e \<in># M \<Longrightarrow> 0 < e \<and> e \<le> em_global_epoch em \<and> unat (em_global_epoch em) < unat e + MAX_EPOCHS"
  shows "GetOldestActiveEpoch em = (if M = {#} then em_global_epoch em else Max (set_mset M))"
proof (cases "M = {#}")
  case True
  have "\<not> 0 < sint (em_active_epochs em ! epoch_slot e)" for e
    using counter_positive [OF assms(1,2)] True by simp
  then have "scan_epochs em n = em_global_epoch em" for n by (induction n) simp_all
  then show ?thesis using True by (simp add: GetOldestActiveEpoch_def)
next
  case False
  define g where "g = unat (em_global_epoch em)"
  define m where "m = Max (set_mset M)"
  have m: "m \<in># M" using False by (simp add: m_def)
  have win: "0 < unat x \<and> unat x \<le> g \<and> g < unat x + MAX_EPOCHS" if "x \<in># M" for x
    using assms(3) [OF that] by (simp add: g_def word_less_nat_alt word_le_nat_alt)
  define e where "e = GetOldestActiveEpoch em"
  have act: "0 < sint (em_active_epochs em ! epoch_slot (of_nat (unat m)))"
    using counter_positive [OF assms(1,2), of m] m by auto
  have scan: "scan_epochs em g = e" "g < 2 ^ 64"
    using unsigned_less [of "em_global_epoch em", where ?'a = nat] by (simp_all add: e_def GetOldestActiveEpoch_def g_def)
  have e: "unat e \<le> g" "0 < sint (em_active_epochs em ! epoch_slot e)" "unat m \<le> unat e"
    using scan_epochs_result [OF scan] act win [OF m] by (auto simp del: of_nat_unat intro: leI)
  then obtain x where x: "x \<in># M" "epoch_slot x = epoch_slot e"
    using counter_positive [OF assms(1,2)] by blast
  have "x = e" using epoch_slot_window [OF x(2), of g] win [OF x(1)] win [OF m] e(1,3) by linarith
  then have "e \<le> m" using x(1) by (simp add: m_def)
  then show ?thesis using e(3) False by (simp add: e_def [symmetric] m_def [symmetric] word_le_nat_alt word_unat_eq_iff)
qed

text \<open>Epoch 1 has a reader, the epoch advances, epoch 2 gets a reader: the answer is 2.\<close>

definition two_readers :: epoch_manager where
  "two_readers = snd (EnterEpoch (AdvanceEpoch (snd (EnterEpoch EpochManager_ctor))))"

theorem oldest_active_epoch_is_newest_witness:
  "epochs_tracked two_readers {#1, 2#} \<and> GetOldestActiveEpoch two_readers = 2"
proof -
  have 1: "EnterEpoch EpochManager_ctor = (1, snd (EnterEpoch EpochManager_ctor))"
    by (simp add: EnterEpoch_def EpochManager_ctor_def)
  have 2: "EnterEpoch (AdvanceEpoch (snd (EnterEpoch EpochManager_ctor))) = (2, two_readers)"
    by (simp add: two_readers_def EnterEpoch_def EpochManager_ctor_def AdvanceEpoch_def Let_def)
  have t: "epochs_tracked two_readers {#1, 2#}"
    using epochs.enter_tracked [OF epochs_tracked_advance [OF epochs.enter_tracked [OF epochs_tracked_ctor 1]] 2]
    by (simp add: add_mset_commute)
  have g: "em_global_epoch two_readers = 2"
    by (simp add: two_readers_def EnterEpoch_def EpochManager_ctor_def AdvanceEpoch_def Let_def)
  have "GetOldestActiveEpoch two_readers = (if {#1, 2 :: u64#} = {#} then em_global_epoch two_readers else Max (set_mset {#1, 2#}))"
    by (rule oldest_active_epoch_is_newest [OF t]) (auto simp: g MAX_EPOCHS_def)
  then show ?thesis using t by simp
qed

end
