(* ===== verification/Log_Manager.thy ===== *)
theory Log_Manager
  imports Slotted_Page
begin

text \<open>
  Write-ahead log records and the log manager, \<^verbatim>\<open>src/transaction/log_record.h\<close> and
  \<^verbatim>\<open>src/transaction/log_manager.h\<close>.  The source does not copy the record into the buffer and does not
  write the flush buffer anywhere (both are comments there), so the buffers keep their bytes and only
  the offsets, the sizes and the sequence number move.  \<open>AppendLogRecord\<close> holds the latch throughout;
  \<open>Flush\<close> releases it before its last assignment, so it is modelled as two steps that another thread
  can come between.  The condition variable has no waiter and is left out.

  The locale \<open>wal\<close> is the contract the transaction manager relies on.
\<close>

section \<open>Log records\<close>

datatype LogRecordType =
    LR_INVALID | LR_INSERT | LR_MARKDELETE | LR_APPLYDELETE | LR_UPDATE | LR_BEGIN | LR_COMMIT | LR_ABORT

record log_record =
  lr_size :: u32
  lr_type :: LogRecordType
  lr_txn_id :: u64
  lr_prev_lsn :: u64
  lr_insert_rid :: rid
  lr_insert_tuple :: bytes

definition HeaderSize :: u32 where
  "HeaderSize = 20"

definition sizeof_RID :: nat where
  "sizeof_RID = 8"

definition RID_default :: rid where
  "RID_default = \<lparr>rid_page_id = INVALID_PAGE_ID, rid_slot_num = 0\<rparr>"

definition LogRecord_default :: log_record where
  "LogRecord_default = \<lparr>lr_size = 0, lr_type = LR_INVALID, lr_txn_id = 0, lr_prev_lsn = 0,
     lr_insert_rid = RID_default, lr_insert_tuple = []\<rparr>"

definition LogRecord_ctor :: "u64 \<Rightarrow> u64 \<Rightarrow> LogRecordType \<Rightarrow> log_record" where
  "LogRecord_ctor txn_id lsn type = LogRecord_default\<lparr>lr_size := HeaderSize, lr_type := type,
     lr_txn_id := txn_id, lr_prev_lsn := lsn\<rparr>"

definition LogRecord_insert_ctor :: "u64 \<Rightarrow> u64 \<Rightarrow> LogRecordType \<Rightarrow> rid \<Rightarrow> bytes \<Rightarrow> log_record" where
  "LogRecord_insert_ctor txn_id lsn type rid tuple =
     \<lparr>lr_size = of_nat (unat HeaderSize + sizeof_RID + length tuple), lr_type = type,
      lr_txn_id = txn_id, lr_prev_lsn = lsn, lr_insert_rid = rid, lr_insert_tuple = tuple\<rparr>"

section \<open>The log manager\<close>

record log_manager =
  lm_log_buffer :: bytes
  lm_flush_buffer :: bytes
  lm_log_buffer_offset :: u64
  lm_flush_size :: u64
  lm_next_lsn :: u64

definition LogManager_ctor :: log_manager where
  "LogManager_ctor = \<lparr>lm_log_buffer = replicate (PAGE_SIZE * 2) 0, lm_flush_buffer = replicate (PAGE_SIZE * 2) 0,
     lm_log_buffer_offset = 0, lm_flush_size = 0, lm_next_lsn = 1\<rparr>"

definition SwapBuffers :: "log_manager \<Rightarrow> log_manager" where
  "SwapBuffers lm = lm\<lparr>lm_log_buffer := lm_flush_buffer lm, lm_flush_buffer := lm_log_buffer lm,
     lm_flush_size := lm_log_buffer_offset lm, lm_log_buffer_offset := 0\<rparr>"

definition AppendLogRecord :: "log_record \<Rightarrow> log_manager \<Rightarrow> u64 \<times> log_manager" where
  "AppendLogRecord r lm =
     (let lm = (if lm_log_buffer_offset lm + ucast (lr_size r) > of_nat (length (lm_log_buffer lm))
                then SwapBuffers lm else lm);
          lm = lm\<lparr>lm_log_buffer_offset := lm_log_buffer_offset lm + ucast (lr_size r)\<rparr>
      in (lm_next_lsn lm, lm\<lparr>lm_next_lsn := lm_next_lsn lm + 1\<rparr>))"

text \<open>The part of \<open>Flush\<close> under the latch, and the assignment after it.\<close>

definition Flush_swap :: "log_manager \<Rightarrow> log_manager" where
  "Flush_swap lm = SwapBuffers lm"

definition Flush_finish :: "log_manager \<Rightarrow> log_manager" where
  "Flush_finish lm = lm\<lparr>lm_flush_size := 0\<rparr>"

definition Flush :: "log_manager \<Rightarrow> log_manager" where
  "Flush lm = Flush_finish (Flush_swap lm)"

section \<open>The interface\<close>

datatype wal_op = Append_op log_record | Flush_op

fun wal_run :: "(log_record \<Rightarrow> 'l \<Rightarrow> u64 \<times> 'l) \<Rightarrow> ('l \<Rightarrow> 'l) \<Rightarrow> wal_op list \<Rightarrow> 'l \<Rightarrow> u64 list \<times> 'l" where
  "wal_run app flush [] l = ([], l)"
| "wal_run app flush (Append_op r # ops) l =
     (let (n, l1) = app r l; (ns, l2) = wal_run app flush ops l1 in (n # ns, l2))"
| "wal_run app flush (Flush_op # ops) l = wal_run app flush ops (flush l)"

fun appends :: "wal_op list \<Rightarrow> nat" where
  "appends [] = 0"
| "appends (Append_op r # ops) = Suc (appends ops)"
| "appends (Flush_op # ops) = appends ops"

lemma appends_le: "appends ops \<le> length ops"
  by (induction ops rule: appends.induct) simp_all

locale wal =
  fixes app :: "log_record \<Rightarrow> 'l \<Rightarrow> u64 \<times> 'l" and flush :: "'l \<Rightarrow> 'l" and next_lsn :: "'l \<Rightarrow> u64"
  assumes append_lsn: "app r l = (n, l') \<Longrightarrow> n = next_lsn l \<and> next_lsn l' = next_lsn l + 1"
    and flush_lsn: "next_lsn (flush l) = next_lsn l"
begin

lemma wal_run_lsns:
  "wal_run app flush ops l = (ns, l') \<Longrightarrow>
   ns = map (\<lambda>i. next_lsn l + of_nat i) [0..<appends ops] \<and> next_lsn l' = next_lsn l + of_nat (appends ops)"
proof (induction ops arbitrary: l ns rule: appends.induct)
  case 1
  then show ?case by simp
next
  case (2 r ops)
  obtain n l1 where a: "app r l = (n, l1)" by (cases "app r l")
  obtain ms where m: "wal_run app flush ops l1 = (ms, l')" "ns = n # ms"
    using "2.prems" a by (auto split: prod.splits)
  have "map (\<lambda>i. next_lsn l + of_nat i) [0..<Suc k] = next_lsn l # map (\<lambda>i. next_lsn l + 1 + of_nat i) [0..<k]" for k
    by (simp add: upt_conv_Cons map_Suc_upt [symmetric] add.assoc del: upt_Suc)
  then show ?case using "2.IH" [OF m(1)] append_lsn [OF a] m(2) by (simp del: upt_Suc)
next
  case (3 ops)
  then show ?case using flush_lsn [of l] "3.IH" [of "flush l" ns] by simp
qed

text \<open>Starting from sequence number 1 and before the counter wraps, the numbers are strictly increasing
  and never the invalid number 0.\<close>

lemma wal_run_increasing:
  assumes "wal_run app flush ops l = (ns, l')" and "next_lsn l = 1" and "appends ops < 2 ^ 64 - 1"
  shows "sorted_wrt (<) ns" "0 \<notin> set ns" "length ns = appends ops"
proof -
  have ns: "ns = map (\<lambda>i. 1 + of_nat i) [0..<appends ops]" using wal_run_lsns [OF assms(1)] assms(2) by simp
  have u: "unat (1 + of_nat i :: u64) = Suc i" if "i < appends ops" for i
    using that assms(3) by (subst of_nat_Suc [symmetric], subst unat_of_nat) simp
  have "(1 + of_nat i :: u64) < 1 + of_nat j" if "i < j" "j < appends ops" for i j
    using that u by (simp add: word_less_nat_alt)
  then show "sorted_wrt (<) ns" by (auto simp: ns sorted_wrt_iff_nth_less)
  show "0 \<notin> set ns" using u by (fastforce simp: ns)
  show "length ns = appends ops" by (simp add: ns)
qed

end

interpretation log: wal AppendLogRecord Flush lm_next_lsn
proof
  show "n = lm_next_lsn l \<and> lm_next_lsn l' = lm_next_lsn l + 1" if "AppendLogRecord r l = (n, l')" for r l n l'
    using that by (auto simp: AppendLogRecord_def SwapBuffers_def Let_def)
  show "lm_next_lsn (Flush l) = lm_next_lsn l" for l
    by (simp add: Flush_def Flush_swap_def Flush_finish_def SwapBuffers_def)
qed

section \<open>Sequence numbers\<close>

text \<open>From a new log manager, any sequence of appends and flushes (fewer than \<open>2 ^ 64 - 1\<close> appends)
  hands out one sequence number per append, strictly increasing and never the invalid number 0.\<close>

theorem lsns_increasing:
  assumes "appends ops < 2 ^ 64 - 1"
  shows "length (fst (wal_run AppendLogRecord Flush ops LogManager_ctor)) = appends ops
    \<and> sorted_wrt (<) (fst (wal_run AppendLogRecord Flush ops LogManager_ctor))
    \<and> 0 \<notin> set (fst (wal_run AppendLogRecord Flush ops LogManager_ctor))"
proof -
  obtain ns l' where r: "wal_run AppendLogRecord Flush ops LogManager_ctor = (ns, l')"
    by (cases "wal_run AppendLogRecord Flush ops LogManager_ctor")
  show ?thesis using log.wal_run_increasing [OF r _ assms] r by (simp add: LogManager_ctor_def)
qed

theorem lsns_increasing_witness:
  "sorted_wrt (<) (fst (wal_run AppendLogRecord Flush
     [Append_op (LogRecord_ctor 1 0 LR_BEGIN), Flush_op, Append_op (LogRecord_ctor 1 0 LR_COMMIT)] LogManager_ctor))"
  using lsns_increasing [of "[Append_op (LogRecord_ctor 1 0 LR_BEGIN), Flush_op, Append_op (LogRecord_ctor 1 0 LR_COMMIT)]"]
  by simp

section \<open>The buffer\<close>

definition log_inv :: "log_manager \<Rightarrow> bool" where
  "log_inv lm \<longleftrightarrow> length (lm_log_buffer lm) = PAGE_SIZE * 2 \<and> length (lm_flush_buffer lm) = PAGE_SIZE * 2
     \<and> unat (lm_log_buffer_offset lm) \<le> PAGE_SIZE * 2 \<and> unat (lm_flush_size lm) \<le> PAGE_SIZE * 2"

lemma log_inv_ctor: "log_inv LogManager_ctor"
  by (simp add: log_inv_def LogManager_ctor_def)

lemma log_inv_swap: "log_inv lm \<Longrightarrow> log_inv (SwapBuffers lm)"
  by (simp add: log_inv_def SwapBuffers_def)

lemma log_inv_flush: "log_inv lm \<Longrightarrow> log_inv (Flush lm)"
  using log_inv_swap [of lm] by (simp add: Flush_def Flush_swap_def Flush_finish_def log_inv_def)

text \<open>The offset after an append: the record goes behind the previous one, or to the start of the other
  buffer if it does not fit.\<close>

lemma append_offset:
  assumes "log_inv lm" and "AppendLogRecord r lm = (n, lm')"
  shows "unat (lm_log_buffer_offset lm') =
    (if unat (lm_log_buffer_offset lm) + unat (lr_size r) > PAGE_SIZE * 2 then 0
     else unat (lm_log_buffer_offset lm)) + unat (lr_size r)"
proof -
  have s: "unat (lr_size r) < 2 ^ LENGTH(32)" by (rule unsigned_less)
  have c: "unat (ucast (lr_size r) :: u64) = unat (lr_size r)" by (simp add: unat_ucast_up)
  have sum: "unat (lm_log_buffer_offset lm + ucast (lr_size r)) = unat (lm_log_buffer_offset lm) + unat (lr_size r)"
    using assms(1) s c by (simp add: unat_word_ariths log_inv_def PAGE_SIZE_def)
  have cmp: "of_nat (length (lm_log_buffer lm)) < lm_log_buffer_offset lm + ucast (lr_size r) \<longleftrightarrow>
      PAGE_SIZE * 2 < unat (lm_log_buffer_offset lm) + unat (lr_size r)"
    using assms(1) by (simp add: word_less_nat_alt sum log_inv_def PAGE_SIZE_def)
  show ?thesis
    using assms(2) by (auto simp: AppendLogRecord_def SwapBuffers_def Let_def cmp sum c)
qed

lemma append_log_inv:
  assumes inv: "log_inv lm" and fits: "unat (lr_size r) \<le> PAGE_SIZE * 2" and call: "AppendLogRecord r lm = (n, lm')"
  shows "log_inv lm'"
  using inv append_offset [OF inv call] fits call
  by (auto simp: AppendLogRecord_def SwapBuffers_def Let_def log_inv_def split: if_splits)

fun record_fits :: "wal_op \<Rightarrow> bool" where
  "record_fits (Append_op r) = (unat (lr_size r) \<le> PAGE_SIZE * 2)"
| "record_fits Flush_op = True"

lemma wal_run_log_inv:
  "log_inv lm \<Longrightarrow> list_all record_fits ops \<Longrightarrow> log_inv (snd (wal_run AppendLogRecord Flush ops lm))"
proof (induction ops arbitrary: lm rule: appends.induct)
  case (2 r ops)
  obtain n lm1 where a: "AppendLogRecord r lm = (n, lm1)" by (cases "AppendLogRecord r lm")
  show ?case using "2.IH" [of lm1] append_log_inv [OF "2.prems"(1) _ a] "2.prems"(2) a by (auto split: prod.splits)
qed (simp_all add: log_inv_flush)

text \<open>The offset never leaves the buffer as long as no record is larger than the buffer (16384 bytes),
  whatever is appended and flushed; a single larger record moves it past the end, which the check in
  \<open>AppendLogRecord\<close> does not prevent because it only swaps the buffers.\<close>

theorem log_offset_in_buffer:
  "(list_all record_fits ops \<longrightarrow>
      unat (lm_log_buffer_offset (snd (wal_run AppendLogRecord Flush ops LogManager_ctor)))
        \<le> length (lm_log_buffer (snd (wal_run AppendLogRecord Flush ops LogManager_ctor))))
   \<and> (log_inv lm \<and> PAGE_SIZE * 2 < unat (lr_size r) \<longrightarrow>
      length (lm_log_buffer (snd (AppendLogRecord r lm))) < unat (lm_log_buffer_offset (snd (AppendLogRecord r lm))))"
proof (intro conjI impI)
  assume "list_all record_fits ops"
  then have "log_inv (snd (wal_run AppendLogRecord Flush ops LogManager_ctor))"
    by (rule wal_run_log_inv [OF log_inv_ctor])
  then show "unat (lm_log_buffer_offset (snd (wal_run AppendLogRecord Flush ops LogManager_ctor)))
      \<le> length (lm_log_buffer (snd (wal_run AppendLogRecord Flush ops LogManager_ctor)))"
    by (simp add: log_inv_def)
next
  assume big: "log_inv lm \<and> PAGE_SIZE * 2 < unat (lr_size r)"
  obtain n lm' where a: "AppendLogRecord r lm = (n, lm')" by (cases "AppendLogRecord r lm")
  have "length (lm_log_buffer lm') = PAGE_SIZE * 2"
    using big a by (auto simp: AppendLogRecord_def SwapBuffers_def Let_def log_inv_def split: if_splits)
  then show "length (lm_log_buffer (snd (AppendLogRecord r lm))) < unat (lm_log_buffer_offset (snd (AppendLogRecord r lm)))"
    using append_offset [OF _ a] big a by simp
qed

theorem log_offset_in_buffer_witness:
  "unat (lm_log_buffer_offset (snd (wal_run AppendLogRecord Flush [Append_op (LogRecord_ctor 1 0 LR_BEGIN)] LogManager_ctor)))
     \<le> length (lm_log_buffer (snd (wal_run AppendLogRecord Flush [Append_op (LogRecord_ctor 1 0 LR_BEGIN)] LogManager_ctor)))
   \<and> length (lm_log_buffer (snd (AppendLogRecord (LogRecord_default\<lparr>lr_size := 20000\<rparr>) LogManager_ctor)))
     < unat (lm_log_buffer_offset (snd (AppendLogRecord (LogRecord_default\<lparr>lr_size := 20000\<rparr>) LogManager_ctor)))"
  using log_offset_in_buffer [of "[Append_op (LogRecord_ctor 1 0 LR_BEGIN)]" LogManager_ctor "LogRecord_default\<lparr>lr_size := 20000\<rparr>"]
    log_inv_ctor
  by (simp add: LogRecord_ctor_def LogRecord_default_def HeaderSize_def PAGE_SIZE_def)

text \<open>\<open>Flush\<close> resets \<open>flush_size_\<close> after it has released the latch.  When another thread's append has
  swapped the buffers in between, the bytes it handed over for flushing are forgotten: the reset leaves
  \<open>flush_size_ = 0\<close> although \<open>flush_size_\<close> counted 16384 bytes of a record appended after the flush began.\<close>

theorem flush_race_forgets_buffer:
  "let big = LogRecord_default\<lparr>lr_size := 16384\<rparr>;
       other = snd (AppendLogRecord big (snd (AppendLogRecord big (Flush_swap LogManager_ctor))))
   in unat (lm_flush_size other) = PAGE_SIZE * 2 \<and> lm_flush_size (Flush_finish other) = 0
     \<and> lm_flush_size (snd (AppendLogRecord big (snd (AppendLogRecord big (Flush LogManager_ctor))))) = 16384"
  by (simp add: Let_def Flush_def Flush_swap_def Flush_finish_def AppendLogRecord_def SwapBuffers_def
      LogManager_ctor_def LogRecord_default_def PAGE_SIZE_def)

end
