(* ===== verification/Transaction_Manager.thy ===== *)
theory Transaction_Manager
  imports Epoch_Manager Log_Manager
begin

text \<open>
  Transactions and the transaction manager, \<^verbatim>\<open>src/transaction/transaction.h\<close> and
  \<^verbatim>\<open>src/transaction/transaction_manager.h\<close>.  A \<open>Transaction*\<close> is the number of the transaction in
  \<open>txn_map_\<close>, which owns the objects and never drops one; a number that is not there is a dangling
  pointer, and using it is undefined.  The pointer \<open>manager_\<close> is either null or the manager's own epoch
  manager.  The theory uses the epoch manager and the log only through the contracts \<open>epoch_tracker\<close>
  and \<open>wal\<close>.
\<close>

section \<open>Transactions\<close>

datatype TransactionState = ACTIVE | COMMITTED | PRE_ABORT | ABORTED

datatype IsolationLevel =
    READ_UNCOMMITTED | READ_COMMITTED | REPEATABLE_READ | SERIALIZABLE | SNAPSHOT_ISOLATION

record transaction =
  tx_state :: TransactionState
  tx_isolation_level :: IsolationLevel
  tx_txn_id :: u64
  tx_read_epoch :: u64
  tx_commit_epoch :: u64
  tx_has_manager :: bool
  tx_write_set :: "u64 list"

definition Transaction_ctor :: "u64 \<Rightarrow> IsolationLevel \<Rightarrow> transaction" where
  "Transaction_ctor txn_id iso_level = \<lparr>tx_state = ACTIVE, tx_isolation_level = iso_level, tx_txn_id = txn_id,
     tx_read_epoch = 0, tx_commit_epoch = 0, tx_has_manager = False, tx_write_set = []\<rparr>"

definition EnterReadEpoch :: "transaction \<Rightarrow> epoch_manager \<Rightarrow> transaction \<times> epoch_manager" where
  "EnterReadEpoch t em = (let (e, em) = EnterEpoch em in (t\<lparr>tx_read_epoch := e, tx_has_manager := True\<rparr>, em))"

definition Txn_Commit :: "transaction \<Rightarrow> epoch_manager \<Rightarrow> transaction \<times> epoch_manager" where
  "Txn_Commit t em = (t\<lparr>tx_state := COMMITTED\<rparr>, if tx_has_manager t then ExitEpoch (tx_read_epoch t) em else em)"

definition Txn_Abort :: "transaction \<Rightarrow> epoch_manager \<Rightarrow> transaction \<times> epoch_manager" where
  "Txn_Abort t em = (t\<lparr>tx_state := ABORTED\<rparr>, if tx_has_manager t then ExitEpoch (tx_read_epoch t) em else em)"

definition AppendWriteSet :: "u64 \<Rightarrow> transaction \<Rightarrow> transaction" where
  "AppendWriteSet lsn t = t\<lparr>tx_write_set := tx_write_set t @ [lsn]\<rparr>"

definition SetCommitEpoch :: "u64 \<Rightarrow> transaction \<Rightarrow> transaction" where
  "SetCommitEpoch e t = t\<lparr>tx_commit_epoch := e\<rparr>"

section \<open>The manager\<close>

record txn_manager =
  tm_next_txn_id :: u64
  tm_log :: log_manager
  tm_epochs :: epoch_manager
  tm_txn_map :: "u64 \<Rightarrow> transaction option"

definition TransactionManager_ctor :: "log_manager \<Rightarrow> txn_manager" where
  "TransactionManager_ctor lm = \<lparr>tm_next_txn_id = 1, tm_log = lm, tm_epochs = EpochManager_ctor,
     tm_txn_map = Map.empty\<rparr>"

text \<open>\<open>emplace\<close> does nothing if the number is taken, which only happens after the counter has wrapped
  around; the new object is then destroyed and the pointer returned is dangling.\<close>

definition TM_Begin :: "IsolationLevel \<Rightarrow> txn_manager \<Rightarrow> (error + u64) \<times> txn_manager" where
  "TM_Begin iso_level tm =
     (let new_id = tm_next_txn_id tm; tm = tm\<lparr>tm_next_txn_id := new_id + 1\<rparr>;
          (t, em) = EnterReadEpoch (Transaction_ctor new_id iso_level) (tm_epochs tm);
          (begin_lsn, lm) = AppendLogRecord (LogRecord_ctor new_id 0 LR_BEGIN) (tm_log tm);
          t = AppendWriteSet begin_lsn t;
          tm = tm\<lparr>tm_epochs := em, tm_log := lm\<rparr>
      in if tm_txn_map tm new_id = None
         then (Inr new_id, tm\<lparr>tm_txn_map := (tm_txn_map tm)(new_id \<mapsto> t)\<rparr>)
         else (Inl Undefined, tm))"

definition TM_Commit :: "u64 \<Rightarrow> txn_manager \<Rightarrow> (error + unit) \<times> txn_manager" where
  "TM_Commit txn tm =
     (case tm_txn_map tm txn of
        None \<Rightarrow> (Inl Undefined, tm)
      | Some t \<Rightarrow>
          if tx_state t = ABORTED then (Inr (), tm)
          else
            let (lsn, lm) = AppendLogRecord (LogRecord_ctor (tx_txn_id t) 0 LR_COMMIT) (tm_log tm);
                lm = Flush lm;
                (t, em) = Txn_Commit t (tm_epochs tm)
            in (Inr (), tm\<lparr>tm_log := lm, tm_epochs := em, tm_txn_map := (tm_txn_map tm)(txn \<mapsto> t)\<rparr>))"

definition TM_Abort :: "u64 \<Rightarrow> txn_manager \<Rightarrow> (error + unit) \<times> txn_manager" where
  "TM_Abort txn tm =
     (case tm_txn_map tm txn of
        None \<Rightarrow> (Inl Undefined, tm)
      | Some t \<Rightarrow>
          if tx_state t = COMMITTED then (Inr (), tm)
          else
            let (lsn, lm) = AppendLogRecord (LogRecord_ctor (tx_txn_id t) 0 LR_ABORT) (tm_log tm);
                (t, em) = Txn_Abort t (tm_epochs tm)
            in (Inr (), tm\<lparr>tm_log := lm, tm_epochs := em, tm_txn_map := (tm_txn_map tm)(txn \<mapsto> t)\<rparr>))"

section \<open>Invariant\<close>

text \<open>The epochs the active transactions read in.\<close>

definition active_txns :: "txn_manager \<Rightarrow> u64 set" where
  "active_txns tm = {txn. \<exists>t. tm_txn_map tm txn = Some t \<and> tx_state t = ACTIVE}"

definition read_epochs :: "txn_manager \<Rightarrow> u64 multiset" where
  "read_epochs tm = image_mset (\<lambda>txn. tx_read_epoch (the (tm_txn_map tm txn))) (mset_set (active_txns tm))"

definition tm_inv :: "txn_manager \<Rightarrow> bool" where
  "tm_inv tm \<longleftrightarrow> 0 < tm_next_txn_id tm
     \<and> (\<forall>txn t. tm_txn_map tm txn = Some t \<longrightarrow> tx_txn_id t = txn \<and> tx_has_manager t \<and> 0 < txn
          \<and> txn < tm_next_txn_id tm \<and> tx_state t \<noteq> PRE_ABORT)
     \<and> epochs_tracked (tm_epochs tm) (read_epochs tm)"

lemma read_epochs_cong:
  assumes "\<And>x. x \<in> active_txns tm \<Longrightarrow> tm_txn_map tm' x = tm_txn_map tm x" and "active_txns tm' = active_txns tm"
  shows "read_epochs tm' = read_epochs tm"
  unfolding read_epochs_def assms(2) by (rule image_mset_cong) (simp add: assms(1) finite_set_mset_mset_set)

lemma read_epochs_begin:
  assumes "tm_txn_map tm' = (tm_txn_map tm)(txn \<mapsto> t)" and "tm_txn_map tm txn = None" and "tx_state t = ACTIVE"
  shows "read_epochs tm' = add_mset (tx_read_epoch t) (read_epochs tm)"
proof -
  have a: "active_txns tm' = insert txn (active_txns tm)" "txn \<notin> active_txns tm"
    using assms by (auto simp: active_txns_def)
  have "image_mset (\<lambda>x. tx_read_epoch (the (tm_txn_map tm' x))) (mset_set (active_txns tm))
      = image_mset (\<lambda>x. tx_read_epoch (the (tm_txn_map tm x))) (mset_set (active_txns tm))"
    using a(2) assms(1) by (intro image_mset_cong) auto
  then show ?thesis using a assms(1) by (simp add: read_epochs_def)
qed

lemma read_epochs_finish:
  assumes "tm_txn_map tm' = (tm_txn_map tm)(txn \<mapsto> t')" and "tm_txn_map tm txn = Some t"
    and "tx_state t = ACTIVE" and "tx_state t' \<noteq> ACTIVE"
  shows "read_epochs tm = add_mset (tx_read_epoch t) (read_epochs tm')"
proof -
  have a: "active_txns tm' = active_txns tm - {txn}" "txn \<in> active_txns tm"
    using assms by (auto simp: active_txns_def)
  have "image_mset (\<lambda>x. tx_read_epoch (the (tm_txn_map tm' x))) (mset_set (active_txns tm - {txn}))
      = image_mset (\<lambda>x. tx_read_epoch (the (tm_txn_map tm x))) (mset_set (active_txns tm - {txn}))"
    using assms(1) by (intro image_mset_cong) auto
  then show ?thesis
    using a assms(2) by (simp add: read_epochs_def mset_set.remove [of "active_txns tm" txn])
qed

section \<open>Operations and the invariant\<close>

lemma tm_inv_ctor: "tm_inv (TransactionManager_ctor lm)"
  using epochs_tracked_ctor
  by (simp add: tm_inv_def TransactionManager_ctor_def read_epochs_def active_txns_def)

lemma TM_Begin_eq:
  assumes "EnterEpoch (tm_epochs tm) = (e, em)"
    and "AppendLogRecord (LogRecord_ctor (tm_next_txn_id tm) 0 LR_BEGIN) (tm_log tm) = (lsn, lm)"
    and "tm_txn_map tm (tm_next_txn_id tm) = None"
  shows "TM_Begin lev tm = (Inr (tm_next_txn_id tm),
    tm\<lparr>tm_next_txn_id := tm_next_txn_id tm + 1, tm_epochs := em, tm_log := lm,
       tm_txn_map := (tm_txn_map tm)(tm_next_txn_id tm \<mapsto>
         \<lparr>tx_state = ACTIVE, tx_isolation_level = lev, tx_txn_id = tm_next_txn_id tm, tx_read_epoch = e,
          tx_commit_epoch = 0, tx_has_manager = True, tx_write_set = [lsn]\<rparr>)\<rparr>)"
  using assms
  by (simp add: TM_Begin_def Let_def EnterReadEpoch_def Transaction_ctor_def AppendWriteSet_def)

lemma tm_inv_fresh: "tm_inv tm \<Longrightarrow> tm_txn_map tm (tm_next_txn_id tm) = None"
  by (cases "tm_txn_map tm (tm_next_txn_id tm)") (auto simp: tm_inv_def)

lemma TM_Begin_inv:
  assumes inv: "tm_inv tm" and "tm_next_txn_id tm + 1 \<noteq> 0"
  shows "tm_inv (snd (TM_Begin lev tm))" "fst (TM_Begin lev tm) = Inr (tm_next_txn_id tm)"
proof -
  obtain e em where e: "EnterEpoch (tm_epochs tm) = (e, em)" by (cases "EnterEpoch (tm_epochs tm)")
  obtain lsn lm where l: "AppendLogRecord (LogRecord_ctor (tm_next_txn_id tm) 0 LR_BEGIN) (tm_log tm) = (lsn, lm)"
    by (cases "AppendLogRecord (LogRecord_ctor (tm_next_txn_id tm) 0 LR_BEGIN) (tm_log tm)")
  note B = TM_Begin_eq [OF e l tm_inv_fresh [OF inv], of lev]
  have lt: "tm_next_txn_id tm < tm_next_txn_id tm + 1"
    using assms(2) unatSuc [of "tm_next_txn_id tm"] by (simp add: word_less_nat_alt add.commute)
  define t where "t = \<lparr>tx_state = ACTIVE, tx_isolation_level = lev, tx_txn_id = tm_next_txn_id tm,
    tx_read_epoch = e, tx_commit_epoch = 0, tx_has_manager = True, tx_write_set = [lsn]\<rparr>"
  have "read_epochs (snd (TM_Begin lev tm)) = add_mset (tx_read_epoch t) (read_epochs tm)"
    by (rule read_epochs_begin [OF _ tm_inv_fresh [OF inv]]) (simp_all add: B t_def)
  then have "epochs_tracked em (read_epochs (snd (TM_Begin lev tm)))"
    using epochs.enter_tracked [OF _ e] inv by (simp add: tm_inv_def t_def)
  moreover have "txn < tm_next_txn_id tm + 1" if "tm_txn_map tm txn = Some t" for txn t
    using that inv lt by (auto simp: tm_inv_def intro: less_trans)
  ultimately show "tm_inv (snd (TM_Begin lev tm))"
    using inv lt unfolding tm_inv_def B by auto
  show "fst (TM_Begin lev tm) = Inr (tm_next_txn_id tm)" by (simp add: B)
qed

text \<open>Ending an active transaction, by either call, takes its epoch away.\<close>

lemma finish_inv:
  assumes inv: "tm_inv tm" and t: "tm_txn_map tm txn = Some t" "tx_state t = ACTIVE"
    and st: "st = COMMITTED \<or> st = ABORTED"
    and tm': "tm' = tm\<lparr>tm_log := lm, tm_epochs := ExitEpoch (tx_read_epoch t) (tm_epochs tm),
      tm_txn_map := (tm_txn_map tm)(txn \<mapsto> t\<lparr>tx_state := st\<rparr>)\<rparr>"
  shows "tm_inv tm'"
proof -
  have r: "read_epochs tm = add_mset (tx_read_epoch t) (read_epochs tm')"
    using t st by (intro read_epochs_finish [where t' = "t\<lparr>tx_state := st\<rparr>"]) (auto simp: tm')
  have "epochs_tracked (tm_epochs tm') (read_epochs tm')"
    using epochs.leave_tracked [of "tm_epochs tm" "read_epochs tm" "tx_read_epoch t"] inv r
    by (simp add: tm_inv_def tm')
  then show ?thesis using inv t st by (auto simp: tm_inv_def tm')
qed

lemma TM_Commit_active:
  assumes "tm_txn_map tm txn = Some t" and "tx_state t \<noteq> ABORTED" and "tx_has_manager t"
  shows "\<exists>lm. TM_Commit txn tm = (Inr (), tm\<lparr>tm_log := lm, tm_epochs := ExitEpoch (tx_read_epoch t) (tm_epochs tm),
      tm_txn_map := (tm_txn_map tm)(txn \<mapsto> t\<lparr>tx_state := COMMITTED\<rparr>)\<rparr>)
    \<and> lm_next_lsn lm = lm_next_lsn (tm_log tm) + 1 \<and> lm_log_buffer_offset lm = 0"
proof -
  obtain lsn lm where l: "AppendLogRecord (LogRecord_ctor (tx_txn_id t) 0 LR_COMMIT) (tm_log tm) = (lsn, lm)"
    by (cases "AppendLogRecord (LogRecord_ctor (tx_txn_id t) 0 LR_COMMIT) (tm_log tm)")
  have "lm_log_buffer_offset (Flush lm) = 0"
    by (simp add: Flush_def Flush_swap_def Flush_finish_def SwapBuffers_def)
  then show ?thesis
    using assms l log.append_lsn [OF l] log.flush_lsn [of lm]
    by (intro exI [of _ "Flush lm"]) (simp add: TM_Commit_def Txn_Commit_def)
qed

lemma TM_Abort_active:
  assumes "tm_txn_map tm txn = Some t" and "tx_state t \<noteq> COMMITTED" and "tx_has_manager t"
  shows "\<exists>lm. TM_Abort txn tm = (Inr (), tm\<lparr>tm_log := lm, tm_epochs := ExitEpoch (tx_read_epoch t) (tm_epochs tm),
      tm_txn_map := (tm_txn_map tm)(txn \<mapsto> t\<lparr>tx_state := ABORTED\<rparr>)\<rparr>)
    \<and> lm_next_lsn lm = lm_next_lsn (tm_log tm) + 1"
proof -
  obtain lsn lm where l: "AppendLogRecord (LogRecord_ctor (tx_txn_id t) 0 LR_ABORT) (tm_log tm) = (lsn, lm)"
    by (cases "AppendLogRecord (LogRecord_ctor (tx_txn_id t) 0 LR_ABORT) (tm_log tm)")
  then show ?thesis
    using assms log.append_lsn [OF l] by (intro exI [of _ lm]) (simp add: TM_Abort_def Txn_Abort_def)
qed

lemma TM_Commit_inv:
  assumes inv: "tm_inv tm" and "tm_txn_map tm txn = Some t" and "tx_state t \<noteq> COMMITTED"
  shows "tm_inv (snd (TM_Commit txn tm))"
proof (cases "tx_state t")
  case ACTIVE
  have "tx_has_manager t" using inv assms(2) by (simp add: tm_inv_def)
  then show ?thesis using TM_Commit_active [OF assms(2)] ACTIVE finish_inv [OF inv assms(2) ACTIVE] by auto
next
  case ABORTED
  then show ?thesis using assms by (simp add: TM_Commit_def)
qed (use assms in \<open>auto simp: tm_inv_def\<close>)

lemma TM_Abort_inv:
  assumes inv: "tm_inv tm" and "tm_txn_map tm txn = Some t" and "tx_state t \<noteq> ABORTED"
  shows "tm_inv (snd (TM_Abort txn tm))"
proof (cases "tx_state t")
  case ACTIVE
  have "tx_has_manager t" using inv assms(2) by (simp add: tm_inv_def)
  then show ?thesis using TM_Abort_active [OF assms(2)] ACTIVE finish_inv [OF inv assms(2) ACTIVE] by auto
next
  case COMMITTED
  then show ?thesis using assms by (simp add: TM_Abort_def)
qed (use assms in \<open>auto simp: tm_inv_def\<close>)

section \<open>Reachable states\<close>

text \<open>Calls in any order by any number of clients, each of which ends its transaction at most once (a
  late commit of an aborted transaction or abort of a committed one is allowed: the manager ignores it),
  log records appended by executors, and the epoch advancing at any time.\<close>

inductive tm_step :: "txn_manager \<Rightarrow> txn_manager \<Rightarrow> bool" where
  begins: "TM_Begin lev tm = (Inr txn, tm') \<Longrightarrow> tm_next_txn_id tm + 1 \<noteq> 0 \<Longrightarrow> tm_step tm tm'"
| commits: "TM_Commit txn tm = (r, tm') \<Longrightarrow> tm_txn_map tm txn = Some t \<Longrightarrow> tx_state t \<noteq> COMMITTED \<Longrightarrow> tm_step tm tm'"
| aborts: "TM_Abort txn tm = (r, tm') \<Longrightarrow> tm_txn_map tm txn = Some t \<Longrightarrow> tx_state t \<noteq> ABORTED \<Longrightarrow> tm_step tm tm'"
| logs: "AppendLogRecord rec (tm_log tm) = (lsn, lm) \<Longrightarrow> tm_step tm (tm\<lparr>tm_log := lm\<rparr>)"
| advances: "tm_step tm (tm\<lparr>tm_epochs := AdvanceEpoch (tm_epochs tm)\<rparr>)"

inductive tm_reach :: "log_manager \<Rightarrow> txn_manager \<Rightarrow> bool" for lm where
  start: "tm_reach lm (TransactionManager_ctor lm)"
| step: "tm_reach lm tm \<Longrightarrow> tm_step tm tm' \<Longrightarrow> tm_reach lm tm'"

lemma tm_step_inv: "tm_step tm tm' \<Longrightarrow> tm_inv tm \<Longrightarrow> tm_inv tm'"
proof (induction rule: tm_step.induct)
  case (begins lev tm txn tm')
  then show ?case using TM_Begin_inv [of tm lev] by simp
next
  case (commits txn tm r tm' t)
  then show ?case using TM_Commit_inv [of tm txn t] by simp
next
  case (aborts txn tm r tm' t)
  then show ?case using TM_Abort_inv [of tm txn t] by simp
next
  case (logs rec tm lsn lm)
  then show ?case by (simp add: tm_inv_def read_epochs_def active_txns_def)
next
  case (advances tm)
  then show ?case using epochs_tracked_advance by (simp add: tm_inv_def read_epochs_def active_txns_def)
qed

lemma tm_reach_inv: "tm_reach lm tm \<Longrightarrow> tm_inv tm"
  by (induction rule: tm_reach.induct) (auto intro: tm_inv_ctor tm_step_inv)

section \<open>Properties\<close>

text \<open>In every reachable state the epoch counters count exactly the transactions that are active: slot
  \<open>i\<close> holds the number of active transactions whose read epoch falls into it.  Every transaction was
  given its own number, below the next one to be given out.\<close>

theorem epochs_count_active_txns:
  assumes "tm_reach lm tm" and "i < MAX_EPOCHS"
  shows "em_active_epochs (tm_epochs tm) ! i =
      of_nat (card {txn \<in> active_txns tm. epoch_slot (tx_read_epoch (the (tm_txn_map tm txn))) = i})
    \<and> (\<forall>txn t. tm_txn_map tm txn = Some t \<longrightarrow> tx_txn_id t = txn \<and> 0 < txn \<and> txn < tm_next_txn_id tm)"
proof -
  have inv: "tm_inv tm" using assms(1) by (rule tm_reach_inv)
  have "slot_readers (read_epochs tm) i =
      card {txn \<in> active_txns tm. epoch_slot (tx_read_epoch (the (tm_txn_map tm txn))) = i}"
    by (simp add: slot_readers_def read_epochs_def filter_mset_image_mset)
  then show ?thesis using inv assms(2) by (simp add: tm_inv_def epochs_tracked_def)
qed

definition one_txn :: txn_manager where
  "one_txn = snd (TM_Begin SNAPSHOT_ISOLATION (TransactionManager_ctor LogManager_ctor))"

lemma one_txn_begin: "TM_Begin SNAPSHOT_ISOLATION (TransactionManager_ctor LogManager_ctor) = (Inr 1, one_txn)"
  using TM_Begin_inv(2) [OF tm_inv_ctor, of LogManager_ctor SNAPSHOT_ISOLATION]
  by (simp add: one_txn_def TransactionManager_ctor_def prod_eq_iff)

theorem epochs_count_active_txns_witness:
  "tm_reach LogManager_ctor one_txn \<and> em_active_epochs (tm_epochs one_txn) ! 1 =
     of_nat (card {txn \<in> active_txns one_txn. epoch_slot (tx_read_epoch (the (tm_txn_map one_txn txn))) = 1})"
proof -
  have r: "tm_reach LogManager_ctor one_txn"
    using tm_reach.step [OF tm_reach.start tm_step.begins [OF one_txn_begin]] by (simp add: TransactionManager_ctor_def)
  then show ?thesis using epochs_count_active_txns [OF r, of 1] by (simp add: MAX_EPOCHS_def)
qed

text \<open>Calls in any order, without any discipline.\<close>

datatype tm_op = Begin_op IsolationLevel | Commit_op u64 | Abort_op u64

fun tm_do :: "tm_op \<Rightarrow> txn_manager \<Rightarrow> txn_manager" where
  "tm_do (Begin_op lev) tm = snd (TM_Begin lev tm)"
| "tm_do (Commit_op txn) tm = snd (TM_Commit txn tm)"
| "tm_do (Abort_op txn) tm = snd (TM_Abort txn tm)"

lemma tm_do_outcome:
  assumes "map_option tx_state (tm_txn_map tm txn) = Some st" and "st = COMMITTED \<or> st = ABORTED"
  shows "map_option tx_state (tm_txn_map (tm_do a tm) txn) = Some st"
  using assms
  by (cases a) (auto simp: TM_Begin_def TM_Commit_def TM_Abort_def Txn_Commit_def Txn_Abort_def Let_def
      split: option.splits prod.splits)

text \<open>(C23) The outcome of a transaction is final: once committed it is never aborted and once aborted never
  committed, whatever calls are made later, repeated and misplaced ones included.\<close>

theorem outcome_is_final:
  assumes "tm_txn_map tm txn = Some t" and "tx_state t = COMMITTED \<or> tx_state t = ABORTED"
  shows "map_option tx_state (tm_txn_map (fold tm_do ops tm) txn) = Some (tx_state t)"
proof -
  have "map_option tx_state (tm_txn_map (fold tm_do ops tm) txn) = Some (tx_state t)"
    if "map_option tx_state (tm_txn_map tm txn) = Some (tx_state t)" for tm
    using that
  proof (induction ops arbitrary: tm)
    case (Cons a as)
    then show ?case using tm_do_outcome [OF Cons.prems assms(2)] by simp
  qed simp
  then show ?thesis using assms(1) by simp
qed

definition committed_txn :: txn_manager where
  "committed_txn = snd (TM_Commit 1 one_txn)"

lemma one_txn_active: "\<exists>t. tm_txn_map one_txn 1 = Some t \<and> tx_state t = ACTIVE \<and> tx_has_manager t"
  by (auto simp: one_txn_def TM_Begin_def TransactionManager_ctor_def EnterReadEpoch_def AppendWriteSet_def
      Transaction_ctor_def Let_def split: prod.splits)

theorem outcome_is_final_witness:
  "map_option tx_state (tm_txn_map committed_txn 1) = Some COMMITTED
   \<and> map_option tx_state (tm_txn_map (fold tm_do [Abort_op 1, Commit_op 1, Abort_op 1] committed_txn) 1) = Some COMMITTED"
proof -
  obtain t where t: "tm_txn_map one_txn 1 = Some t" "tx_state t = ACTIVE" "tx_has_manager t"
    using one_txn_active by blast
  obtain t' where t': "tm_txn_map committed_txn 1 = Some t'" "tx_state t' = COMMITTED"
    using TM_Commit_active [OF t(1) _ t(3)] t(2) by (auto simp: committed_txn_def)
  show ?thesis using outcome_is_final [OF t'(1), of "[Abort_op 1, Commit_op 1, Abort_op 1]"] t' by simp
qed

text \<open>The counters after one reader of epoch \<open>e\<close> has left, and the entries of the other transactions.\<close>

definition one_reader_less :: "u64 \<Rightarrow> u64 \<Rightarrow> txn_manager \<Rightarrow> txn_manager \<Rightarrow> bool" where
  "one_reader_less e txn tm tm' \<longleftrightarrow> em_global_epoch (tm_epochs tm') = em_global_epoch (tm_epochs tm)
     \<and> length (em_active_epochs (tm_epochs tm')) = MAX_EPOCHS
     \<and> (\<forall>i < MAX_EPOCHS. em_active_epochs (tm_epochs tm') ! i
          = em_active_epochs (tm_epochs tm) ! i - (if i = unat e mod MAX_EPOCHS then 1 else 0))
     \<and> (\<forall>q. q \<noteq> txn \<longrightarrow> tm_txn_map tm' q = tm_txn_map tm q)"

text \<open>(C24) Committing an active transaction succeeds, marks it committed, writes exactly one log record,
  leaves nothing unflushed in the log buffer, and takes one reader from the counter of its read epoch and from no other counter; aborting it
  does the same without forcing the log.  No other transaction changes.\<close>

theorem commit_and_abort_effect:
  assumes "tm_inv tm" and "tm_txn_map tm txn = Some t" and "tx_state t = ACTIVE"
  shows "fst (TM_Commit txn tm) = Inr () \<and> fst (TM_Abort txn tm) = Inr ()
    \<and> map_option tx_state (tm_txn_map (snd (TM_Commit txn tm)) txn) = Some COMMITTED
    \<and> map_option tx_state (tm_txn_map (snd (TM_Abort txn tm)) txn) = Some ABORTED
    \<and> lm_next_lsn (tm_log (snd (TM_Commit txn tm))) = lm_next_lsn (tm_log tm) + 1
    \<and> lm_next_lsn (tm_log (snd (TM_Abort txn tm))) = lm_next_lsn (tm_log tm) + 1
    \<and> lm_log_buffer_offset (tm_log (snd (TM_Commit txn tm))) = 0
    \<and> one_reader_less (tx_read_epoch t) txn tm (snd (TM_Commit txn tm))
    \<and> one_reader_less (tx_read_epoch t) txn tm (snd (TM_Abort txn tm))"
proof -
  have m: "tx_has_manager t" "length (em_active_epochs (tm_epochs tm)) = MAX_EPOCHS"
    using assms(1,2) by (simp_all add: tm_inv_def epochs_tracked_def)
  obtain lm where c: "TM_Commit txn tm = (Inr (), tm\<lparr>tm_log := lm, tm_epochs := ExitEpoch (tx_read_epoch t) (tm_epochs tm),
      tm_txn_map := (tm_txn_map tm)(txn \<mapsto> t\<lparr>tx_state := COMMITTED\<rparr>)\<rparr>)"
    "lm_next_lsn lm = lm_next_lsn (tm_log tm) + 1" "lm_log_buffer_offset lm = 0"
    using TM_Commit_active [OF assms(2) _ m(1)] assms(3) by auto
  obtain lm' where a: "TM_Abort txn tm = (Inr (), tm\<lparr>tm_log := lm', tm_epochs := ExitEpoch (tx_read_epoch t) (tm_epochs tm),
      tm_txn_map := (tm_txn_map tm)(txn \<mapsto> t\<lparr>tx_state := ABORTED\<rparr>)\<rparr>)"
    "lm_next_lsn lm' = lm_next_lsn (tm_log tm) + 1"
    using TM_Abort_active [OF assms(2) _ m(1)] assms(3) by auto
  have "one_reader_less (tx_read_epoch t) txn tm (tm\<lparr>tm_log := l, tm_epochs := ExitEpoch (tx_read_epoch t) (tm_epochs tm),
      tm_txn_map := (tm_txn_map tm)(txn \<mapsto> u)\<rparr>)" for l u
    using m(2) by (simp add: one_reader_less_def ExitEpoch_def Let_def epoch_slot_def nth_list_update)
  then show ?thesis using a c by simp
qed

theorem commit_and_abort_effect_witness:
  "tm_inv one_txn \<and> fst (TM_Commit 1 one_txn) = Inr () \<and> fst (TM_Abort 1 one_txn) = Inr ()"
proof -
  have inv: "tm_inv one_txn"
    using TM_Begin_inv(1) [OF tm_inv_ctor, of LogManager_ctor SNAPSHOT_ISOLATION]
    by (simp add: one_txn_def TransactionManager_ctor_def)
  obtain t where "tm_txn_map one_txn 1 = Some t" "tx_state t = ACTIVE" using one_txn_active by blast
  then show ?thesis using commit_and_abort_effect [OF inv] inv by blast
qed

lemma ExitEpoch_twice:
  assumes "length (em_active_epochs em) = MAX_EPOCHS"
  shows "em_active_epochs (ExitEpoch e (ExitEpoch e em)) ! epoch_slot e = em_active_epochs em ! epoch_slot e - 2"
  using assms by (simp add: ExitEpoch_def Let_def)

text \<open>Ending a transaction twice is not harmless: the manager does not check for it, and a second
  commit (or a second abort) takes another reader away from the epoch, which belongs to some other
  transaction if there is one and otherwise makes the counter negative.\<close>

theorem double_commit_drops_reader:
  assumes "tm_inv tm" and "tm_txn_map tm txn = Some t" and "tx_state t = ACTIVE"
  shows "em_active_epochs (tm_epochs (snd (TM_Commit txn (snd (TM_Commit txn tm))))) ! epoch_slot (tx_read_epoch t)
      = of_nat (slot_readers (read_epochs tm) (epoch_slot (tx_read_epoch t))) - 2
    \<and> em_active_epochs (tm_epochs (snd (TM_Abort txn (snd (TM_Abort txn tm))))) ! epoch_slot (tx_read_epoch t)
      = of_nat (slot_readers (read_epochs tm) (epoch_slot (tx_read_epoch t))) - 2"
proof -
  have m: "tx_has_manager t" and tr: "epochs_tracked (tm_epochs tm) (read_epochs tm)"
    using assms(1,2) by (simp_all add: tm_inv_def)
  have twice: "em_active_epochs (ExitEpoch (tx_read_epoch t) (ExitEpoch (tx_read_epoch t) (tm_epochs tm)))
      ! epoch_slot (tx_read_epoch t) = of_nat (slot_readers (read_epochs tm) (epoch_slot (tx_read_epoch t))) - 2"
    using tr by (simp add: ExitEpoch_twice epochs_tracked_def)
  define c where "c = snd (TM_Commit txn tm)"
  have c: "tm_txn_map c txn = Some (t\<lparr>tx_state := COMMITTED\<rparr>)" "tm_epochs c = ExitEpoch (tx_read_epoch t) (tm_epochs tm)"
    using TM_Commit_active [OF assms(2) _ m] assms(3) by (auto simp: c_def)
  define a where "a = snd (TM_Abort txn tm)"
  have a: "tm_txn_map a txn = Some (t\<lparr>tx_state := ABORTED\<rparr>)" "tm_epochs a = ExitEpoch (tx_read_epoch t) (tm_epochs tm)"
    using TM_Abort_active [OF assms(2) _ m] assms(3) by (auto simp: a_def)
  have "tm_epochs (snd (TM_Commit txn c)) = ExitEpoch (tx_read_epoch t) (ExitEpoch (tx_read_epoch t) (tm_epochs tm))"
    using TM_Commit_active [OF c(1)] c(2) m by auto
  moreover have "tm_epochs (snd (TM_Abort txn a)) = ExitEpoch (tx_read_epoch t) (ExitEpoch (tx_read_epoch t) (tm_epochs tm))"
    using TM_Abort_active [OF a(1)] a(2) m by auto
  ultimately show ?thesis using twice by (simp add: c_def [symmetric] a_def [symmetric])
qed

theorem double_commit_drops_reader_witness:
  "tm_inv one_txn \<and> (\<exists>t. tm_txn_map one_txn 1 = Some t \<and> tx_state t = ACTIVE \<and>
     em_active_epochs (tm_epochs (snd (TM_Commit 1 (snd (TM_Commit 1 one_txn))))) ! epoch_slot (tx_read_epoch t)
       = of_nat (slot_readers (read_epochs one_txn) (epoch_slot (tx_read_epoch t))) - 2)"
proof -
  have inv: "tm_inv one_txn"
    using TM_Begin_inv(1) [OF tm_inv_ctor, of LogManager_ctor SNAPSHOT_ISOLATION]
    by (simp add: one_txn_def TransactionManager_ctor_def)
  obtain t where t: "tm_txn_map one_txn 1 = Some t" "tx_state t = ACTIVE" using one_txn_active by blast
  then show ?thesis using double_commit_drops_reader [OF inv t] inv by blast
qed

end
