(* ===== verification/Catalog.thy ===== *)
theory Catalog
  imports Sting_Prelude
begin

text \<open>
  The system catalog: \<^verbatim>\<open>src/catalog/column.h\<close>, \<^verbatim>\<open>schema.h\<close>, \<^verbatim>\<open>table_info.h\<close>, \<^verbatim>\<open>catalog_manager.h\<close> (and
  the type tags of \<^verbatim>\<open>src/execution/vector.h\<close>).  A \<open>TableInfo*\<close> is the number of the table in \<open>tables_\<close>,
  which owns the objects; \<open>nullptr\<close> is \<open>None\<close>.  Offsets and lengths are 32-bit and wrap.

  The locale \<open>table_directory\<close> is the contract the binder and the executors use; it is interpreted on
  the operations here.
\<close>

section \<open>Columns and schemas\<close>

datatype TypeId = T_INVALID | T_BOOLEAN | T_INTEGER | T_BIGINT | T_FLOAT | T_DOUBLE | T_VARCHAR

record column =
  col_name :: string
  col_type :: TypeId
  col_length :: u32
  col_offset :: u32

fun default_length :: "TypeId \<Rightarrow> u32" where
  "default_length T_BOOLEAN = 1"
| "default_length T_INTEGER = 4"
| "default_length T_BIGINT = 8"
| "default_length T_DOUBLE = 8"
| "default_length T_FLOAT = 4"
| "default_length T_VARCHAR = 255"
| "default_length T_INVALID = 0"

definition Column_ctor :: "string \<Rightarrow> TypeId \<Rightarrow> u32 \<Rightarrow> column" where
  "Column_ctor name type len = \<lparr>col_name = name, col_type = type,
     col_length = (if len = 0 then default_length type else len), col_offset = 0\<rparr>"

definition SetOffset :: "u32 \<Rightarrow> column \<Rightarrow> column" where
  "SetOffset off c = c\<lparr>col_offset := off\<rparr>"

record schema =
  sc_columns :: "column list"
  sc_tuple_fixed_size :: u32

text \<open>The loop of the constructor: the columns with their offsets, and the offset after the last.\<close>

fun assign_offsets :: "u32 \<Rightarrow> column list \<Rightarrow> column list \<times> u32" where
  "assign_offsets off [] = ([], off)"
| "assign_offsets off (c # cs) =
     (let c = SetOffset off c; (cs, e) = assign_offsets (off + col_length c) cs in (c # cs, e))"

definition Schema_ctor :: "column list \<Rightarrow> schema" where
  "Schema_ctor columns = (let (cs, e) = assign_offsets 0 columns in \<lparr>sc_columns = cs, sc_tuple_fixed_size = e\<rparr>)"

definition GetColumn :: "schema \<Rightarrow> nat \<Rightarrow> error + column" where
  "GetColumn s i = (if i < length (sc_columns s) then Inr (sc_columns s ! i) else Inl Undefined)"

fun find_column :: "string \<Rightarrow> nat \<Rightarrow> column list \<Rightarrow> nat option" where
  "find_column name i [] = None"
| "find_column name i (c # cs) = (if col_name c = name then Some i else find_column name (i + 1) cs)"

definition GetColIdx :: "schema \<Rightarrow> string \<Rightarrow> error + nat" where
  "GetColIdx s name = (case find_column name 0 (sc_columns s) of
     Some i \<Rightarrow> Inr i
   | None \<Rightarrow> Inl (Runtime_error (''Column '' @ [CHR 0x27] @ name @ [CHR 0x27] @ '' not found.'')))"

section \<open>Tables and the catalog manager\<close>

record table_info =
  ti_id :: u32
  ti_name :: string
  ti_schema :: schema
  ti_first_page_id :: pageid

definition TableInfo_ctor :: "u32 \<Rightarrow> string \<Rightarrow> schema \<Rightarrow> pageid \<Rightarrow> table_info" where
  "TableInfo_ctor i name schema page = \<lparr>ti_id = i, ti_name = name, ti_schema = schema, ti_first_page_id = page\<rparr>"

record catalog =
  cat_next_table_id :: u32
  cat_tables :: "u32 \<Rightarrow> table_info option"
  cat_table_names :: "string \<Rightarrow> u32 option"

definition CatalogManager_ctor :: catalog where
  "CatalogManager_ctor = \<lparr>cat_next_table_id = 0, cat_tables = Map.empty, cat_table_names = Map.empty\<rparr>"

text \<open>\<open>emplace\<close> does nothing if the number is taken (after \<open>2 ^ 32\<close> tables); the pointer returned is
  then dangling.\<close>

definition CreateTable :: "string \<Rightarrow> schema \<Rightarrow> pageid \<Rightarrow> catalog \<Rightarrow> (error + u32) \<times> catalog" where
  "CreateTable table_name schema first_page cat =
     (if cat_table_names cat table_name \<noteq> None
      then (Inl (Runtime_error (''Table already exists: '' @ table_name)), cat)
      else
        let new_id = cat_next_table_id cat;
            cat = cat\<lparr>cat_next_table_id := new_id + 1\<rparr>;
            table_info = TableInfo_ctor new_id table_name schema first_page;
            names = (cat_table_names cat)(table_name \<mapsto> new_id)
        in if cat_tables cat new_id = None
           then (Inr new_id, cat\<lparr>cat_tables := (cat_tables cat)(new_id \<mapsto> table_info), cat_table_names := names\<rparr>)
           else (Inl Undefined, cat\<lparr>cat_table_names := names\<rparr>))"

definition GetTable :: "string \<Rightarrow> catalog \<Rightarrow> error + u32 option" where
  "GetTable table_name cat =
     (case cat_table_names cat table_name of
        Some i \<Rightarrow> (if cat_tables cat i = None then Inl Out_of_range else Inr (Some i))
      | None \<Rightarrow> Inr None)"

definition GetTable_by_id :: "u32 \<Rightarrow> catalog \<Rightarrow> u32 option" where
  "GetTable_by_id table_id cat = (if cat_tables cat table_id = None then None else Some table_id)"

text \<open>Access through a \<open>TableInfo*\<close>.\<close>

definition table_at :: "u32 \<Rightarrow> catalog \<Rightarrow> error + table_info" where
  "table_at p cat = (case cat_tables cat p of None \<Rightarrow> Inl Undefined | Some ti \<Rightarrow> Inr ti)"

definition UpdateFirstPageId :: "pageid \<Rightarrow> table_info \<Rightarrow> table_info" where
  "UpdateFirstPageId root ti = ti\<lparr>ti_first_page_id := root\<rparr>"

definition update_first_page :: "u32 \<Rightarrow> pageid \<Rightarrow> catalog \<Rightarrow> catalog" where
  "update_first_page p root cat =
     cat\<lparr>cat_tables := (cat_tables cat)(p := map_option (UpdateFirstPageId root) (cat_tables cat p))\<rparr>"

section \<open>Layout of a schema\<close>

abbreviation total_length :: "column list \<Rightarrow> nat" where
  "total_length cs \<equiv> sum_list (map (\<lambda>c. unat (col_length c)) cs)"

lemma assign_offsets_layout:
  assumes "assign_offsets off cs = (ds, e)" and "unat off + total_length cs < 2 ^ 32"
  shows "length ds = length cs" "unat e = unat off + total_length cs" "map col_length ds = map col_length cs"
    "map col_name ds = map col_name cs"
    "i < length cs \<Longrightarrow> unat (col_offset (ds ! i)) = unat off + total_length (take i cs)"
proof -
  have "length ds = length cs \<and> unat e = unat off + total_length cs \<and> map col_length ds = map col_length cs
      \<and> map col_name ds = map col_name cs
      \<and> (i < length cs \<longrightarrow> unat (col_offset (ds ! i)) = unat off + total_length (take i cs))"
    using assms
  proof (induction cs arbitrary: off ds i)
    case Nil
    then show ?case by simp
  next
    case (Cons c cs)
    have add: "unat (off + col_length c) = unat off + unat (col_length c)"
      using Cons.prems(2) by (simp add: unat_word_ariths)
    obtain es where es: "assign_offsets (off + col_length c) cs = (es, e)" "ds = SetOffset off c # es"
      using Cons.prems(1) by (auto simp: SetOffset_def split: prod.splits)
    have lt: "unat (off + col_length c) + total_length cs < 2 ^ 32" using Cons.prems(2) add by simp
    show ?case using Cons.IH [OF es(1) lt, of "i - 1"] es(2) add by (cases i) (auto simp: SetOffset_def)
  qed
  then show "length ds = length cs" "unat e = unat off + total_length cs" "map col_length ds = map col_length cs"
    "map col_name ds = map col_name cs"
    "i < length cs \<Longrightarrow> unat (col_offset (ds ! i)) = unat off + total_length (take i cs)" by auto
qed

lemma total_length_take:
  assumes "i < j" and "j \<le> length cs"
  shows "total_length (take i cs) + unat (col_length (cs ! i)) \<le> total_length (take j cs)"
  using assms
proof (induction cs arbitrary: i j)
  case (Cons c cs)
  then show ?case by (cases i; cases j) auto
qed simp

text \<open>The columns of a schema do not overlap: as long as the lengths add up to less than \<open>2 ^ 32\<close>,
  column \<open>i\<close> starts after the lengths of the columns before it, every column ends where or before the
  next ones start, the last one ends at the fixed tuple size, and names and lengths are those given.\<close>

theorem schema_layout:
  assumes "total_length cs < 2 ^ 32" and "i < length cs" and "s = Schema_ctor cs"
  shows "unat (col_offset (sc_columns s ! i)) = total_length (take i cs)
    \<and> col_length (sc_columns s ! i) = col_length (cs ! i) \<and> col_name (sc_columns s ! i) = col_name (cs ! i)
    \<and> (\<forall>j < length cs. i < j \<longrightarrow> unat (col_offset (sc_columns s ! i)) + unat (col_length (cs ! i))
         \<le> unat (col_offset (sc_columns s ! j)))
    \<and> unat (col_offset (sc_columns s ! i)) + unat (col_length (cs ! i)) \<le> unat (sc_tuple_fixed_size s)
    \<and> unat (sc_tuple_fixed_size s) = total_length cs"
proof -
  obtain ds e where d: "assign_offsets 0 cs = (ds, e)" by (cases "assign_offsets 0 cs")
  have s: "s = \<lparr>sc_columns = ds, sc_tuple_fixed_size = e\<rparr>" using assms(3) d by (simp add: Schema_ctor_def)
  have lt: "unat (0 :: u32) + total_length cs < 2 ^ 32" using assms(1) by simp
  note L = assign_offsets_layout [OF d lt]
  have "col_length (ds ! i) = col_length (cs ! i)" "col_name (ds ! i) = col_name (cs ! i)"
    using L(1,3,4) assms(2) by (metis nth_map)+
  then show ?thesis
    using L(2) L(5) [OF assms(2)] L(5) total_length_take [of i _ cs] total_length_take [of i "length cs" cs] assms(2)
    by (auto simp: s)
qed

theorem schema_layout_witness:
  "unat (col_offset (sc_columns (Schema_ctor [Column_ctor ''id'' T_INTEGER 4, Column_ctor ''name'' T_VARCHAR 255]) ! 1)) = 4
   \<and> sc_tuple_fixed_size (Schema_ctor [Column_ctor ''id'' T_INTEGER 4, Column_ctor ''name'' T_VARCHAR 255]) = 259"
  using schema_layout [of "[Column_ctor ''id'' T_INTEGER 4, Column_ctor ''name'' T_VARCHAR 255]" 1, OF _ _ refl]
  by (simp add: Column_ctor_def Schema_ctor_def SetOffset_def)

lemma find_column_spec:
  "find_column name k cs = (case List.find (\<lambda>i. col_name (cs ! i) = name) [0..<length cs] of
     None \<Rightarrow> None | Some i \<Rightarrow> Some (k + i))"
proof (induction cs arbitrary: k)
  case (Cons c cs)
  have "List.find (\<lambda>i. col_name ((c # cs) ! i) = name) (map Suc xs) =
      map_option Suc (List.find (\<lambda>i. col_name (cs ! i) = name) xs)" for xs
    by (induction xs) auto
  then show ?case
    using Cons [of "k + 1"]
    by (auto simp: upt_conv_Cons map_Suc_upt [symmetric] simp del: upt_Suc split: option.splits)
qed simp

text \<open>\<open>GetColIdx\<close> gives the index of the first column with the name, and throws exactly when no column
  has it.\<close>

theorem col_idx_first:
  "(GetColIdx s name = Inr i \<longleftrightarrow> i < length (sc_columns s) \<and> col_name (sc_columns s ! i) = name
      \<and> \<not> (\<exists>j < i. col_name (sc_columns s ! j) = name))
   \<and> ((\<exists>e. GetColIdx s name = Inl e) \<longleftrightarrow> name \<notin> set (map col_name (sc_columns s)))"
proof -
  let ?n = "length (sc_columns s)" and ?P = "\<lambda>i. col_name (sc_columns s ! i) = name"
  have f: "find_column name 0 (sc_columns s) = List.find ?P [0..<?n]"
    using find_column_spec [of name 0 "sc_columns s"] by (simp split: option.splits)
  have some: "List.find ?P [0..<?n] = Some i \<longleftrightarrow> i < ?n \<and> ?P i \<and> \<not> (\<exists>j < i. ?P j)" for i
    by (auto simp: find_Some_iff)
  have none: "List.find ?P [0..<?n] = None \<longleftrightarrow> name \<notin> set (map col_name (sc_columns s))"
    unfolding find_None_iff by (force simp: in_set_conv_nth)
  show ?thesis using some [of i] none f by (auto simp: GetColIdx_def split: option.splits)
qed

section \<open>The interface\<close>

text \<open>A directory of tables by name: \<open>dir\<close> is what the clients see, \<open>room\<close> that table numbers are not
  exhausted.\<close>

locale table_directory =
  fixes inv :: "'c \<Rightarrow> bool" and room :: "'c \<Rightarrow> bool" and dir :: "'c \<Rightarrow> string \<Rightarrow> table_info option"
    and create :: "string \<Rightarrow> schema \<Rightarrow> pageid \<Rightarrow> 'c \<Rightarrow> (error + u32) \<times> 'c"
    and get :: "string \<Rightarrow> 'c \<Rightarrow> error + u32 option" and at :: "u32 \<Rightarrow> 'c \<Rightarrow> error + table_info"
  assumes create_new: "inv c \<Longrightarrow> room c \<Longrightarrow> dir c name = None \<Longrightarrow>
      \<exists>i c'. create name s p c = (Inr i, c') \<and> inv c' \<and>
        dir c' = (dir c)(name \<mapsto> \<lparr>ti_id = i, ti_name = name, ti_schema = s, ti_first_page_id = p\<rparr>)"
    and create_dup: "inv c \<Longrightarrow> dir c name \<noteq> None \<Longrightarrow>
      create name s p c = (Inl (Runtime_error (''Table already exists: '' @ name)), c)"
    and get_dir: "inv c \<Longrightarrow> dir c name = None \<Longrightarrow> get name c = Inr None"
    and get_at: "inv c \<Longrightarrow> dir c name = Some ti \<Longrightarrow> get name c = Inr (Some (ti_id ti)) \<and> at (ti_id ti) c = Inr ti"
begin

lemma create_get:
  assumes "inv c" and "room c" and "dir c name = None"
  shows "\<exists>i c' ti. create name s p c = (Inr i, c') \<and> get name c' = Inr (Some i) \<and> at i c' = Inr ti
           \<and> ti_schema ti = s \<and> ti_first_page_id ti = p"
proof -
  obtain i c' where c: "create name s p c = (Inr i, c')" "inv c'"
      "dir c' = (dir c)(name \<mapsto> \<lparr>ti_id = i, ti_name = name, ti_schema = s, ti_first_page_id = p\<rparr>)"
    using create_new [OF assms] by blast
  show ?thesis using get_at [OF c(2), of name] c(1,3) by auto
qed

text \<open>A second table of the same name is refused, and the first one stays as it is.\<close>

lemma create_twice:
  assumes "inv c" and "room c" and "dir c name = None" and "create name s p c = (r, c')"
  shows "create name s' p' c' = (Inl (Runtime_error (''Table already exists: '' @ name)), c')"
  using create_new [OF assms(1-3), of s p] assms(4) create_dup [of c' name] by auto

end

definition cat_inv :: "catalog \<Rightarrow> bool" where
  "cat_inv cat \<longleftrightarrow> (\<forall>name i. cat_table_names cat name = Some i \<longrightarrow>
       (\<exists>ti. cat_tables cat i = Some ti \<and> ti_name ti = name \<and> ti_id ti = i))
     \<and> (\<forall>i ti. cat_tables cat i = Some ti \<longrightarrow> ti_id ti = i \<and> cat_table_names cat (ti_name ti) = Some i)"

definition cat_room :: "catalog \<Rightarrow> bool" where
  "cat_room cat \<longleftrightarrow> cat_tables cat (cat_next_table_id cat) = None"

definition cat_dir :: "catalog \<Rightarrow> string \<Rightarrow> table_info option" where
  "cat_dir cat name = Option.bind (cat_table_names cat name) (cat_tables cat)"

lemma cat_dir_None: "cat_inv cat \<Longrightarrow> cat_dir cat name = None \<longleftrightarrow> cat_table_names cat name = None"
  by (cases "cat_table_names cat name") (auto simp: cat_inv_def cat_dir_def)

lemma CreateTable_new:
  assumes inv: "cat_inv cat" and room: "cat_room cat" and new: "cat_dir cat name = None"
    and i_def: "i = cat_next_table_id cat"
    and cat'_def: "cat' = cat\<lparr>cat_next_table_id := i + 1, cat_tables := (cat_tables cat)(i \<mapsto> TableInfo_ctor i name s p),
      cat_table_names := (cat_table_names cat)(name \<mapsto> i)\<rparr>"
  shows "CreateTable name s p cat = (Inr i, cat')" "cat_inv cat'"
    "cat_dir cat' = (cat_dir cat)(name \<mapsto> TableInfo_ctor i name s p)"
proof -
  have n: "cat_table_names cat name = None" using inv new cat_dir_None by blast
  have fresh: "cat_table_names cat m \<noteq> Some i" for m
    using inv room by (fastforce simp: cat_inv_def cat_room_def i_def)
  show "CreateTable name s p cat = (Inr i, cat')"
    using n room by (simp add: CreateTable_def cat'_def i_def Let_def cat_room_def)
  have "ti_name ti \<noteq> name" if "cat_tables cat j = Some ti" for j ti
    using that inv n by (auto simp: cat_inv_def)
  then show "cat_inv cat'"
    using inv fresh unfolding cat_inv_def cat'_def by (auto simp: TableInfo_ctor_def)
  have "Option.bind (cat_table_names cat m) ((cat_tables cat)(i \<mapsto> ti)) = Option.bind (cat_table_names cat m) (cat_tables cat)" for m ti
    using fresh [of m] by (cases "cat_table_names cat m") auto
  then show "cat_dir cat' = (cat_dir cat)(name \<mapsto> TableInfo_ctor i name s p)"
    by (simp add: cat_dir_def cat'_def fun_eq_iff)
qed

interpretation tables: table_directory cat_inv cat_room cat_dir CreateTable GetTable table_at
proof
  fix c name s p ti
  show "\<exists>i c'. CreateTable name s p c = (Inr i, c') \<and> cat_inv c' \<and>
      cat_dir c' = (cat_dir c)(name \<mapsto> \<lparr>ti_id = i, ti_name = name, ti_schema = s, ti_first_page_id = p\<rparr>)"
    if "cat_inv c" "cat_room c" "cat_dir c name = None"
    using CreateTable_new [OF that refl refl, of s p] by (auto simp: TableInfo_ctor_def)
  show "CreateTable name s p c = (Inl (Runtime_error (''Table already exists: '' @ name)), c)"
    if "cat_inv c" "cat_dir c name \<noteq> None"
    using that cat_dir_None [of c name] by (simp add: CreateTable_def)
  show "GetTable name c = Inr None" if "cat_inv c" "cat_dir c name = None"
    using that cat_dir_None [of c name] by (simp add: GetTable_def)
  show "GetTable name c = Inr (Some (ti_id ti)) \<and> table_at (ti_id ti) c = Inr ti"
    if "cat_inv c" "cat_dir c name = Some ti"
    using that by (auto simp: GetTable_def table_at_def cat_inv_def cat_dir_def bind_eq_Some_conv)
qed

section \<open>The catalog as a map\<close>

fun create_all :: "(string \<times> schema \<times> pageid) list \<Rightarrow> catalog \<Rightarrow> catalog" where
  "create_all [] cat = cat"
| "create_all ((name, s, p) # ts) cat = create_all ts (snd (CreateTable name s p cat))"

definition ids_below :: "nat \<Rightarrow> catalog \<Rightarrow> bool" where
  "ids_below n cat \<longleftrightarrow> unat (cat_next_table_id cat) \<le> n \<and> (\<forall>i. cat_tables cat i \<noteq> None \<longrightarrow> unat i < unat (cat_next_table_id cat))"

lemma ids_below_room: "ids_below n cat \<Longrightarrow> cat_room cat"
  by (cases "cat_tables cat (cat_next_table_id cat)") (auto simp: ids_below_def cat_room_def)

text \<open>One creation: the first definition of a name wins.\<close>

lemma create_step:
  assumes inv: "cat_inv cat" and below: "ids_below n cat" and n: "Suc n < 2 ^ 32"
    and call: "cat' = snd (CreateTable name s p cat)"
  shows "cat_inv cat'" "ids_below (Suc n) cat'"
    "map_option (\<lambda>ti. (ti_schema ti, ti_first_page_id ti)) \<circ> cat_dir cat' =
       [name \<mapsto> (s, p)] ++ (map_option (\<lambda>ti. (ti_schema ti, ti_first_page_id ti)) \<circ> cat_dir cat)"
proof -
  have "cat_inv cat' \<and> ids_below (Suc n) cat' \<and>
      map_option (\<lambda>ti. (ti_schema ti, ti_first_page_id ti)) \<circ> cat_dir cat' =
        [name \<mapsto> (s, p)] ++ (map_option (\<lambda>ti. (ti_schema ti, ti_first_page_id ti)) \<circ> cat_dir cat)"
  proof (cases "cat_dir cat name")
    case None
    note C = CreateTable_new [OF inv ids_below_room [OF below] None refl refl, of s p]
    have "unat (cat_next_table_id cat + 1) = Suc (unat (cat_next_table_id cat))"
      using below n by (simp add: unat_word_ariths ids_below_def)
    then have "ids_below (Suc n) cat'" using below C(1) call by (auto simp: ids_below_def)
    then show ?thesis
      using C call None by (auto simp: fun_eq_iff map_add_def TableInfo_ctor_def split: option.splits)
  next
    case (Some ti)
    then have "cat' = cat" using call tables.create_dup [OF inv, of name s p] by simp
    then show ?thesis
      using inv below Some by (auto simp: ids_below_def fun_eq_iff map_add_def split: option.splits)
  qed
  then show "cat_inv cat'" "ids_below (Suc n) cat'"
    "map_option (\<lambda>ti. (ti_schema ti, ti_first_page_id ti)) \<circ> cat_dir cat' =
       [name \<mapsto> (s, p)] ++ (map_option (\<lambda>ti. (ti_schema ti, ti_first_page_id ti)) \<circ> cat_dir cat)"
    by auto
qed

lemma create_all_dir:
  assumes "cat_inv cat" and "ids_below n cat" and "n + length ts < 2 ^ 32"
  shows "cat_inv (create_all ts cat)"
    "map_option (\<lambda>ti. (ti_schema ti, ti_first_page_id ti)) \<circ> cat_dir (create_all ts cat) =
       map_of ts ++ (map_option (\<lambda>ti. (ti_schema ti, ti_first_page_id ti)) \<circ> cat_dir cat)"
proof -
  have "cat_inv (create_all ts cat) \<and>
    map_option (\<lambda>ti. (ti_schema ti, ti_first_page_id ti)) \<circ> cat_dir (create_all ts cat) =
       map_of ts ++ (map_option (\<lambda>ti. (ti_schema ti, ti_first_page_id ti)) \<circ> cat_dir cat)"
    using assms
  proof (induction ts arbitrary: cat n)
    case Nil
    then show ?case by simp
  next
    case (Cons t ts)
    obtain name s p where t: "t = (name, s, p)" by (cases t)
    note S = create_step [OF Cons.prems(1,2) _ refl, of name s p]
    show ?case
      using Cons.IH [OF S(1,2)] Cons.prems(3) S(3) t
      by (simp add: map_add_assoc [symmetric]) (simp add: fun_eq_iff map_add_def split: option.splits)
  qed
  then show "cat_inv (create_all ts cat)"
    "map_option (\<lambda>ti. (ti_schema ti, ti_first_page_id ti)) \<circ> cat_dir (create_all ts cat) =
       map_of ts ++ (map_option (\<lambda>ti. (ti_schema ti, ti_first_page_id ti)) \<circ> cat_dir cat)" by auto
qed

text \<open>(C25) The catalog is a map from names to tables in which the first creation of a name wins: after any
  sequence of (fewer than \<open>2 ^ 32\<close>) \<open>CreateTable\<close> calls, duplicates included, looking a name up gives the
  schema and the first page of its first creation, and null for a name never created.\<close>

theorem catalog_first_creation_wins:
  assumes "length ts < 2 ^ 32"
  shows "case map_of ts name of
      None \<Rightarrow> GetTable name (create_all ts CatalogManager_ctor) = Inr None
    | Some (s, p) \<Rightarrow> \<exists>i ti. GetTable name (create_all ts CatalogManager_ctor) = Inr (Some i)
        \<and> table_at i (create_all ts CatalogManager_ctor) = Inr ti \<and> ti_schema ti = s \<and> ti_first_page_id ti = p"
proof -
  let ?c = "create_all ts CatalogManager_ctor"
  have "cat_inv CatalogManager_ctor" "ids_below 0 CatalogManager_ctor" "cat_dir CatalogManager_ctor = Map.empty"
    by (auto simp: cat_inv_def ids_below_def cat_dir_def CatalogManager_ctor_def)
  then have c: "cat_inv ?c"
      "map_option (\<lambda>ti. (ti_schema ti, ti_first_page_id ti)) (cat_dir ?c name) = map_of ts name"
    using create_all_dir [of CatalogManager_ctor 0 ts] assms by (auto simp: fun_eq_iff map_add_def)
  show ?thesis
  proof (cases "cat_dir ?c name")
    case None
    then show ?thesis using c tables.get_dir [OF c(1) None] by simp
  next
    case (Some ti)
    have "map_of ts name = Some (ti_schema ti, ti_first_page_id ti)" using c(2) Some by simp
    then show ?thesis using tables.get_at [OF c(1) Some] by auto
  qed
qed

theorem catalog_first_creation_wins_witness:
  "\<exists>i ti. GetTable ''users'' (create_all [(''users'', Schema_ctor [], 7), (''users'', Schema_ctor [], 9)] CatalogManager_ctor) = Inr (Some i)
     \<and> table_at i (create_all [(''users'', Schema_ctor [], 7), (''users'', Schema_ctor [], 9)] CatalogManager_ctor) = Inr ti
     \<and> ti_first_page_id ti = 7"
  using catalog_first_creation_wins [of "[(''users'', Schema_ctor [], 7), (''users'', Schema_ctor [], 9)]" "''users''"]
  by auto

end
