(* ===== verification/Vectors.thy ===== *)
theory Vectors
  imports Catalog
begin

text \<open>
  Columnar data: the flat vector with its bit mask of nulls (\<^verbatim>\<open>src/execution/vector.h\<close>) and the tuple
  batch (\<^verbatim>\<open>src/execution/tuple_batch.h\<close>).  The element type of a vector is a type parameter, as in the
  source; the register load of the \<open>xsimd\<close> library is a parameter of \<open>LoadSIMD\<close>.  Indexing a \<open>std::vector\<close> out
  of range is undefined.  Columns of a batch are shared pointers, here values of a parameter type.
\<close>

section \<open>Flat vectors\<close>

record 'a flat_vector =
  fv_type :: TypeId
  fv_size :: nat
  fv_data :: "'a list"
  fv_null_mask :: "u64 list"

definition FlatVector_ctor :: "TypeId \<Rightarrow> nat \<Rightarrow> 'a flat_vector" where
  "FlatVector_ctor type capacity =
     \<lparr>fv_type = type, fv_size = 0, fv_data = [], fv_null_mask = replicate ((capacity + 63) div 64) 0\<rparr>"

text \<open>\<open>resize\<close> truncates or fills with the default value of the element type, the argument \<open>zero\<close>.\<close>

definition Resize :: "'a \<Rightarrow> nat \<Rightarrow> 'a flat_vector \<Rightarrow> 'a flat_vector" where
  "Resize zero n v = v\<lparr>fv_size := n, fv_data := take n (fv_data v) @ replicate (n - length (fv_data v)) zero\<rparr>"

definition SetNull :: "nat \<Rightarrow> bool \<Rightarrow> 'a flat_vector \<Rightarrow> error + 'a flat_vector" where
  "SetNull index is_null v =
     (let word_idx = index div 64; bit_idx = index mod 64; m = fv_null_mask v
      in if word_idx < length m
         then Inr (v\<lparr>fv_null_mask := m[word_idx :=
                (if is_null then or (m ! word_idx) (push_bit bit_idx 1)
                 else and (m ! word_idx) (not (push_bit bit_idx 1)))]\<rparr>)
         else Inl Undefined)"

definition IsNull :: "nat \<Rightarrow> 'a flat_vector \<Rightarrow> error + bool" where
  "IsNull index v =
     (let word_idx = index div 64; bit_idx = index mod 64; m = fv_null_mask v
      in if word_idx < length m then Inr (and (m ! word_idx) (push_bit bit_idx 1) \<noteq> 0) else Inl Undefined)"

text \<open>\<open>load_aligned\<close> gets the \<open>lanes\<close> elements at the address; they must exist, and the address must be a multiple of the register
  size (the data starts at one).\<close>

definition LoadSIMD :: "('a list \<Rightarrow> 'r) \<Rightarrow> nat \<Rightarrow> nat \<Rightarrow> 'a flat_vector \<Rightarrow> error + 'r" where
  "LoadSIMD load_aligned lanes offset v =
     (if offset + lanes \<le> length (fv_data v) \<and> lanes dvd offset
      then Inr (load_aligned (take lanes (drop offset (fv_data v)))) else Inl Undefined)"

section \<open>Tuple batches\<close>

record 'v tuple_batch =
  tb_num_rows :: u64
  tb_columns :: "'v list"

definition DEFAULT_BATCH_SIZE :: nat where
  "DEFAULT_BATCH_SIZE = 1024"

definition TupleBatch_ctor :: "'v tuple_batch" where
  "TupleBatch_ctor = \<lparr>tb_num_rows = 0, tb_columns = []\<rparr>"

text \<open>A batch of a given number of columns holds null pointers, the argument \<open>null\<close>.\<close>

definition TupleBatch_columns_ctor :: "'v \<Rightarrow> nat \<Rightarrow> 'v tuple_batch" where
  "TupleBatch_columns_ctor null n = \<lparr>tb_num_rows = 0, tb_columns = replicate n null\<rparr>"

definition AddColumn :: "'v \<Rightarrow> 'v tuple_batch \<Rightarrow> 'v tuple_batch" where
  "AddColumn c b = b\<lparr>tb_columns := tb_columns b @ [c]\<rparr>"

definition SetNumRows :: "u64 \<Rightarrow> 'v tuple_batch \<Rightarrow> 'v tuple_batch" where
  "SetNumRows n b = b\<lparr>tb_num_rows := n\<rparr>"

definition GetBatchColumn :: "nat \<Rightarrow> 'v tuple_batch \<Rightarrow> error + 'v" where
  "GetBatchColumn i b = (if i < length (tb_columns b) then Inr (tb_columns b ! i) else Inl Undefined)"

definition TupleBatch_Reset :: "'v tuple_batch \<Rightarrow> 'v tuple_batch" where
  "TupleBatch_Reset b = b\<lparr>tb_num_rows := 0\<rparr>"

section \<open>The null mask is an array of booleans\<close>

lemma IsNull_bit:
  "IsNull index v = (if index div 64 < length (fv_null_mask v)
     then Inr (bit (fv_null_mask v ! (index div 64)) (index mod 64)) else Inl Undefined)"
  by (simp add: IsNull_def Let_def bit_iff_and_push_bit_not_eq_0)

lemma set_mask_bit:
  "bit (if b then or w (push_bit i 1) else and w (not (push_bit i 1))) j = (if j = i then b else bit w j)"
  if "i < 64" "j < 64" for w :: u64
  using that by (auto simp: bit_simps)

text \<open>The packed mask of 64-bit words behaves as an array of booleans: for every index the vector was
  created for, \<open>SetNull\<close> succeeds, \<open>IsNull\<close> then returns what was set, and every other index keeps its
  value; a fresh vector has no nulls.\<close>

theorem null_mask_array:
  assumes "length (fv_null_mask v) = (capacity + 63) div 64" and "i < capacity" and "j < capacity"
  shows "(\<exists>v'. SetNull i b v = Inr v' \<and> length (fv_null_mask v') = (capacity + 63) div 64
            \<and> IsNull j v' = (if j = i then Inr b else IsNull j v))
    \<and> IsNull j (FlatVector_ctor ty capacity :: 'a flat_vector) = Inr False"
proof -
  have in_range: "k div 64 < (capacity + 63) div 64" if "k < capacity" for k
    using that by (simp add: less_eq_Suc_le div_le_mono flip: div_add_self2)
  have same: "j = i" if "j div 64 = i div 64" "j mod 64 = i mod 64"
    using that by (metis div_mult_mod_eq)
  show ?thesis
    using in_range [OF assms(2)] in_range [OF assms(3)] assms(1) same
    by (auto simp: SetNull_def Let_def IsNull_bit FlatVector_ctor_def nth_list_update set_mask_bit)
qed

theorem null_mask_array_witness:
  "\<exists>v'. SetNull 70 True (FlatVector_ctor T_INTEGER 1024 :: int flat_vector) = Inr v' \<and> IsNull 70 v' = Inr True"
  using null_mask_array [of "FlatVector_ctor T_INTEGER 1024 :: int flat_vector" 1024 70 70 True T_INTEGER]
  by (auto simp: FlatVector_ctor_def)

text \<open>\<open>Resize\<close> grows the data but not the mask: a vector of the default capacity resized to 1025
  elements has an element 1024 whose null bit lies outside the mask, so asking for it is undefined.\<close>

lemma resize_outgrows_mask:
  "let v = Resize zero 1025 (FlatVector_ctor T_INTEGER 1024)
   in fv_size v = 1025 \<and> length (fv_data v) = 1025 \<and> IsNull 1024 v = Inl Undefined \<and> SetNull 1024 b v = Inl Undefined"
  by (simp add: Let_def Resize_def FlatVector_ctor_def IsNull_def SetNull_def)

text \<open>Stepping through a vector one register at a time, as the filter's comment does, reads every element but the remainder
  of the last, partial register, in order.\<close>

lemma LoadSIMD_steps:
  assumes "i < length (fv_data v) div lanes"
  shows "LoadSIMD (\<lambda>xs. xs) lanes (i * lanes) v = Inr (take lanes (drop (i * lanes) (fv_data v)))"
proof -
  have "Suc i * lanes \<le> length (fv_data v) div lanes * lanes" using assms by (intro mult_le_mono1) simp
  also have "\<dots> \<le> length (fv_data v)" by simp
  finally show ?thesis by (simp add: LoadSIMD_def add.commute)
qed

lemma concat_chunks: "concat (map (\<lambda>i. take n (drop (i * n) xs)) [0..<m]) = take (m * n) xs"
proof (induction m)
  case (Suc m)
  then show ?case using take_add [of "m * n" n xs] by (simp add: add.commute)
qed simp

lemma LoadSIMD_covers:
  assumes "m \<le> length (fv_data v) div lanes"
  shows "\<exists>regs. map (\<lambda>i. LoadSIMD (\<lambda>xs. xs) lanes (i * lanes) v) [0..<m] = map Inr regs \<and> concat regs = take (m * lanes) (fv_data v)"
  using assms concat_chunks [of lanes "fv_data v" m] LoadSIMD_steps [of _ v lanes]
  by (intro exI [of _ "map (\<lambda>i. take lanes (drop (i * lanes) (fv_data v))) [0..<m]"]) simp

end
