(* ===== verification/Execution.thy ===== *)
theory Execution
  imports Buffer_Pool Slotted_Page Transaction_Manager Vectors
begin

text \<open>
  The instance (\<^verbatim>\<open>src/system/instance.h\<close>), the executor context and the operators of
  \<^verbatim>\<open>src/execution/executor.h\<close>, \<^verbatim>\<open>insert_executor.h\<close>, \<^verbatim>\<open>seq_scan_executor.h\<close> (and \<open>DummyValues\<close> of
  \<^verbatim>\<open>src/network/connection.h\<close>), and the binder of \<^verbatim>\<open>src/sql/binder.h\<close>.

  The operators form a class hierarchy in the source; here they are one datatype, with the fields of
  each class as arguments, and \<open>Init\<close> and \<open>Next\<close> are functions on it.  The instance owns every manager;
  the log manager is the one the transaction manager points to.  An operator works on page buffers
  through the frame the pool handed out.  A call gives its result, or the exception or undefined
  behaviour it ends with, together with the instance it leaves behind.
\<close>

section \<open>The instance\<close>

record 'd sting_instance =
  in_bpm :: "'d bpm"
  in_txn_manager :: txn_manager
  in_catalog :: catalog

definition StingInstance_ctor :: "'d bpm \<Rightarrow> 'd sting_instance" where
  "StingInstance_ctor bpm = \<lparr>in_bpm = bpm, in_txn_manager = TransactionManager_ctor LogManager_ctor,
     in_catalog = CatalogManager_ctor\<rparr>"

text \<open>Replacing the page object of a frame, and appending to the write set of a transaction.\<close>

definition set_page :: "nat \<Rightarrow> page \<Rightarrow> 'd sting_instance \<Rightarrow> 'd sting_instance" where
  "set_page f p inst = inst\<lparr>in_bpm := upd_page f (\<lambda>_. p) (in_bpm inst)\<rparr>"

definition log_insert :: "u64 \<Rightarrow> log_record \<Rightarrow> 'd sting_instance \<Rightarrow> u64 \<times> 'd sting_instance" where
  "log_insert txn rec inst =
     (let tm = in_txn_manager inst; (lsn, lm) = AppendLogRecord rec (tm_log tm)
      in (lsn, inst\<lparr>in_txn_manager := tm\<lparr>tm_log := lm,
           tm_txn_map := (tm_txn_map tm)(txn := map_option (AppendWriteSet lsn) (tm_txn_map tm txn))\<rparr>\<rparr>))"

section \<open>The binder\<close>

datatype StatementType = ST_CREATE_TABLE | ST_INSERT | ST_SELECT

text \<open>\<open>CreateStatement\<close> is the only statement class of the source; the other types have no class yet.\<close>

datatype SQLStatement = CreateStatement string "column list" | OtherStatement StatementType

fun Statement_GetType :: "SQLStatement \<Rightarrow> StatementType" where
  "Statement_GetType (CreateStatement name cols) = ST_CREATE_TABLE"
| "Statement_GetType (OtherStatement t) = t"

definition BindCreateTable :: "string \<Rightarrow> column list \<Rightarrow> catalog \<Rightarrow> (error + unit) \<times> catalog" where
  "BindCreateTable name cols cat =
     (case CreateTable name (Schema_ctor cols) INVALID_PAGE_ID cat of
        (Inl e, cat) \<Rightarrow> (Inl e, cat)
      | (Inr i, cat) \<Rightarrow> (Inr (), cat))"

fun BindStatement :: "SQLStatement \<Rightarrow> catalog \<Rightarrow> (error + unit) \<times> catalog" where
  "BindStatement (CreateStatement name cols) cat = BindCreateTable name cols cat"
| "BindStatement (OtherStatement t) cat =
     (if t = ST_CREATE_TABLE then (Inl Undefined, cat)
      else (Inl (Runtime_error ''Unsupported statement type for binding''), cat))"

section \<open>Operators\<close>

datatype exec_op =
    DummyValues bool
  | FilterExecutor exec_op
  | InsertExecutor exec_op string "u32 option"
  | SeqScanExecutor string "u32 option" pageid u32

definition InsertExecutor_ctor :: "exec_op \<Rightarrow> string \<Rightarrow> exec_op" where
  "InsertExecutor_ctor child name = InsertExecutor child name None"

definition SeqScanExecutor_ctor :: "string \<Rightarrow> exec_op" where
  "SeqScanExecutor_ctor name = SeqScanExecutor name None INVALID_PAGE_ID 0"

definition DummyValues_ctor :: exec_op where
  "DummyValues_ctor = DummyValues False"

definition seq_scan_init :: "string \<Rightarrow> catalog \<Rightarrow> error + exec_op" where
  [simp]: "seq_scan_init name cat =
     (case GetTable name cat of
        Inl e \<Rightarrow> Inl e
      | Inr None \<Rightarrow> Inl (Runtime_error (''Table not found: '' @ name))
      | Inr (Some p) \<Rightarrow> (case table_at p cat of
          Inl e \<Rightarrow> Inl e
        | Inr info \<Rightarrow> Inr (SeqScanExecutor name (Some p) (ti_first_page_id info) 0)))"

text \<open>\<open>Init\<close> of the operators: a filter initialises its child, and so does an insert before it looks up its
  table.\<close>

fun op_Init :: "exec_op \<Rightarrow> catalog \<Rightarrow> error + exec_op" where
  "op_Init (DummyValues is_done) cat = Inr (DummyValues is_done)"
| "op_Init (FilterExecutor child) cat = map_sum id FilterExecutor (op_Init child cat)"
| "op_Init (InsertExecutor child name ti) cat =
     (case op_Init child cat of
        Inl e \<Rightarrow> Inl e
      | Inr child \<Rightarrow> (case GetTable name cat of
          Inl e \<Rightarrow> Inl e
        | Inr None \<Rightarrow> Inl (Runtime_error (''Table not found for INSERT: '' @ name))
        | Inr (Some p) \<Rightarrow> Inr (InsertExecutor child name (Some p))))"
| "op_Init (SeqScanExecutor name ti pid slot) cat = seq_scan_init name cat"

text \<open>The row loop of \<open>InsertExecutor::Next\<close>; the page is the one in frame \<open>f\<close>, a null page is \<open>None\<close>.\<close>

fun insert_rows :: "u64 option \<Rightarrow> bytes \<Rightarrow> nat option \<Rightarrow> nat \<Rightarrow> 'd sting_instance \<Rightarrow> (error + unit) \<times> 'd sting_instance" where
  "insert_rows txn tuple fr 0 inst = (Inr (), inst)"
| "insert_rows txn tuple None (Suc n) inst = (Inl Undefined, inst)"
| "insert_rows txn tuple (Some f) (Suc n) inst =
     (case InsertTuple tuple (bp_pages (in_bpm inst) ! f) of
        Inl e \<Rightarrow> (Inl e, inst)
      | Inr (None, p) \<Rightarrow> (Inr (), set_page f p inst)
      | Inr (Some rid, p) \<Rightarrow>
          (case txn of
             None \<Rightarrow> insert_rows txn tuple (Some f) n (set_page f p inst)
           | Some t \<Rightarrow>
               (case tm_txn_map (in_txn_manager inst) t of
                  None \<Rightarrow> (Inl Undefined, set_page f p inst)
                | Some tx \<Rightarrow>
                    let rec = LogRecord_insert_ctor (tx_txn_id tx) (GetLSN p) LR_INSERT rid tuple;
                        (lsn, inst1) = log_insert t rec (set_page f p inst)
                    in insert_rows txn tuple (Some f) n (set_page f (SetLSN lsn p) inst1))))"

text \<open>The page \<open>InsertExecutor::Next\<close> writes to: the table's first page, or a new one that becomes it.\<close>

definition target_page :: "'d os \<Rightarrow> u32 \<Rightarrow> table_info \<Rightarrow> 'd sting_instance \<Rightarrow> (error + pageid \<times> nat option) \<times> 'd sting_instance" where
  "target_page os p info inst =
     (let page_id = ti_first_page_id info
      in if page_id = INVALID_PAGE_ID
         then (case NewPage os (in_bpm inst) of
             (Inl e, bpm) \<Rightarrow> (Inl e, inst\<lparr>in_bpm := bpm\<rparr>)
           | (Inr None, bpm) \<Rightarrow>
               (Inl Undefined, inst\<lparr>in_bpm := bpm, in_catalog := update_first_page p page_id (in_catalog inst)\<rparr>)
           | (Inr (Some (new_id, f)), bpm) \<Rightarrow>
               (Inr (new_id, Some f),
                set_page f (SP_Init (bp_pages bpm ! f))
                  (inst\<lparr>in_bpm := bpm, in_catalog := update_first_page p new_id (in_catalog inst)\<rparr>)))
         else (case FetchPage os page_id (in_bpm inst) of
             (Inl e, bpm) \<Rightarrow> (Inl e, inst\<lparr>in_bpm := bpm\<rparr>)
           | (Inr r, bpm) \<Rightarrow> (Inr (page_id, r), inst\<lparr>in_bpm := bpm\<rparr>)))"

definition unpin :: "bool \<Rightarrow> pageid \<Rightarrow> bool \<Rightarrow> 'd sting_instance \<Rightarrow> (error + bool) \<times> 'd sting_instance" where
  "unpin ndebug pid is_dirty inst =
     (case UnpinPage ndebug pid is_dirty (in_bpm inst) of (r, bpm) \<Rightarrow> (r, inst\<lparr>in_bpm := bpm\<rparr>))"

text \<open>\<open>Next\<close> gives whether a batch was produced, the operator and the batch afterwards.\<close>

definition seq_scan_next :: "'d os \<Rightarrow> bool \<Rightarrow> string \<Rightarrow> u32 option \<Rightarrow> pageid \<Rightarrow> u32 \<Rightarrow> 'd sting_instance
    \<Rightarrow> (error + bool \<times> u32) \<times> 'd sting_instance" where
  "seq_scan_next os ndebug name ti pid slot inst =
     (if ti = None \<or> pid = INVALID_PAGE_ID then (Inr (False, slot), inst)
      else case FetchPage os pid (in_bpm inst) of
          (Inl e, bpm) \<Rightarrow> (Inl e, inst\<lparr>in_bpm := bpm\<rparr>)
        | (Inr None, bpm) \<Rightarrow> (Inr (False, slot), inst\<lparr>in_bpm := bpm\<rparr>)
        | (Inr (Some f), bpm) \<Rightarrow>
            let inst = inst\<lparr>in_bpm := bpm\<rparr>; page = bp_pages bpm ! f
            in if ucast (GetTupleCount page) \<le> slot
               then (case unpin ndebug pid False inst of
                   (Inl e, inst) \<Rightarrow> (Inl e, inst)
                 | (Inr b, inst) \<Rightarrow> (Inr (False, slot), inst))
               else (case GetTuple \<lparr>rid_page_id = pid, rid_slot_num = slot\<rparr> page of
                   Inl e \<Rightarrow> (Inl e, inst)
                 | Inr tuple_data \<Rightarrow> (case unpin ndebug pid False inst of
                     (Inl e, inst) \<Rightarrow> (Inl e, inst)
                   | (Inr b, inst) \<Rightarrow> (Inr (True, slot + 1), inst))))"

definition dummy_next :: "bool \<Rightarrow> 'v tuple_batch \<Rightarrow> bool \<times> bool \<times> 'v tuple_batch" where
  [simp]: "dummy_next is_done out = (if is_done then (False, is_done, out) else (True, True, SetNumRows 1 out))"

text \<open>What \<open>InsertExecutor::Next\<close> does with the batch of its child, for the table at \<open>p\<close>.\<close>

definition insert_batch :: "'d os \<Rightarrow> bool \<Rightarrow> u64 option \<Rightarrow> u32 \<Rightarrow> 'v tuple_batch \<Rightarrow> 'd sting_instance
    \<Rightarrow> (error + bool) \<times> 'd sting_instance" where
  [simp]: "insert_batch os ndebug txn p input inst =
     (case table_at p (in_catalog inst) of
        Inl e \<Rightarrow> (Inl e, inst)
      | Inr info \<Rightarrow>
          (case target_page os p info inst of
             (Inl e, inst) \<Rightarrow> (Inl e, inst)
           | (Inr (page_id, fr), inst) \<Rightarrow>
               (case insert_rows txn (replicate (unat (sc_tuple_fixed_size (ti_schema info))) 0) fr
                       (unat (tb_num_rows input)) inst of
                  (Inl e, inst) \<Rightarrow> (Inl e, inst)
                | (Inr u, inst) \<Rightarrow>
                    (case unpin ndebug page_id True inst of
                       (Inl e, inst) \<Rightarrow> (Inl e, inst)
                     | (Inr b, inst) \<Rightarrow> (Inr False, inst)))))"

text \<open>\<open>Next\<close> of the operators.  The filter returns on the first batch of its child, and never fills its own.\<close>

fun op_Next :: "'d os \<Rightarrow> bool \<Rightarrow> u64 option \<Rightarrow> exec_op \<Rightarrow> 'v tuple_batch \<Rightarrow> 'd sting_instance
    \<Rightarrow> (error + bool \<times> exec_op \<times> 'v tuple_batch) \<times> 'd sting_instance" where
  "op_Next os ndebug txn (DummyValues is_done) out inst =
     (case dummy_next is_done out of (b, is_done, out) \<Rightarrow> (Inr (b, DummyValues is_done, out), inst))"
| "op_Next os ndebug txn (FilterExecutor child) out inst =
     (case op_Next os ndebug txn child (TupleBatch_ctor :: 'v tuple_batch) inst of
        (Inl e, inst) \<Rightarrow> (Inl e, inst)
      | (Inr (b, child, input), inst) \<Rightarrow> (Inr (b, FilterExecutor child, out), inst))"
| "op_Next os ndebug txn (InsertExecutor child name ti) out inst =
     (case ti of
        None \<Rightarrow> (Inr (False, InsertExecutor child name ti, out), inst)
      | Some p \<Rightarrow>
          (case op_Next os ndebug txn child (TupleBatch_ctor :: 'v tuple_batch) inst of
             (Inl e, inst) \<Rightarrow> (Inl e, inst)
           | (Inr (False, child, input), inst) \<Rightarrow> (Inr (False, InsertExecutor child name ti, out), inst)
           | (Inr (True, child, input), inst) \<Rightarrow>
               (case insert_batch os ndebug txn p input inst of
                  (Inl e, inst) \<Rightarrow> (Inl e, inst)
                | (Inr b, inst) \<Rightarrow> (Inr (b, InsertExecutor child name ti, out), inst))))"
| "op_Next os ndebug txn (SeqScanExecutor name ti pid slot) out inst =
     (case seq_scan_next os ndebug name ti pid slot inst of
        (Inl e, inst) \<Rightarrow> (Inl e, inst)
      | (Inr (b, slot), inst) \<Rightarrow> (Inr (b, SeqScanExecutor name ti pid slot, out), inst))"

end
