(* ===== verification/Connection.thy ===== *)
theory Connection
  imports Execution
begin

text \<open>
  The request handler of \<^verbatim>\<open>src/network/connection.h\<close>: the body of the read callback in \<open>DoRead\<close>, from the
  bytes received to the answer sent.  Requests are taken one at a time; sockets and the event loop of
  Boost.Asio around the handler are not modelled.  An exception derived from \<open>std::exception\<close> becomes an
  error answer; undefined behaviour, a failed \<open>assert\<close> and an endless loop end the handler with \<open>Inl\<close>.
\<close>

section \<open>Text\<close>

fun decimal :: "nat \<Rightarrow> string" where
  "decimal n = (if n < 10 then [char_of (48 + n)] else decimal (n div 10) @ [char_of (48 + n mod 10)])"

declare decimal.simps [simp del]

definition to_string :: "int \<Rightarrow> string" where
  "to_string i = (if i < 0 then ''-'' @ decimal (nat (- i)) else decimal (nat i))"

abbreviation newline :: string where
  "newline \<equiv> [CHR 0x0A]"

definition users_quoted :: string where
  "users_quoted = [CHR 0x27] @ ''users'' @ [CHR 0x27]"

text \<open>What \<open>e.what()\<close> gives for the exceptions of the source (for \<open>unordered_map::at\<close> it is the text of
  the standard library); the other errors are not exceptions.\<close>

fun what :: "error \<Rightarrow> string option" where
  "what (Runtime_error m) = Some m"
| "what Out_of_range = Some ''_Map_base::at''"
| "what _ = None"

section \<open>The statements\<close>

definition users_columns :: "column list" where
  "users_columns = [Column_ctor ''id'' T_INTEGER 4, Column_ctor ''name'' T_VARCHAR 255]"

definition do_create :: "'d sting_instance \<Rightarrow> (error + string) \<times> 'd sting_instance" where
  "do_create inst =
     (case BindStatement (CreateStatement ''users'' users_columns) (in_catalog inst) of
        (Inl e, cat) \<Rightarrow> (Inl e, inst\<lparr>in_catalog := cat\<rparr>)
      | (Inr u, cat) \<Rightarrow> (Inr (''Success: Table '' @ users_quoted @ '' created.'' @ newline), inst\<lparr>in_catalog := cat\<rparr>))"

definition begin_txn :: "'d sting_instance \<Rightarrow> (error + u64) \<times> 'd sting_instance" where
  "begin_txn inst = (case TM_Begin SNAPSHOT_ISOLATION (in_txn_manager inst) of
     (r, tm) \<Rightarrow> (r, inst\<lparr>in_txn_manager := tm\<rparr>))"

definition commit_txn :: "u64 \<Rightarrow> 'd sting_instance \<Rightarrow> (error + unit) \<times> 'd sting_instance" where
  "commit_txn txn inst = (case TM_Commit txn (in_txn_manager inst) of
     (r, tm) \<Rightarrow> (r, inst\<lparr>in_txn_manager := tm\<rparr>))"

definition do_insert :: "'d os \<Rightarrow> bool \<Rightarrow> 'd sting_instance \<Rightarrow> (error + string) \<times> 'd sting_instance" where
  "do_insert os ndebug inst =
     (case begin_txn inst of
        (Inl e, inst) \<Rightarrow> (Inl e, inst)
      | (Inr txn, inst) \<Rightarrow>
          (case op_Init (InsertExecutor_ctor DummyValues_ctor ''users'') (in_catalog inst) of
             Inl e \<Rightarrow> (Inl e, inst)
           | Inr exec \<Rightarrow>
               (case op_Next os ndebug (Some txn) exec (TupleBatch_ctor :: unit tuple_batch) inst of
                  (Inl e, inst) \<Rightarrow> (Inl e, inst)
                | (Inr r, inst) \<Rightarrow>
                    (case commit_txn txn inst of
                       (Inl e, inst) \<Rightarrow> (Inl e, inst)
                     | (Inr u, inst) \<Rightarrow>
                         (Inr (''Success: 1 row inserted into '' @ users_quoted @ ''.'' @ newline), inst)))))"

text \<open>\<open>while (scan_exec.Next(&out)) { count++; }\<close>\<close>

partial_function (option) scan_loop :: "'d os \<Rightarrow> bool \<Rightarrow> u64 option \<Rightarrow> exec_op \<Rightarrow> unit tuple_batch \<Rightarrow> i32
    \<Rightarrow> 'd sting_instance \<Rightarrow> ((error + i32) \<times> 'd sting_instance) option" where
  "scan_loop os ndebug txn exec out cnt inst =
     (case op_Next os ndebug txn exec out inst of
        (Inl e, inst) \<Rightarrow> Some (Inl e, inst)
      | (Inr (b, exec, out), inst) \<Rightarrow>
          if b then scan_loop os ndebug txn exec out (cnt + 1) inst else Some (Inr cnt, inst))"

definition do_select :: "'d os \<Rightarrow> bool \<Rightarrow> 'd sting_instance \<Rightarrow> (error + string) \<times> 'd sting_instance" where
  "do_select os ndebug inst =
     (case begin_txn inst of
        (Inl e, inst) \<Rightarrow> (Inl e, inst)
      | (Inr txn, inst) \<Rightarrow>
          (case op_Init (SeqScanExecutor_ctor ''users'') (in_catalog inst) of
             Inl e \<Rightarrow> (Inl e, inst)
           | Inr exec \<Rightarrow>
               (case scan_loop os ndebug (Some txn) exec TupleBatch_ctor 0 inst of
                  None \<Rightarrow> (Inl Nonterminating, inst)
                | Some (Inl e, inst) \<Rightarrow> (Inl e, inst)
                | Some (Inr cnt, inst) \<Rightarrow>
                    (case commit_txn txn inst of
                       (Inl e, inst) \<Rightarrow> (Inl e, inst)
                     | (Inr u, inst) \<Rightarrow>
                         (Inr (''Success: '' @ to_string (sint cnt) @ '' rows selected from '' @ users_quoted
                            @ ''.'' @ newline), inst)))))"

definition do_begin :: "'d sting_instance \<Rightarrow> (error + string) \<times> 'd sting_instance" where
  "do_begin inst =
     (case begin_txn inst of
        (Inl e, inst) \<Rightarrow> (Inl e, inst)
      | (Inr txn, inst) \<Rightarrow>
          (case tm_txn_map (in_txn_manager inst) txn of
             None \<Rightarrow> (Inl Undefined, inst)
           | Some t \<Rightarrow>
               (Inr (''Success: Transaction '' @ decimal (unat (tx_txn_id t)) @ '' started.'' @ newline), inst)))"

section \<open>Dispatch\<close>

definition has_prefix :: "string \<Rightarrow> string \<Rightarrow> bool" where
  "has_prefix p query \<longleftrightarrow> length p \<le> length query \<and> take (length p) query = p"

definition dispatch :: "'d os \<Rightarrow> bool \<Rightarrow> string \<Rightarrow> 'd sting_instance \<Rightarrow> (error + string) \<times> 'd sting_instance" where
  "dispatch os ndebug query inst =
     (if has_prefix ''CREATE TABLE'' query then do_create inst
      else if has_prefix ''INSERT'' query then do_insert os ndebug inst
      else if has_prefix ''SELECT'' query then do_select os ndebug inst
      else if has_prefix ''BEGIN'' query then do_begin inst
      else (Inr (''Error: Unsupported statement. Try CREATE TABLE or BEGIN.'' @ newline), inst))"

definition handle_query :: "'d os \<Rightarrow> bool \<Rightarrow> string \<Rightarrow> 'd sting_instance \<Rightarrow> (error + string) \<times> 'd sting_instance" where
  "handle_query os ndebug query inst =
     (case dispatch os ndebug query inst of
        (Inr response, inst) \<Rightarrow> (Inr response, inst)
      | (Inl e, inst) \<Rightarrow> (case what e of
          Some m \<Rightarrow> (Inr (''Error: '' @ m @ newline), inst)
        | None \<Rightarrow> (Inl e, inst)))"

definition MAX_LENGTH :: nat where
  "MAX_LENGTH = 8192"

text \<open>The bytes \<open>DoWriteAnswer\<close> sends.\<close>

definition DoWriteAnswer :: "string \<Rightarrow> string" where
  "DoWriteAnswer response = take (min (length response) MAX_LENGTH) response"

text \<open>One request of a connection, and a session of several.\<close>

definition serve :: "'d os \<Rightarrow> bool \<Rightarrow> string \<Rightarrow> 'd sting_instance \<Rightarrow> (error + string) \<times> 'd sting_instance" where
  "serve os ndebug query inst =
     (case handle_query os ndebug query inst of (r, inst) \<Rightarrow> (map_sum id DoWriteAnswer r, inst))"

fun session :: "'d os \<Rightarrow> bool \<Rightarrow> string list \<Rightarrow> 'd sting_instance \<Rightarrow> (error + string) list \<times> 'd sting_instance" where
  "session os ndebug [] inst = ([], inst)"
| "session os ndebug (q # qs) inst =
     (case serve os ndebug q inst of
        (Inl e, inst) \<Rightarrow> ([Inl e], inst)
      | (Inr a, inst) \<Rightarrow> (case session os ndebug qs inst of (as, inst) \<Rightarrow> (Inr a # as, inst)))"

end
