(* ===== verification/Pool_Properties.thy ===== *)
theory Pool_Properties
  imports Buffer_Pool
begin

text \<open>
  What the buffer pool promises to the layers above it, on any device that satisfies \<open>storage_device\<close>:
  it is indistinguishable from an array of pages (\<open>pool_transparent\<close>), it never loses a frame, never
  evicts a pinned page, and gives up only when every frame is pinned.  The last section shows where the
  code falls short: a failed read, a flush followed by an eviction, and the shutdown loop.
\<close>

section \<open>Concrete states\<close>

text \<open>A fresh simulated device that needs one extra poll per write, and a pool of \<open>n\<close> frames over it.\<close>

definition fresh_device :: simdev where
  "fresh_device = \<lparr>sd_blocks = \<lambda>_. [], sd_queue = [], sd_cq = [], sd_left = 0, sd_latency = 1\<rparr>"

definition fresh_pool :: "nat \<Rightarrow> simdev bpm" where
  "fresh_pool n = BufferPoolManager_ctor n
     \<lparr>dm_file_name = ''sting.db'', dm_fd = 3, dm_next_page_id = 0, dm_ring = fresh_device\<rparr>"

lemma coherent_ctor:
  assumes "phase (dm_ring dm) = Idle" and "dm_fd dm = fd"
  shows "coherent fd blocks phase {} (BufferPoolManager_ctor n dm)"
  using assms pool_invD(1) [OF pool_inv_ctor [of n dm]]
  by (simp add: coherent_def BufferPoolManager_ctor_def)

lemma fresh_coherent: "coherent 3 sim_blocks sim_phase {} (fresh_pool n)"
  unfolding fresh_pool_def by (rule coherent_ctor) (simp_all add: fresh_device_def)

lemmas run_sim = pool_run.simps pool_do.simps disciplined.simps
  fresh_pool_def fresh_device_def BufferPoolManager_ctor_def
  FetchPage_def NewPage_def UnpinPage_def acquire_frame_def upd_page_def frame_buffers_def
  AllocatePage_def ReadPage_def WritePageAsync_def RetrieveAsyncCompletions_def
  await_completion.simps reap_loop.simps sim_os_def pin_count_def SetDirty_def ResetMemory_def page_offset_inject Page_ctor_def Let_def upt_rec

section \<open>The pool as an array of pages\<close>

text \<open>(C3) On a storage device that keeps its contract, starting from any coherent state (a new pool is
  one), every sequence of fetches, allocations, buffer writes and unpins by disciplined clients is
  accepted by the array of pages: each page handed out has exactly the bytes last written to it, however
  often it was evicted, written back and read again in between, and so on for the state reached.\<close>

theorem pool_transparent:
  assumes "storage_device os fd blocks phase wait" and "coherent fd blocks phase W s"
    and "disciplined os ndebug as W s" and "pool_run os ndebug as s = (es, s')"
  shows "store_accepts es (contents blocks s) = Some (contents blocks s')"
  using storage_device.pool_run_accepted [OF assms] by (rule conjunct1)

definition demo_ops :: "pool_op list" where
  "demo_ops = [New_op, Write_op 0 (replicate PAGE_SIZE 7), Unpin_op 0 True, New_op, Unpin_op 1 True, Fetch_op 0]"

theorem pool_transparent_witness:
  "storage_device sim_os 3 sim_blocks sim_phase sd_left \<and> coherent 3 sim_blocks sim_phase {} (fresh_pool 1)
   \<and> disciplined sim_os False demo_ops {} (fresh_pool 1)
   \<and> last (fst (pool_run sim_os False demo_ops (fresh_pool 1))) = (Fetch_op 0, Got (Some (replicate PAGE_SIZE 7)))
   \<and> store_accepts (fst (pool_run sim_os False demo_ops (fresh_pool 1))) (contents sim_blocks (fresh_pool 1))
      = Some (contents sim_blocks (snd (pool_run sim_os False demo_ops (fresh_pool 1))))"
proof -
  have d: "disciplined sim_os False demo_ops {} (fresh_pool 1)"
    by (simp add: demo_ops_def run_sim)
  have l: "last (fst (pool_run sim_os False demo_ops (fresh_pool 1)))
      = (Fetch_op 0, Got (Some (replicate PAGE_SIZE 7)))"
    by (simp add: demo_ops_def run_sim)
  show ?thesis
    using d l pool_transparent [OF sim.storage_device_axioms fresh_coherent d, of _ _]
      sim.storage_device_axioms [of 3] fresh_coherent [of 1] by auto
qed

section \<open>Frames\<close>

lemma FetchPage_pinned:
  assumes safe: "pool_safe s" and res: "bp_page_table s q = Some f" "p_pin_count (bp_pages s ! f) \<noteq> 0"
    and call: "FetchPage os pid s = (r, s')"
  shows "bp_page_table s' q = Some f \<and> p_data (bp_pages s' ! f) = p_data (bp_pages s ! f)"
  using call
proof (cases rule: FetchPage_cases)
  case (hit g)
  then show ?thesis using res pool_safeD(1,8) [OF safe] by (auto simp: nth_upd_page)
next
  case (evict_error e)
  then show ?thesis using acquire_frame_error [OF safe evict_error(2)] res by auto
next
  case full
  then show ?thesis using res by simp
next
  case (read_error e g s1 dm)
  have t: "taken s g s1" using safe read_error(2) by (rule acquire_frame_Some)
  then have "g \<noteq> f" using res pool_safeD(10,11) [OF safe] by (auto simp: taken_def)
  then show ?thesis using t res read_error by (auto simp: taken_def upd_page_def)
next
  case (miss g s1 d dm)
  have t: "taken s g s1" using safe miss(2) by (rule acquire_frame_Some)
  then have "g \<noteq> f" using res pool_safeD(10,11) [OF safe] by (auto simp: taken_def)
  then show ?thesis using t res miss by (auto simp: taken_def)
qed

lemma NewPage_pinned:
  assumes safe: "pool_safe s" and res: "bp_page_table s q = Some f" "p_pin_count (bp_pages s ! f) \<noteq> 0"
    and call: "NewPage os s = (r, s')" and new: "bp_page_table s (dm_next_page_id (bp_disk s)) = None"
  shows "bp_page_table s' q = Some f \<and> p_data (bp_pages s' ! f) = p_data (bp_pages s ! f)"
  using call
proof (cases rule: NewPage_cases)
  case (evict_error e)
  then show ?thesis using acquire_frame_error [OF safe evict_error(1)] res by auto
next
  case full
  then show ?thesis using res by simp
next
  case (fresh g s1)
  have t: "taken s g s1" using safe fresh(1) by (rule acquire_frame_Some)
  then have "g \<noteq> f" using res pool_safeD(10,11) [OF safe] by (auto simp: taken_def)
  then show ?thesis using t res new fresh by (auto simp: taken_def)
qed

text \<open>(C6) A pinned page is never evicted or moved: whatever page is fetched or allocated, and whether
  the call returns, gives up or throws, the page stays in its frame with its bytes untouched, so the
  \<open>Page*\<close> a client holds remains valid.\<close>

theorem pinned_page_stays:
  assumes "pool_inv s" and "bp_page_table s q = Some f" and "p_pin_count (bp_pages s ! f) \<noteq> 0"
    and "FetchPage os pid s = (r, s') \<or>
         NewPage os s = (r', s') \<and> bp_page_table s (dm_next_page_id (bp_disk s)) = None"
  shows "bp_page_table s' q = Some f \<and> p_data (bp_pages s' ! f) = p_data (bp_pages s ! f)"
  using assms FetchPage_pinned [OF pool_invD(1) [OF assms(1)] assms(2,3)]
    NewPage_pinned [OF pool_invD(1) [OF assms(1)] assms(2,3)] by blast

text \<open>Page 0 is pinned, the only other frame is evicted for page 5.\<close>

definition busy_pool :: "simdev bpm" where
  "busy_pool = snd (pool_run sim_os False [New_op, New_op, Unpin_op 1 True] (fresh_pool (Suc (Suc 0))))"

lemma busy_pool_simps:
  "bp_page_table busy_pool 0 = Some 0" "p_pin_count (bp_pages busy_pool ! 0) = 1"
  "bp_page_table busy_pool 5 = None"
  by (simp_all add: busy_pool_def run_sim)

text \<open>Runs of disciplined calls that do not throw keep the invariant.\<close>

lemma pool_do_inv:
  assumes inv: "pool_inv s" and "client_ok a W s" and "pool_do os ndebug a s = (x, s')" and "\<And>e. x \<noteq> Threw e"
  shows "pool_inv s'"
proof (cases a)
  case (Fetch_op pid)
  then obtain r where "FetchPage os pid s = (Inr r, s')" using assms(3,4) by (auto split: prod.splits sum.splits)
  then show ?thesis using assms(2) Fetch_op by (intro FetchPage_inv [OF inv]) (auto simp: pin_count_def)
next
  case New_op
  then obtain r where "NewPage os s = (Inr r, s')" using assms(3,4) by (auto split: prod.splits sum.splits)
  then show ?thesis using assms(2) New_op by (intro NewPage_inv [OF inv]) auto
next
  case (Write_op pid d)
  then obtain f where f: "bp_page_table s pid = Some f" "p_pin_count (bp_pages s ! f) \<noteq> 0" "length d = PAGE_SIZE"
    using assms(2) by (auto simp: pin_count_def split: option.splits)
  show ?thesis
    using pool_step_inv [OF pool_step.client_write [OF f, of os ndebug False] inv] assms(3) Write_op f(1)
    by (simp add: upd_page_def)
next
  case (Unpin_op pid b)
  then obtain r where r: "UnpinPage ndebug pid b s = (Inr r, s')" using assms(3,4) by (auto split: prod.splits sum.splits)
  have "pinned s pid" using assms(2) Unpin_op by (auto simp: pin_count_def pinned_def split: option.splits)
  from pool_step.unpin [OF this r] show ?thesis using inv by (rule pool_step_inv)
qed

lemma pool_run_inv:
  assumes "pool_inv s" and "disciplined os ndebug as W s" and "pool_run os ndebug as s = (es, s')"
    and "\<And>a e. (a, Threw e) \<notin> set es"
  shows "pool_inv s'"
  using assms
proof (induction as arbitrary: s W es)
  case Nil
  then show ?case by simp
next
  case (Cons a as)
  obtain x s1 where d: "pool_do os ndebug a s = (x, s1)" by (cases "pool_do os ndebug a s")
  obtain ys where r: "pool_run os ndebug as s1 = (ys, s')" and es: "es = (a, x) # ys"
    using Cons.prems(3) d by (auto split: prod.splits)
  have "pool_inv s1" using pool_do_inv [OF Cons.prems(1) _ d] Cons.prems(2,4) es by auto
  then show ?case using Cons.IH [of s1 _ ys] Cons.prems(2,4) d r es by auto
qed

lemma busy_pool_inv: "pool_inv busy_pool"
proof (rule pool_run_inv)
  show "pool_inv (fresh_pool (Suc (Suc 0)))" unfolding fresh_pool_def by (rule pool_inv_ctor)
  show "disciplined sim_os False [New_op, New_op, Unpin_op 1 True] {} (fresh_pool (Suc (Suc 0)))"
    by (simp add: run_sim)
  show "pool_run sim_os False [New_op, New_op, Unpin_op 1 True] (fresh_pool (Suc (Suc 0))) =
      (fst (pool_run sim_os False [New_op, New_op, Unpin_op 1 True] (fresh_pool (Suc (Suc 0)))), busy_pool)"
    by (simp add: busy_pool_def)
qed (simp add: run_sim)

theorem pinned_page_stays_witness:
  "pool_inv busy_pool \<and> bp_page_table busy_pool 0 = Some 0 \<and> p_pin_count (bp_pages busy_pool ! 0) \<noteq> 0 \<and>
   fst (FetchPage sim_os 5 busy_pool) = Inr (Some 1) \<and>
   bp_page_table (snd (FetchPage sim_os 5 busy_pool)) 0 = Some 0"
proof -
  have "fst (FetchPage sim_os 5 busy_pool) = Inr (Some 1)"
    by (simp add: busy_pool_def run_sim)
  moreover obtain r s' where call: "FetchPage sim_os 5 busy_pool = (r, s')"
    by (cases "FetchPage sim_os 5 busy_pool")
  ultimately show ?thesis
    using busy_pool_inv busy_pool_simps pinned_page_stays [OF busy_pool_inv _ _ disjI1 [OF call], of 0 0] by simp
qed

text \<open>The frames that are out of reach: neither free, nor resident and pinned or evictable.\<close>

definition lost :: "'d bpm \<Rightarrow> nat set" where
  "lost s = {f. f < bp_pool_size s \<and> \<not> frame_kept s f}"

lemma lost_finite [simp]: "finite (lost s)"
  by (simp add: lost_def)

lemma lost_step:
  assumes "bp_pool_size s' = bp_pool_size s" and "\<And>g. g < bp_pool_size s \<Longrightarrow> g \<notin> X \<Longrightarrow> frame_kept s g \<Longrightarrow> frame_kept s' g"
  shows "lost s' \<subseteq> lost s \<union> X"
  using assms by (auto simp: lost_def)

lemma throw_loses_one:
  assumes "bp_pool_size s' = bp_pool_size s \<and> (\<exists>f. \<forall>g. g \<noteq> f \<longrightarrow> frame_kept s g \<longrightarrow> frame_kept s' g)"
  shows "card (lost s') \<le> Suc (card (lost s))"
proof -
  obtain f where "bp_pool_size s' = bp_pool_size s" "\<And>g. g \<noteq> f \<Longrightarrow> frame_kept s g \<Longrightarrow> frame_kept s' g" using assms by blast
  then have "lost s' \<subseteq> insert f (lost s)" using lost_step [of s' s "{f}"] by auto
  then have "card (lost s') \<le> card (insert f (lost s))" by (intro card_mono) simp_all
  also have "\<dots> \<le> Suc (card (lost s))" by (rule card_insert_le_m1) simp_all
  finally show ?thesis .
qed

lemma history_keeps: "pool_history os ndebug n dm k s \<Longrightarrow> pool_safe s \<and> bp_pool_size s = n \<and> card (lost s) \<le> k"
proof (induction rule: pool_history.induct)
  case start
  have "lost (BufferPoolManager_ctor n dm) = {}" using pool_inv_ctor [of n dm] by (auto simp: lost_def pool_inv_def)
  then show ?case using pool_invD(1) [OF pool_inv_ctor] by (simp add: BufferPoolManager_ctor_def)
next
  case (returns k s s')
  note S = pool_step_kept [OF returns.hyps(2) conjunct1 [OF returns.IH]]
  have "lost s' \<subseteq> lost s" using S lost_step [of s' s "{}"] by auto
  then show ?case using S returns.IH card_mono [of "lost s" "lost s'"] by simp
next
  case (fetch_throws k s pid e s')
  then show ?case using FetchPage_throws [of s os pid e s'] throw_loses_one [of s' s] by simp
next
  case (new_page_throws k s e s')
  then show ?case using NewPage_throws [of s os e s'] throw_loses_one [of s' s] by simp
qed

text \<open>(C5) The pool in every state that clients reach who respect the protocol (unpin and write only what is pinned, no overflow of
  a pin count, allocated numbers not resident), on any device, calls that throw included: table and frames agree, free
  list and replacer are disjoint and without repetition, and at most as many frames are out of reach as calls of
  \<open>FetchPage\<close> and \<open>NewPage\<close> have thrown.  So without exceptions no frame is ever lost: each is free, or resident and either
  pinned or evictable.\<close>

theorem frames_lost_by_throws_only:
  assumes "pool_history os ndebug n dm k s"
  shows "pool_safe s \<and> bp_pool_size s = n \<and> card (lost s) \<le> k \<and> (k = 0 \<longrightarrow> pool_inv s)"
proof -
  note H = history_keeps [OF assms]
  have "pool_inv s" if "k = 0"
  proof -
    have "lost s = {}" using H that by simp
    then show ?thesis using H by (auto simp: lost_def pool_inv_def)
  qed
  then show ?thesis using H by blast
qed

text \<open>A device whose reads fail.\<close>

definition broken_os :: "simdev os" where
  "broken_os = sim_os\<lparr>os_pread := \<lambda>m d fd n off. (None, d)\<rparr>"

text \<open>An allocation, then a fetch that throws and loses the other frame.\<close>

theorem frames_lost_by_throws_only_witness:
  "\<exists>s1 e s2. NewPage broken_os (fresh_pool (Suc (Suc 0))) = (Inr (Some (0, 0)), s1) \<and> pool_inv s1
    \<and> FetchPage broken_os 5 s1 = (Inl e, s2) \<and> pool_safe s2 \<and> card (lost s2) = 1"
proof -
  let ?s0 = "fresh_pool (Suc (Suc 0))"
  obtain s1 where 1: "NewPage broken_os ?s0 = (Inr (Some (0, 0)), s1)" by (simp add: run_sim broken_os_def)
  have h1: "pool_history broken_os False (Suc (Suc 0)) (bp_disk ?s0) 0 s1"
  proof (rule pool_history.returns [OF pool_history.start pool_step.new_page])
    show "NewPage broken_os (BufferPoolManager_ctor (Suc (Suc 0)) (bp_disk ?s0)) = (Inr (Some (0, 0)), s1)"
      using 1 by (simp add: fresh_pool_def BufferPoolManager_ctor_def)
  qed (simp add: run_sim)
  obtain e s2 where 2: "FetchPage broken_os 5 s1 = (Inl e, s2)" "e \<noteq> Nonterminating" "1 \<in> lost s2"
    using 1 by (auto simp: run_sim broken_os_def lost_def frame_kept_def)
  have h2: "pool_history broken_os False (Suc (Suc 0)) (bp_disk ?s0) (Suc 0) s2" by (rule pool_history.fetch_throws [OF h1 2(1,2)])
  have "0 < card (lost s2)" using 2(3) by (auto simp: card_gt_0_iff)
  then show ?thesis using 1 2(1) frames_lost_by_throws_only [OF h1] frames_lost_by_throws_only [OF h2] by auto
qed

lemma FetchPage_None:
  assumes "bp_page_table s pid = None"
  shows "FetchPage os pid s = (Inr None, s') \<longleftrightarrow> s' = s \<and> bp_free s = [] \<and> bp_lru s = []"
  using assms acquire_frame_None [of os s]
  by (auto simp: FetchPage_def Let_def split: prod.splits sum.splits option.splits)

lemma NewPage_None: "NewPage os s = (Inr None, s') \<longleftrightarrow> s' = s \<and> bp_free s = [] \<and> bp_lru s = []"
  using acquire_frame_None [of os s]
  by (auto simp: NewPage_def Let_def split: prod.splits sum.splits option.splits)

lemma no_frame_iff:
  assumes inv: "pool_inv s"
  shows "bp_free s = [] \<and> bp_lru s = [] \<longleftrightarrow> (\<forall>f < bp_pool_size s. pinned s (p_page_id (bp_pages s ! f)) \<and> f \<notin> set (bp_free s))"
    (is "?l \<longleftrightarrow> ?r")
proof
  assume ?l
  then show ?r using pool_invD(2) [OF inv] by (auto simp: frame_kept_def pinned_def)
next
  assume r: ?r
  note D = pool_safeD [OF pool_invD(1) [OF inv]]
  have "f \<notin> set (bp_free s)" "f \<notin> set (bp_lru s)" for f
    using r D(6,7,11,12) [of f] by (auto simp: pinned_def)
  then show ?l by (metis list.set_intros(1) neq_Nil_conv)
qed

text \<open>(C33) In a pool that satisfies \<open>pool_inv\<close> (no frame was lost by a call that threw), \<open>FetchPage\<close> of a page that is
  not resident gives \<open>nullptr\<close> if and only if every frame holds a
  pinned page, and \<open>NewPage\<close> likewise; in that case nothing changes.\<close>

theorem pool_full_iff:
  assumes "pool_inv s" and "bp_page_table s pid = None"
  shows "(FetchPage os pid s = (Inr None, s') \<longleftrightarrow>
           s' = s \<and> (\<forall>f < bp_pool_size s. pinned s (p_page_id (bp_pages s ! f)) \<and> f \<notin> set (bp_free s)))
    \<and> (NewPage os s = (Inr None, s') \<longleftrightarrow> FetchPage os pid s = (Inr None, s'))"
  using FetchPage_None [OF assms(2)] NewPage_None no_frame_iff [OF assms(1)] by blast

definition full_pool :: "simdev bpm" where
  "full_pool = snd (pool_run sim_os False [New_op] (fresh_pool 1))"

theorem pool_full_iff_witness:
  "pool_inv full_pool \<and> bp_page_table full_pool 5 = None \<and> FetchPage sim_os 5 full_pool = (Inr None, full_pool)
   \<and> NewPage sim_os full_pool = (Inr None, full_pool)"
proof -
  have inv: "pool_inv full_pool"
  proof (rule pool_run_inv)
    show "pool_inv (fresh_pool 1)" unfolding fresh_pool_def by (rule pool_inv_ctor)
    show "disciplined sim_os False [New_op] {} (fresh_pool 1)" by (simp add: run_sim)
    show "pool_run sim_os False [New_op] (fresh_pool 1) =
        (fst (pool_run sim_os False [New_op] (fresh_pool 1)), full_pool)"
      by (simp add: full_pool_def)
  qed (simp add: run_sim)
  have none: "bp_page_table full_pool 5 = None" by (simp add: full_pool_def run_sim)
  have "\<forall>f < bp_pool_size full_pool. pinned full_pool (p_page_id (bp_pages full_pool ! f)) \<and> f \<notin> set (bp_free full_pool)"
    by (simp add: full_pool_def run_sim pinned_def)
  then show ?thesis using pool_full_iff [OF inv none, of sim_os full_pool] inv none by simp
qed

section \<open>Progress\<close>

text \<open>(C7) Fetching succeeds: on a storage device that keeps its contract (submitted writes complete without error) and whose
  reads of the page do not fail, in a coherent pool that satisfies \<open>pool_inv\<close> and has no write under way, when the page's pin
  count does not wrap and the page is resident or some frame is free or unpinned, \<open>FetchPage\<close> returns a page with the content the store has for it.  In
  particular the loop that polls for the completion of the victim's write ends.\<close>

theorem fetch_succeeds:
  assumes dev: "storage_device os fd blocks phase wait" and c: "coherent fd blocks phase W s" and inv: "pool_inv s"
    and reads: "\<And>m d. phase d = Idle \<Longrightarrow> fst (os_pread os m d fd PAGE_SIZE (page_offset pid)) \<noteq> None"
    and room: "pin_count s pid + 1 \<noteq> 0"
      "bp_page_table s pid = None \<Longrightarrow> \<exists>f < bp_pool_size s. \<not> pinned s (p_page_id (bp_pages s ! f))"
  shows "\<exists>f s'. FetchPage os pid s = (Inr (Some f), s') \<and> bp_page_table s' pid = Some f
           \<and> p_data (bp_pages s' ! f) = contents blocks s pid"
proof -
  obtain r s' where call: "FetchPage os pid s = (r, s')" by (cases "FetchPage os pid s")
  have "\<exists>f. r = Inr (Some f)"
    using call
  proof (cases rule: FetchPage_cases)
    case (evict_error e)
    then show ?thesis using storage_device.acquire_coherent [OF dev c] by auto
  next
    case full
    then show ?thesis using room(2) no_frame_iff [OF inv] by auto
  next
    case (read_error e f s1 dm)
    have "coherent fd blocks phase W s1" using storage_device.acquire_coherent [OF dev c] read_error(2) by auto
    then show ?thesis
      using reads [of "dm_ring (bp_disk s1)" "frame_buffers (upd_page f ResetMemory s1)"] read_error(3)
      by (auto simp: coherent_def ReadPage_def Let_def split: prod.splits option.splits)
  qed auto
  moreover have "p_pin_count (bp_pages s ! f) + 1 \<noteq> 0" if "bp_page_table s pid = Some f" for f
    using room(1) that by (simp add: pin_count_def)
  note storage_device.fetch_coherent(3) [OF dev c call this]
  ultimately show ?thesis using call by blast
qed

text \<open>One frame, holding page 0 dirty and unpinned: fetching page 5 writes it back and polls twice.\<close>

definition dirty_ops :: "pool_op list" where
  "dirty_ops = [New_op, Write_op 0 (replicate PAGE_SIZE 7), Unpin_op 0 True]"

definition dirty_pool :: "simdev bpm" where
  "dirty_pool = snd (pool_run sim_os False dirty_ops (fresh_pool 1))"

lemma dirty_run: "pool_run sim_os False dirty_ops (fresh_pool 1) =
  ([(New_op, Allocated (Some 0)), (Write_op 0 (replicate PAGE_SIZE 7), Done), (Unpin_op 0 True, Done)], dirty_pool)"
  by (simp add: dirty_pool_def dirty_ops_def run_sim)

lemma dirty_disciplined: "disciplined sim_os False dirty_ops {} (fresh_pool 1)"
  by (simp add: dirty_ops_def run_sim)

lemma dirty_pool_ok: "pool_inv dirty_pool" "coherent 3 sim_blocks sim_phase {} dirty_pool"
  using pool_run_inv [OF _ dirty_disciplined dirty_run] pool_inv_ctor
    sim.pool_run_accepted [OF fresh_coherent dirty_disciplined dirty_run]
  by (auto simp: fresh_pool_def)

theorem fetch_succeeds_witness:
  "storage_device sim_os 3 sim_blocks sim_phase sd_left \<and> coherent 3 sim_blocks sim_phase {} dirty_pool
   \<and> pool_inv dirty_pool \<and> bp_page_table dirty_pool 5 = None
   \<and> (\<exists>f s'. FetchPage sim_os 5 dirty_pool = (Inr (Some f), s') \<and> bp_page_table s' 5 = Some f
        \<and> p_data (bp_pages s' ! f) = contents sim_blocks dirty_pool 5)"
proof -
  have none: "bp_page_table dirty_pool 5 = None" by (simp add: dirty_pool_def dirty_ops_def run_sim)
  have room: "\<exists>f < bp_pool_size dirty_pool. \<not> pinned dirty_pool (p_page_id (bp_pages dirty_pool ! f))"
    by (simp add: dirty_pool_def dirty_ops_def run_sim pinned_def)
  have "\<exists>f s'. FetchPage sim_os 5 dirty_pool = (Inr (Some f), s') \<and> bp_page_table s' 5 = Some f
      \<and> p_data (bp_pages s' ! f) = contents sim_blocks dirty_pool 5"
  proof (rule fetch_succeeds [OF sim.storage_device_axioms dirty_pool_ok(2,1)])
    show "fst (os_pread sim_os m d 3 PAGE_SIZE (page_offset 5)) \<noteq> None" for m d by (simp add: sim_os_def)
  qed (use none room in \<open>simp_all add: pin_count_def\<close>)
  then show ?thesis using none dirty_pool_ok sim.storage_device_axioms [of 3] by simp
qed

section \<open>Error paths\<close>

text \<open>(C34) Also when a call throws (a full submission queue, a failed read) or aborts, the page table still
  points only at frames that hold the page it says, and the replacer at unpinned resident frames: no
  exception makes the pool hand out the wrong page.\<close>

theorem pool_safe_always:
  assumes "pool_safe s"
    and "FetchPage os pid s = (r1, s') \<or> FlushPage os pid s = (r2, s')
       \<or> pinned s pid \<and> UnpinPage ndebug pid b s = (r3, s')
       \<or> bp_page_table s (dm_next_page_id (bp_disk s)) = None \<and> NewPage os s = (r4, s')"
  shows "pool_safe s'"
  using assms(2)
proof (elim disjE conjE)
  assume "pinned s pid" "UnpinPage ndebug pid b s = (r3, s')"
  then show ?thesis by (intro UnpinPage_inv(1) [OF assms(1)]) (auto simp: pinned_def)
qed (use assms(1) in \<open>auto intro: FetchPage_safe FlushPage_inv(1) NewPage_safe\<close>)

theorem pool_safe_always_witness:
  "pool_safe (fresh_pool 1)
   \<and> fst (FetchPage broken_os 5 (fresh_pool 1)) = Inl (Runtime_error ''DiskManager: failed to read page'')
   \<and> pool_safe (snd (FetchPage broken_os 5 (fresh_pool 1)))"
proof -
  obtain r s' where call: "FetchPage broken_os 5 (fresh_pool 1) = (r, s')"
    by (cases "FetchPage broken_os 5 (fresh_pool 1)")
  have safe: "pool_safe (fresh_pool 1)" using fresh_coherent [of 1] by (simp add: coherent_def)
  have "fst (FetchPage broken_os 5 (fresh_pool 1)) = Inl (Runtime_error ''DiskManager: failed to read page'')"
    by (simp add: run_sim broken_os_def)
  then show ?thesis using safe call pool_safe_always [OF safe disjI1 [OF call]] by simp
qed

section \<open>Where the code falls short\<close>

text \<open>A failed read leaks a frame: when \<open>ReadPage\<close> throws inside \<open>FetchPage\<close>, the frame taken for the
  page is afterwards neither free, nor resident, nor in the replacer, although nobody holds it.\<close>

theorem failed_read_leaks_frame:
  assumes "pool_safe s" and "bp_page_table s pid = None" and "acquire_frame os s = (Inr (Some f), s1)"
    and "fst (ReadPage os (frame_buffers (upd_page f ResetMemory s1)) pid (bp_disk s1)) = Inl e"
  shows "\<exists>s'. FetchPage os pid s = (Inl e, s') \<and> f < bp_pool_size s' \<and> f \<notin> set (bp_free s') \<and> f \<notin> set (bp_lru s')
           \<and> (\<forall>q. bp_page_table s' q \<noteq> Some f)"
proof -
  have t: "taken s f s1" using assms(1,3) by (rule acquire_frame_Some)
  obtain dm where "ReadPage os (frame_buffers (upd_page f ResetMemory s1)) pid (bp_disk s1) = (Inl e, dm)"
    using assms(4) by (cases "ReadPage os (frame_buffers (upd_page f ResetMemory s1)) pid (bp_disk s1)") auto
  then have "FetchPage os pid s = (Inl e, (upd_page f ResetMemory s1)\<lparr>bp_disk := dm\<rparr>)"
    using assms(2,3) by (simp add: FetchPage_def Let_def)
  then show ?thesis using t by (auto simp: taken_def)
qed

theorem failed_read_leaks_frame_witness:
  "fst (FetchPage broken_os 5 (fresh_pool 1)) = Inl (Runtime_error ''DiskManager: failed to read page'')
   \<and> 0 \<notin> set (bp_free (snd (FetchPage broken_os 5 (fresh_pool 1))))
   \<and> fst (NewPage broken_os (snd (FetchPage broken_os 5 (fresh_pool 1)))) = Inr None"
proof -
  have "pool_safe (fresh_pool 1)" using fresh_coherent [of 1] by (simp add: coherent_def)
  then have "\<exists>s'. FetchPage broken_os 5 (fresh_pool 1) = (Inl (Runtime_error ''DiskManager: failed to read page''), s')
      \<and> 0 < bp_pool_size s' \<and> 0 \<notin> set (bp_free s') \<and> 0 \<notin> set (bp_lru s') \<and> (\<forall>q. bp_page_table s' q \<noteq> Some 0)"
    by (rule failed_read_leaks_frame [where ?s1.0 = "(fresh_pool 1)\<lparr>bp_free := []\<rparr>"])
      (simp_all add: run_sim broken_os_def)
  moreover have "fst (NewPage broken_os (snd (FetchPage broken_os 5 (fresh_pool 1)))) = Inr None"
    by (simp add: run_sim broken_os_def)
  ultimately show ?thesis by auto
qed

text \<open>\<open>FlushAllPages\<close> does not wait for its writes: its last loop polls the completion queue exactly
  once, because the number of completions is never negative.  On a device that needs a moment for a
  write, the dirty page 0 is still not on disk, and no longer marked dirty, when it returns.\<close>

theorem flush_all_polls_once:
  "drain_loop os m dm = map_option snd (RetrieveAsyncCompletions os m dm)
   \<and> fst (FlushAllPages sim_os [0] dirty_pool) = Inr ()
   \<and> sim_blocks (dm_ring (bp_disk (snd (FlushAllPages sim_os [0] dirty_pool)))) 0 = replicate PAGE_SIZE 0
   \<and> contents sim_blocks dirty_pool 0 = replicate PAGE_SIZE 7
   \<and> \<not> p_is_dirty (bp_pages (snd (FlushAllPages sim_os [0] dirty_pool)) ! 0)"
proof -
  have "drain_loop os m dm = map_option snd (RetrieveAsyncCompletions os m dm)"
    by (subst drain_loop.simps) (auto split: Option.bind_splits)
  then show ?thesis
    by (simp add: dirty_pool_def dirty_ops_def run_sim FlushAllPages_def FlushPage_def drain_loop.simps
        sim_blocks_def contents_def)
qed

text \<open>\<open>FlushPage\<close> clears the dirty flag while the write still reads the frame.  When the frame is then
  taken for another page, the write stores that page's bytes: after flushing page 0, fetching page 5 into
  the same frame, unpinning it, letting the device finish and fetching page 0 again, page 0 is empty
  instead of holding the bytes that were flushed.\<close>

theorem flush_then_evict_loses_page:
  "contents sim_blocks dirty_pool 0 = replicate PAGE_SIZE 7
   \<and> (case FlushPage sim_os 0 dirty_pool of (r, s) \<Rightarrow> r = Inr True
        \<and> last (fst (pool_run sim_os False [Fetch_op 5, Unpin_op 5 False, Fetch_op 0, Unpin_op 0 False,
              Fetch_op 5, Unpin_op 5 True, Fetch_op 0] s))
          = (Fetch_op 0, Got (Some (replicate PAGE_SIZE 0))))"
  by (simp add: dirty_pool_def dirty_ops_def run_sim FlushPage_def contents_def)

text \<open>Unpinning a page that is not pinned stops a debug build.  A release build reports success and
  leaves the pin count at \<open>- 1\<close>, with the frame still a candidate for eviction.\<close>

theorem unpin_unpinned:
  assumes "pool_safe s" and "bp_page_table s pid = Some f" and "f \<in> set (bp_lru s)"
  shows "fst (UnpinPage False pid b s) = Inl Assertion_failed \<and> fst (UnpinPage True pid b s) = Inr True
    \<and> p_pin_count (bp_pages (snd (UnpinPage True pid b s)) ! f) = - 1
    \<and> f \<in> set (bp_lru (snd (UnpinPage True pid b s)))"
proof -
  have len: "f < length (bp_pages s)" using assms(1,2) by (simp add: pool_safeD)
  have "p_pin_count (bp_pages s ! f) = 0" using assms(1,3) by (rule pool_safeD)
  then show ?thesis
    using UnpinPage_unfold [OF assms(2) len refl refl, of _ b] assms(3) by (simp add: nth_upd_page len)
qed

theorem unpin_unpinned_witness:
  "pool_safe dirty_pool \<and> bp_page_table dirty_pool 0 = Some 0 \<and> 0 \<in> set (bp_lru dirty_pool)
   \<and> fst (UnpinPage True 0 False dirty_pool) = Inr True
   \<and> p_pin_count (bp_pages (snd (UnpinPage True 0 False dirty_pool)) ! 0) = - 1"
proof -
  have r: "bp_page_table dirty_pool 0 = Some 0" "0 \<in> set (bp_lru dirty_pool)"
    by (simp_all add: dirty_pool_def dirty_ops_def run_sim)
  have safe: "pool_safe dirty_pool" using dirty_pool_ok(1) by (rule pool_invD)
  show ?thesis using safe r unpin_unpinned [OF safe r, of False] by blast
qed

text \<open>Page numbers start again at 0 whenever the file is opened, and \<open>NewPage\<close> does not look whether
  the number is in use: fetching page 0 of an existing file and then allocating a page hands out page 0
  again, zeroed, and the frame that held it stays pinned for ever without being reachable.\<close>

theorem new_page_reuses_number:
  "case pool_run sim_os False [Fetch_op 0, New_op] (fresh_pool (Suc (Suc 0))) of (es, s) \<Rightarrow>
     map snd es = [Got (Some (replicate PAGE_SIZE 0)), Allocated (Some 0)]
     \<and> bp_page_table s 0 = Some 1 \<and> p_pin_count (bp_pages s ! 0) = 1 \<and> \<not> frame_kept s 0"
  by (simp add: run_sim frame_kept_def)

end
