(* ===== verification/Pool_Clients.thy ===== *)
theory Pool_Clients
  imports Pool_Properties
begin

text \<open>
  The pool as one request at a time uses it: between requests no page is pinned (\<open>quiet\<close>), during an
  access exactly one page is (\<open>held\<close>).  On a device whose reads succeed, a page can then always be
  obtained, changed and given back, and what the store holds changes exactly by the write.
\<close>

section \<open>Quiet pools and held pages\<close>

definition quiet :: "int \<Rightarrow> ('d \<Rightarrow> pageid \<Rightarrow> bytes) \<Rightarrow> ('d \<Rightarrow> io_phase) \<Rightarrow> 'd bpm \<Rightarrow> bool" where
  "quiet fd blocks phase s \<longleftrightarrow> pool_inv s \<and> coherent fd blocks phase {} s \<and> (\<forall>q. \<not> pinned s q) \<and> 0 < bp_pool_size s"

definition held :: "int \<Rightarrow> ('d \<Rightarrow> pageid \<Rightarrow> bytes) \<Rightarrow> ('d \<Rightarrow> io_phase) \<Rightarrow> pageid set \<Rightarrow> pageid \<Rightarrow> nat \<Rightarrow> 'd bpm \<Rightarrow> bool" where
  "held fd blocks phase W pid f s \<longleftrightarrow> pool_inv s \<and> coherent fd blocks phase W s \<and> W \<subseteq> {pid}
     \<and> bp_page_table s pid = Some f \<and> p_pin_count (bp_pages s ! f) = 1 \<and> (\<forall>q. pinned s q \<longrightarrow> q = pid)
     \<and> f < length (bp_pages s)"

lemma quiet_ctor:
  assumes "phase (dm_ring dm) = Idle" and "dm_fd dm = fd" and "0 < n"
  shows "quiet fd blocks phase (BufferPoolManager_ctor n dm)"
  using coherent_ctor [of phase dm fd blocks n, OF assms(1,2)] pool_inv_ctor [of n dm] assms(3)
  by (simp add: quiet_def pinned_def BufferPoolManager_ctor_def)

lemma not_pinned_pin_count: "\<not> pinned s pid \<Longrightarrow> bp_page_table s pid = Some f \<Longrightarrow> p_pin_count (bp_pages s ! f) = 0"
  by (simp add: pinned_def)

lemma quiet_room: "quiet fd blocks phase s \<Longrightarrow> \<not> (bp_free s = [] \<and> bp_lru s = [])"
  using no_frame_iff [of s] by (auto simp: quiet_def)

text \<open>After a fetch or an allocation from a quiet pool, only the page obtained is pinned.\<close>

lemma fetch_pins_one:
  assumes "pool_inv s" and "\<forall>q. \<not> pinned s q" and "FetchPage os pid s = (Inr (Some f), s')"
  shows "p_pin_count (bp_pages s' ! f) = 1" "\<forall>q. pinned s' q \<longrightarrow> q = pid"
    "f < length (bp_pages s')" "bp_pool_size s' = bp_pool_size s" "bp_page_table s' pid = Some f"
    "p_page_id (bp_pages s' ! f) = pid"
proof -
  note safe = pool_invD(1) [OF assms(1)]
  have "p_pin_count (bp_pages s' ! f) = 1 \<and> (\<forall>q. pinned s' q \<longrightarrow> q = pid) \<and> f < length (bp_pages s')
      \<and> bp_pool_size s' = bp_pool_size s \<and> bp_page_table s' pid = Some f \<and> p_page_id (bp_pages s' ! f) = pid"
    using assms(3)
  proof (cases rule: FetchPage_cases)
    case (hit g)
    have g: "g < length (bp_pages s)" "p_page_id (bp_pages s ! g) = pid"
      using safe hit(1) by (simp_all add: pool_safeD)
    have pages: "bp_pages s' ! h = (if h = g then (bp_pages s ! g)\<lparr>p_pin_count := p_pin_count (bp_pages s ! g) + 1\<rparr>
        else bp_pages s ! h)" for h
      using g(1) by (simp add: hit(3) nth_upd_page)
    have tab: "bp_page_table s' = bp_page_table s" by (simp add: hit(3))
    have "q = pid" if q: "pinned s' q" for q
    proof -
      obtain h where h: "bp_page_table s q = Some h" "p_pin_count (bp_pages s' ! h) \<noteq> 0"
        using q tab by (auto simp: pinned_def)
      then have "h = g" using assms(2) pages [of h] not_pinned_pin_count [of s q h] by (auto split: if_splits)
      then show ?thesis using g(2) pool_safeD(9) [OF safe h(1)] by simp
    qed
    then show ?thesis
      using hit g pages [of g] tab not_pinned_pin_count [of s pid g] assms(2) by (simp add: hit(3))
  next
    case (miss g s1 d dm)
    have t: "taken s g s1" using safe miss(2) by (rule acquire_frame_Some)
    then have "g < length (bp_pages s1)" by (auto simp: taken_def dest: pool_safeD(1))
    moreover have "\<not> pinned s1 q" for q using taken_pinned [OF safe t] assms(2) by simp
    moreover have "h \<noteq> g" if "bp_page_table s1 q = Some h" for q h using that t by (auto simp: taken_def)
    ultimately show ?thesis using miss t by (auto simp: pinned_def taken_def)
  qed auto
  then show "p_pin_count (bp_pages s' ! f) = 1" "\<forall>q. pinned s' q \<longrightarrow> q = pid"
    "f < length (bp_pages s')" "bp_pool_size s' = bp_pool_size s" "bp_page_table s' pid = Some f"
    "p_page_id (bp_pages s' ! f) = pid" by auto
qed

lemma new_pins_one:
  assumes "pool_inv s" and "\<forall>q. \<not> pinned s q" and "NewPage os s = (Inr (Some (pid, f)), s')"
  shows "p_pin_count (bp_pages s' ! f) = 1" "\<forall>q. pinned s' q \<longrightarrow> q = pid"
    "f < length (bp_pages s')" "bp_page_table s' pid = Some f" "p_page_id (bp_pages s' ! f) = pid"
proof -
  note safe = pool_invD(1) [OF assms(1)]
  have "p_pin_count (bp_pages s' ! f) = 1 \<and> (\<forall>q. pinned s' q \<longrightarrow> q = pid) \<and> f < length (bp_pages s')
      \<and> bp_page_table s' pid = Some f \<and> p_page_id (bp_pages s' ! f) = pid"
    using assms(3)
  proof (cases rule: NewPage_cases)
    case (fresh g s1)
    have t: "taken s g s1" using safe fresh(1) by (rule acquire_frame_Some)
    then have "g < length (bp_pages s1)" by (auto simp: taken_def dest: pool_safeD(1))
    moreover have "\<not> pinned s1 q" for q using taken_pinned [OF safe t] assms(2) by simp
    moreover have "h \<noteq> g" if "bp_page_table s1 q = Some h" for q h using that t by (auto simp: taken_def)
    ultimately show ?thesis using fresh t by (auto simp: pinned_def taken_def)
  qed auto
  then show "p_pin_count (bp_pages s' ! f) = 1" "\<forall>q. pinned s' q \<longrightarrow> q = pid"
    "f < length (bp_pages s')" "bp_page_table s' pid = Some f" "p_page_id (bp_pages s' ! f) = pid" by auto
qed

section \<open>Access to one page\<close>

locale reliable_device = storage_device +
  assumes reads_ok: "phase d = Idle \<Longrightarrow> fst (os_pread os m d fd PAGE_SIZE (page_offset pid)) \<noteq> None"
begin

lemma quiet_fetch:
  assumes q: "quiet fd blocks phase s"
  shows "\<exists>f s1. FetchPage os pid s = (Inr (Some f), s1) \<and> held fd blocks phase {} pid f s1
           \<and> p_data (bp_pages s1 ! f) = contents blocks s pid \<and> contents blocks s1 = contents blocks s
           \<and> p_page_id (bp_pages s1 ! f) = pid"
proof -
  have inv: "pool_inv s" and c: "coherent fd blocks phase {} s" and np: "\<forall>q. \<not> pinned s q"
    using q by (simp_all add: quiet_def)
  have nowrap: "p_pin_count (bp_pages s ! f) + 1 \<noteq> 0" if "bp_page_table s pid = Some f" for f
    using not_pinned_pin_count [OF _ that] np by simp
  obtain r s1 where call: "FetchPage os pid s = (r, s1)" by (cases "FetchPage os pid s")
  have "\<exists>f. r = Inr (Some f)"
    using call
  proof (cases rule: FetchPage_cases)
    case (evict_error e)
    then show ?thesis using acquire_coherent [OF c] by auto
  next
    case full
    then show ?thesis using quiet_room [OF q] by simp
  next
    case (read_error e f s2 dm)
    have "coherent fd blocks phase {} s2" using acquire_coherent [OF c] read_error(2) by auto
    then show ?thesis
      using reads_ok [of "dm_ring (bp_disk s2)" "frame_buffers (upd_page f ResetMemory s2)" pid] read_error(3)
      by (auto simp: coherent_def ReadPage_def Let_def split: prod.splits option.splits)
  qed auto
  then obtain f where r: "FetchPage os pid s = (Inr (Some f), s1)" using call by blast
  note F = fetch_coherent [OF c r nowrap] and P = fetch_pins_one [OF inv np r]
  have "pool_inv s1" using FetchPage_inv [OF inv r nowrap] .
  then show ?thesis using r F P by (auto simp: held_def)
qed

lemma quiet_new:
  assumes q: "quiet fd blocks phase s" and new: "bp_page_table s (dm_next_page_id (bp_disk s)) = None"
    and pid: "pid = dm_next_page_id (bp_disk s)"
  shows "\<exists>f s1. NewPage os s = (Inr (Some (pid, f)), s1) \<and> held fd blocks phase {pid} pid f s1
           \<and> contents blocks s1 = (contents blocks s)(pid := replicate PAGE_SIZE 0)
           \<and> p_page_id (bp_pages s1 ! f) = pid"
proof -
  have inv: "pool_inv s" and c: "coherent fd blocks phase {} s" and np: "\<forall>q. \<not> pinned s q"
    using q by (simp_all add: quiet_def)
  obtain r s1 where call: "NewPage os s = (r, s1)" by (cases "NewPage os s")
  have "r \<noteq> Inr None" using call NewPage_None [of os s s1] quiet_room [OF q] by auto
  then obtain f where r: "NewPage os s = (Inr (Some (pid, f)), s1)" "coherent fd blocks phase {pid} s1"
      "contents blocks s1 = (contents blocks s)(pid := replicate PAGE_SIZE 0)"
    using new_coherent [OF c call new] call pid by auto
  show ?thesis
    using r new_pins_one [OF inv np r(1)] NewPage_inv [OF inv r(1) new] by (auto simp: held_def)
qed

lemma held_write:
  assumes h: "held fd blocks phase W pid f s" and wf: "page_wf p'"
    and meta: "p_page_id p' = p_page_id (bp_pages s ! f)" "p_pin_count p' = p_pin_count (bp_pages s ! f)"
  shows "held fd blocks phase {pid} pid f (upd_page f (\<lambda>_. p') s)"
    "contents blocks (upd_page f (\<lambda>_. p') s) = (contents blocks s)(pid := p_data p')"
proof -
  have inv: "pool_inv s" and c: "coherent fd blocks phase W s" and res: "bp_page_table s pid = Some f"
    and len: "f < length (bp_pages s)" and W: "W \<subseteq> {pid}" and one: "\<forall>q. pinned s q \<longrightarrow> q = pid"
    and pin: "p_pin_count (bp_pages s ! f) = 1"
    using h by (simp_all add: held_def)
  have f: "f < bp_pool_size s" using len pool_safeD(1) [OF pool_invD(1) [OF inv]] by simp
  note K = upd_page_keeps [OF pool_invD(1) [OF inv] f, of "\<lambda>_. p'", OF wf meta]
  have pages: "bp_pages (upd_page f (\<lambda>_. p') s) ! g = (if g = f then p' else bp_pages s ! g)" for g
    by (simp add: nth_upd_page len)
  note R = replace_coherent [OF c res K(1) _ _ pages, of "{pid}"]
  have "pinned (upd_page f (\<lambda>_. p') s) q \<longrightarrow> q = pid" for q
    using one pin meta(2) pages by (auto simp: pinned_def split: if_splits)
  moreover have "pool_inv (upd_page f (\<lambda>_. p') s)" using K inv by (simp add: pool_inv_def)
  ultimately show "held fd blocks phase {pid} pid f (upd_page f (\<lambda>_. p') s)"
    using R(1) W res pin meta pages len by (auto simp: held_def)
  show "contents blocks (upd_page f (\<lambda>_. p') s) = (contents blocks s)(pid := p_data p')"
    using R(2) W pin meta by auto
qed

lemma held_unpin:
  assumes h: "held fd blocks phase W pid f s" and b: "b \<or> W = {}"
  shows "\<exists>s'. UnpinPage ndebug pid b s = (Inr True, s') \<and> quiet fd blocks phase s' \<and> contents blocks s' = contents blocks s"
proof -
  have inv: "pool_inv s" and c: "coherent fd blocks phase W s" and res: "bp_page_table s pid = Some f"
    and len: "f < length (bp_pages s)" and W: "W \<subseteq> {pid}" and one: "\<forall>q. pinned s q \<longrightarrow> q = pid"
    and pin: "p_pin_count (bp_pages s ! f) = 1"
    using h by (simp_all add: held_def)
  obtain r s' where call: "UnpinPage ndebug pid b s = (r, s')" by (cases "UnpinPage ndebug pid b s")
  have r: "r = Inr True" and tab: "bp_page_table s' = bp_page_table s" and size: "bp_pool_size s' = bp_pool_size s"
    and pages: "\<And>g. p_pin_count (bp_pages s' ! g) = (if g = f then 0 else p_pin_count (bp_pages s ! g))"
    using call UnpinPage_unfold [OF res len refl refl, of ndebug b] pin
    by (auto simp: nth_upd_page len SetDirty_def split: if_splits)
  have "pinned s pid" using res pin by (simp add: pinned_def)
  then have "pool_step os ndebug s s'" using call r by (auto intro: pool_step.unpin)
  then have inv': "pool_inv s'" using inv by (rule pool_step_inv)
  have np: "\<not> pinned s' q" for q
    using one tab pages res by (auto simp: pinned_def split: if_splits)
  have "pid \<notin> W" if "\<not> b" using b that by simp
  then have "coherent fd blocks phase (if b then W - {pid} else W) s'" "contents blocks s' = contents blocks s"
    using unpin_coherent [OF c res _ call] pin by auto
  moreover have "(if b then W - {pid} else W) = {}" using b W by auto
  ultimately have "quiet fd blocks phase s'" "contents blocks s' = contents blocks s"
    using inv' np size len pool_safeD(1) [OF pool_invD(1) [OF inv]] by (auto simp: quiet_def)
  then show ?thesis using call r by blast
qed

end

interpretation reliable_sim: reliable_device sim_os fd sim_blocks sim_phase sd_left for fd :: int
  by unfold_locales (simp add: sim_os_def)

end
