(* ===== verification/End_To_End.thy ===== *)
theory End_To_End
  imports Connection Pool_Clients
begin

text \<open>
  The server as its clients see it: what a session of \<open>CREATE TABLE\<close>, \<open>INSERT\<close>, \<open>SELECT\<close> and \<open>BEGIN\<close>
  requests answers, from the request handler down to the bytes on the device.  The proofs use the layers
  below only through their contracts: \<open>reliable_device\<close> for the pool, \<open>slotted\<close> for the page, \<open>tables\<close>
  for the catalog, \<open>epochs\<close> and \<open>log\<close> for transactions.
\<close>

section \<open>Transactions and the log during an insert\<close>

lemma log_insert_inv:
  assumes inv: "tm_inv (in_txn_manager inst)" and t: "tm_txn_map (in_txn_manager inst) txn = Some t"
    and call: "log_insert txn r inst = (lsn, inst')"
  shows "tm_inv (in_txn_manager inst')" "in_bpm inst' = in_bpm inst" "in_catalog inst' = in_catalog inst"
    "tm_next_txn_id (in_txn_manager inst') = tm_next_txn_id (in_txn_manager inst)"
    "tm_txn_map (in_txn_manager inst') txn = Some (AppendWriteSet lsn t)"
proof -
  let ?tm = "in_txn_manager inst" and ?tm' = "in_txn_manager inst'"
  obtain lm where l: "AppendLogRecord r (tm_log ?tm) = (lsn, lm)"
    and inst': "inst' = inst\<lparr>in_txn_manager := ?tm\<lparr>tm_log := lm,
        tm_txn_map := (tm_txn_map ?tm)(txn \<mapsto> AppendWriteSet lsn t)\<rparr>\<rparr>"
    using call t by (auto simp: log_insert_def Let_def split: prod.splits)
  have "active_txns ?tm' = active_txns ?tm"
    using t by (auto simp: active_txns_def inst' AppendWriteSet_def)
  moreover have "image_mset (\<lambda>x. tx_read_epoch (the (tm_txn_map ?tm' x))) M =
      image_mset (\<lambda>x. tx_read_epoch (the (tm_txn_map ?tm x))) M" for M
    using t by (intro image_mset_cong) (simp add: inst' AppendWriteSet_def)
  ultimately have "read_epochs ?tm' = read_epochs ?tm" by (simp add: read_epochs_def)
  then show "tm_inv ?tm'" using inv t by (auto simp: tm_inv_def inst' AppendWriteSet_def)
  show "in_bpm inst' = in_bpm inst" "in_catalog inst' = in_catalog inst"
    "tm_next_txn_id ?tm' = tm_next_txn_id ?tm" "tm_txn_map ?tm' txn = Some (AppendWriteSet lsn t)"
    by (simp_all add: inst')
qed

section \<open>One row\<close>

definition user_row :: bytes where
  "user_row = replicate 259 0"

lemma upd_page_twice [simp]: "upd_page f (\<lambda>_. q) (upd_page f (\<lambda>_. p) s) = upd_page f (\<lambda>_. q) s"
  by (simp add: upd_page_def)

lemma stored_user_row: "stored user_row = Some user_row" "length user_row + SLOT_SIZE = 263"
  by (simp_all add: stored_def user_row_def SLOT_SIZE_def)

text \<open>Inserting one row in a transaction: the page in the frame gets the row if there is room.\<close>

lemma insert_one_row:
  assumes inv: "tm_inv (in_txn_manager inst)" and t: "tm_txn_map (in_txn_manager inst) txn = Some t"
    and p: "p = bp_pages (in_bpm inst) ! f" "sp_inv p"
  shows "\<exists>p' inst' t'. insert_rows (Some txn) user_row (Some f) 1 inst = (Inr (), inst')
    \<and> in_bpm inst' = upd_page f (\<lambda>_. p') (in_bpm inst) \<and> in_catalog inst' = in_catalog inst
    \<and> sp_inv p' \<and> p_page_id p' = p_page_id p \<and> p_pin_count p' = p_pin_count p
    \<and> sp_tuples p' = (if 263 \<le> sp_room p then sp_tuples p @ [Some user_row] else sp_tuples p)
    \<and> sp_room p' = (if 263 \<le> sp_room p then sp_room p - 263 else sp_room p)
    \<and> tm_inv (in_txn_manager inst') \<and> tm_txn_map (in_txn_manager inst') txn = Some t' \<and> tx_state t' = tx_state t
    \<and> tm_next_txn_id (in_txn_manager inst') = tm_next_txn_id (in_txn_manager inst)"
proof (cases "263 \<le> sp_room p")
  case False
  then have "InsertTuple user_row p = Inr (None, p)"
    using slotted.ins_full [OF p(2), of user_row] stored_user_row(2) by simp
  then show ?thesis
    using False inv t p by (intro exI [of _ p] exI [of _ "set_page f p inst"] exI [of _ t]) (simp add: set_page_def)
next
  case True
  have room: "length user_row + SLOT_SIZE \<le> sp_room p" using True stored_user_row(2) by simp
  note I = InsertTuple_ok [OF p(2) room] and V = inserted_view [OF p(2) room]
  define rec where "rec = LogRecord_insert_ctor (tx_txn_id t) (GetLSN (inserted user_row p)) LR_INSERT
    \<lparr>rid_page_id = p_page_id p, rid_slot_num = of_nat (sp_count p)\<rparr> user_row"
  obtain lsn inst1 where l: "log_insert txn rec (set_page f (inserted user_row p) inst) = (lsn, inst1)"
    by (cases "log_insert txn rec (set_page f (inserted user_row p) inst)")
  have t1: "tm_inv (in_txn_manager (set_page f (inserted user_row p) inst))"
      "tm_txn_map (in_txn_manager (set_page f (inserted user_row p) inst)) txn = Some t"
    using inv t by (simp_all add: set_page_def)
  note L = log_insert_inv [OF t1 l] and S = SetLSN_view [OF V(1), of lsn]
  have "insert_rows (Some txn) user_row (Some f) 1 inst = (Inr (), set_page f (SetLSN lsn (inserted user_row p)) inst1)"
    using I t l by (simp add: p(1) [symmetric] rec_def)
  then show ?thesis
    using True L S V(2,3) inserted_meta [of user_row p] header_meta stored_user_row
    by (intro exI [of _ "SetLSN lsn (inserted user_row p)"] exI [of _ "set_page f (SetLSN lsn (inserted user_row p)) inst1"]
        exI [of _ "AppendWriteSet lsn t"]) (simp add: set_page_def AppendWriteSet_def)
qed

section \<open>The state between requests\<close>

text \<open>A page of the table with \<open>k\<close> rows.\<close>

definition rows_page :: "nat \<Rightarrow> bytes \<Rightarrow> bool" where
  "rows_page k d \<longleftrightarrow> k \<le> 31 \<and> (\<exists>p. p_data p = d \<and> sp_inv p \<and> sp_tuples p = replicate k (Some user_row)
     \<and> sp_room p = 8180 - 263 * k)"

lemma rows_pageD:
  assumes "rows_page k (p_data p)"
  shows "sp_inv p" "sp_tuples p = replicate k (Some user_row)" "sp_room p = 8180 - 263 * k" "k \<le> 31" "sp_count p = k"
proof -
  obtain q where q: "p_data p = p_data q" "sp_inv q" "sp_tuples q = replicate k (Some user_row)"
      "sp_room q = 8180 - 263 * k" and "k \<le> 31"
    using assms unfolding rows_page_def by metis
  show "sp_inv p" "sp_tuples p = replicate k (Some user_row)" "sp_room p = 8180 - 263 * k" "k \<le> 31"
    using q sp_cong [OF q(1)] \<open>k \<le> 31\<close> by simp_all
  show "sp_count p = k" using \<open>sp_tuples p = replicate k (Some user_row)\<close> length_sp_tuples [of p] by simp
qed

lemma rows_page_init: "rows_page 0 (p_data (SP_Init p))"
  using SP_Init_view [of p] by (auto simp: rows_page_def)

lemma rows_page_insert:
  assumes "rows_page k (p_data p)" and "sp_inv p'"
    and "sp_tuples p' = (if 263 \<le> sp_room p then sp_tuples p @ [Some user_row] else sp_tuples p)"
    and "sp_room p' = (if 263 \<le> sp_room p then sp_room p - 263 else sp_room p)"
  shows "rows_page (min 31 (Suc k)) (p_data p')"
proof (cases "k = 31")
  case True
  then show ?thesis using rows_pageD [OF assms(1)] assms(2-4) by (auto simp: rows_page_def)
next
  case False
  then have "k < 31" using rows_pageD(4) [OF assms(1)] by simp
  then show ?thesis
    using rows_pageD [OF assms(1)] assms(2-4) by (auto simp: rows_page_def replicate_append_same)
qed

text \<open>The table exists and has \<open>k\<close> rows; \<open>n\<close> is the next transaction number.  Before the first insert the
  table has no page, and the number the next page will get must not be in use.\<close>

definition users_db :: "int \<Rightarrow> ('d \<Rightarrow> pageid \<Rightarrow> bytes) \<Rightarrow> ('d \<Rightarrow> io_phase) \<Rightarrow> nat \<Rightarrow> nat \<Rightarrow> 'd sting_instance \<Rightarrow> bool" where
  "users_db fd blocks phase k n inst \<longleftrightarrow> quiet fd blocks phase (in_bpm inst) \<and> cat_inv (in_catalog inst)
     \<and> tm_inv (in_txn_manager inst) \<and> unat (tm_next_txn_id (in_txn_manager inst)) = n
     \<and> (\<exists>ti. cat_dir (in_catalog inst) ''users'' = Some ti \<and> ti_schema ti = Schema_ctor users_columns
          \<and> (if ti_first_page_id ti = INVALID_PAGE_ID
              then k = 0 \<and> bp_page_table (in_bpm inst) (dm_next_page_id (bp_disk (in_bpm inst))) = None
                \<and> dm_next_page_id (bp_disk (in_bpm inst)) \<noteq> INVALID_PAGE_ID
              else rows_page k (contents blocks (in_bpm inst) (ti_first_page_id ti))))"

lemma users_schema_size: "sc_tuple_fixed_size (Schema_ctor users_columns) = 259"
  by (simp add: Schema_ctor_def users_columns_def Column_ctor_def SetOffset_def)

text \<open>Beginning and committing the transaction of a request.\<close>

lemma begin_txn_ok:
  assumes inv: "tm_inv (in_txn_manager inst)" and n: "unat (tm_next_txn_id (in_txn_manager inst)) = n" "n + 1 < 2 ^ 64"
  shows "\<exists>t inst'. begin_txn inst = (Inr (of_nat n), inst') \<and> in_bpm inst' = in_bpm inst \<and> in_catalog inst' = in_catalog inst
    \<and> tm_inv (in_txn_manager inst') \<and> unat (tm_next_txn_id (in_txn_manager inst')) = Suc n
    \<and> tm_txn_map (in_txn_manager inst') (of_nat n) = Some t \<and> tx_state t = ACTIVE \<and> tx_txn_id t = of_nat n"
proof -
  let ?tm = "in_txn_manager inst"
  have id: "tm_next_txn_id ?tm = of_nat n" using n(1) by (simp add: word_unat_eq_iff flip: n(1))
  have suc: "unat (tm_next_txn_id ?tm + 1) = Suc n" using n by (simp add: unat_word_ariths)
  then have nz: "tm_next_txn_id ?tm + 1 \<noteq> 0" by auto
  obtain e em where e: "EnterEpoch (tm_epochs ?tm) = (e, em)" by (cases "EnterEpoch (tm_epochs ?tm)")
  obtain lsn lm where l: "AppendLogRecord (LogRecord_ctor (tm_next_txn_id ?tm) 0 LR_BEGIN) (tm_log ?tm) = (lsn, lm)"
    by (cases "AppendLogRecord (LogRecord_ctor (tm_next_txn_id ?tm) 0 LR_BEGIN) (tm_log ?tm)")
  note B = TM_Begin_eq [OF e l tm_inv_fresh [OF inv], of SNAPSHOT_ISOLATION]
  show ?thesis
    using TM_Begin_inv(1) [OF inv nz, of SNAPSHOT_ISOLATION] suc id by (simp add: begin_txn_def B)
qed

lemma commit_txn_ok:
  assumes inv: "tm_inv (in_txn_manager inst)" and t: "tm_txn_map (in_txn_manager inst) txn = Some t" "tx_state t = ACTIVE"
  shows "\<exists>inst'. commit_txn txn inst = (Inr (), inst') \<and> in_bpm inst' = in_bpm inst \<and> in_catalog inst' = in_catalog inst
    \<and> tm_inv (in_txn_manager inst') \<and> tm_next_txn_id (in_txn_manager inst') = tm_next_txn_id (in_txn_manager inst)"
proof -
  have m: "tx_has_manager t" using inv t(1) by (simp add: tm_inv_def)
  show ?thesis
    using TM_Commit_active [OF t(1) _ m] TM_Commit_inv [OF inv t(1)] t(2) by (auto simp: commit_txn_def)
qed

lemma update_first_page_dir:
  assumes inv: "cat_inv cat" and d: "cat_dir cat name = Some ti"
  shows "cat_inv (update_first_page (ti_id ti) pid cat)"
    "cat_dir (update_first_page (ti_id ti) pid cat) name = Some (UpdateFirstPageId pid ti)"
proof -
  have at: "cat_tables cat (ti_id ti) = Some ti" "cat_table_names cat name = Some (ti_id ti)"
    using d inv by (auto simp: cat_dir_def cat_inv_def bind_eq_Some_conv)
  have tab: "cat_tables (update_first_page (ti_id ti) pid cat) i =
      (if i = ti_id ti then Some (UpdateFirstPageId pid ti) else cat_tables cat i)" for i
    using at(1) by (simp add: update_first_page_def)
  have names: "cat_table_names (update_first_page (ti_id ti) pid cat) = cat_table_names cat"
    by (simp add: update_first_page_def)
  have keep: "ti_name (UpdateFirstPageId pid ti) = ti_name ti" "ti_id (UpdateFirstPageId pid ti) = ti_id ti"
    by (simp_all add: UpdateFirstPageId_def)
  have "\<exists>ti'. cat_tables (update_first_page (ti_id ti) pid cat) i = Some ti' \<and> ti_name ti' = m \<and> ti_id ti' = i"
    if m: "cat_table_names cat m = Some i" for m i
  proof -
    obtain t where t: "cat_tables cat i = Some t" "ti_name t = m" "ti_id t = i"
      using inv m unfolding cat_inv_def by blast
    then show ?thesis using tab [of i] keep at(1) by (cases "i = ti_id ti") simp_all
  qed
  moreover have "ti_id ti' = i \<and> cat_table_names cat (ti_name ti') = Some i"
    if i: "cat_tables (update_first_page (ti_id ti) pid cat) i = Some ti'" for i ti'
  proof -
    have "\<exists>t. cat_tables cat i = Some t \<and> ti_name t = ti_name ti' \<and> ti_id t = ti_id ti'"
      using i at(1) keep unfolding tab by (cases "i = ti_id ti") simp_all
    then show ?thesis using inv unfolding cat_inv_def by metis
  qed
  ultimately show "cat_inv (update_first_page (ti_id ti) pid cat)" by (simp add: cat_inv_def names)
  show "cat_dir (update_first_page (ti_id ti) pid cat) name = Some (UpdateFirstPageId pid ti)"
    using at by (simp add: cat_dir_def update_first_page_def)
qed

section \<open>Requests\<close>

lemma sp_inv_wf: "sp_inv p \<Longrightarrow> page_wf p"
  by (simp add: sp_inv_def)

lemma users_db_cong:
  assumes "users_db fd blocks phase k n inst" and "in_bpm inst' = in_bpm inst" and "in_catalog inst' = in_catalog inst"
    and "tm_inv (in_txn_manager inst')"
  shows "users_db fd blocks phase k (unat (tm_next_txn_id (in_txn_manager inst'))) inst'"
  using assms unfolding users_db_def by auto

context reliable_device
begin

text \<open>A table that has no page yet when its description \<open>info\<close> is read gets a new, empty one.\<close>

lemma fresh_page_ok:
  assumes q: "quiet fd blocks phase (in_bpm inst)" and cat: "cat_inv (in_catalog inst)" "cat_dir (in_catalog inst) ''users'' = Some ti"
    and none: "ti_first_page_id info = INVALID_PAGE_ID"
    and new: "bp_page_table (in_bpm inst) (dm_next_page_id (bp_disk (in_bpm inst))) = None"
      "dm_next_page_id (bp_disk (in_bpm inst)) \<noteq> INVALID_PAGE_ID"
  shows "\<exists>pid f W inst1 ti'. target_page os (ti_id ti) info inst = (Inr (pid, Some f), inst1)
    \<and> held fd blocks phase W pid f (in_bpm inst1) \<and> rows_page 0 (p_data (bp_pages (in_bpm inst1) ! f))
    \<and> in_txn_manager inst1 = in_txn_manager inst \<and> cat_inv (in_catalog inst1)
    \<and> cat_dir (in_catalog inst1) ''users'' = Some ti' \<and> ti_schema ti' = ti_schema ti
    \<and> ti_first_page_id ti' = pid \<and> pid \<noteq> INVALID_PAGE_ID"
proof -
  define pid where "pid = dm_next_page_id (bp_disk (in_bpm inst))"
  obtain f s1 where s1: "NewPage os (in_bpm inst) = (Inr (Some (pid, f)), s1)" "held fd blocks phase {pid} pid f s1"
    using quiet_new [OF q new(1) pid_def] by blast
  let ?p = "SP_Init (bp_pages s1 ! f)"
  have len: "f < length (bp_pages s1)" using s1(2) by (simp add: held_def)
  have h: "held fd blocks phase {pid} pid f (upd_page f (\<lambda>_. ?p) s1)"
    using held_write(1) [OF s1(2) sp_inv_wf [OF SP_Init_view(1)]] SP_Init_meta by simp
  note U = update_first_page_dir [OF cat, of pid]
  show ?thesis
    using none s1(1) h U new(2) len rows_page_init
    by (auto simp: target_page_def set_page_def nth_upd_page UpdateFirstPageId_def pid_def)
qed

lemma target_page_ok:
  assumes db: "users_db fd blocks phase k n inst" and ti: "cat_dir (in_catalog inst) ''users'' = Some ti"
  shows "\<exists>pid f W inst1 ti'. target_page os (ti_id ti) ti inst = (Inr (pid, Some f), inst1)
    \<and> held fd blocks phase W pid f (in_bpm inst1) \<and> rows_page k (p_data (bp_pages (in_bpm inst1) ! f))
    \<and> in_txn_manager inst1 = in_txn_manager inst \<and> cat_inv (in_catalog inst1)
    \<and> cat_dir (in_catalog inst1) ''users'' = Some ti' \<and> ti_schema ti' = ti_schema ti
    \<and> ti_first_page_id ti' = pid \<and> pid \<noteq> INVALID_PAGE_ID"
proof (cases "ti_first_page_id ti = INVALID_PAGE_ID")
  case True
  then show ?thesis using fresh_page_ok [of inst ti ti] db ti by (simp add: users_db_def)
next
  case False
  have q: "quiet fd blocks phase (in_bpm inst)" and cat: "cat_inv (in_catalog inst)"
    and r: "rows_page k (contents blocks (in_bpm inst) (ti_first_page_id ti))"
    using db ti False by (auto simp: users_db_def)
  obtain f s1 where s1: "FetchPage os (ti_first_page_id ti) (in_bpm inst) = (Inr (Some f), s1)"
      "held fd blocks phase {} (ti_first_page_id ti) f s1"
      "p_data (bp_pages s1 ! f) = contents blocks (in_bpm inst) (ti_first_page_id ti)"
    using quiet_fetch [OF q] by blast
  show ?thesis
    using False s1 r cat ti
    by (intro exI [of _ "ti_first_page_id ti"] exI [of _ f] exI [of _ "{}"] exI [of _ "inst\<lparr>in_bpm := s1\<rparr>"] exI [of _ ti])
      (simp add: target_page_def)
qed

text \<open>One row into the page held, in an active transaction, and the page given back.\<close>

lemma insert_held_ok:
  assumes tm: "tm_inv (in_txn_manager inst1)" "unat (tm_next_txn_id (in_txn_manager inst1)) = n"
    and t: "tm_txn_map (in_txn_manager inst1) txn = Some t" "tx_state t = ACTIVE"
    and T: "held fd blocks phase W pid f (in_bpm inst1)" "rows_page k (p_data (bp_pages (in_bpm inst1) ! f))"
      "cat_inv (in_catalog inst1)" "cat_dir (in_catalog inst1) ''users'' = Some ti" "ti_schema ti = Schema_ctor users_columns"
      "ti_first_page_id ti = pid" "pid \<noteq> INVALID_PAGE_ID"
  shows "\<exists>inst2 inst3 t'. insert_rows (Some txn) user_row (Some f) 1 inst1 = (Inr (), inst2)
    \<and> unpin ndebug pid True inst2 = (Inr True, inst3) \<and> users_db fd blocks phase (min 31 (Suc k)) n inst3
    \<and> tm_txn_map (in_txn_manager inst3) txn = Some t' \<and> tx_state t' = ACTIVE"
proof -
  define p where "p = bp_pages (in_bpm inst1) ! f"
  obtain p' inst2 t' where R: "insert_rows (Some txn) user_row (Some f) 1 inst1 = (Inr (), inst2)"
      "in_bpm inst2 = upd_page f (\<lambda>_. p') (in_bpm inst1)" "in_catalog inst2 = in_catalog inst1"
      "sp_inv p'" "p_page_id p' = p_page_id p" "p_pin_count p' = p_pin_count p"
      "sp_tuples p' = (if 263 \<le> sp_room p then sp_tuples p @ [Some user_row] else sp_tuples p)"
      "sp_room p' = (if 263 \<le> sp_room p then sp_room p - 263 else sp_room p)"
      "tm_inv (in_txn_manager inst2)" "tm_txn_map (in_txn_manager inst2) txn = Some t'" "tx_state t' = tx_state t"
      "tm_next_txn_id (in_txn_manager inst2) = tm_next_txn_id (in_txn_manager inst1)"
    using insert_one_row [OF tm(1) t(1) p_def] rows_pageD(1) [OF T(2)] unfolding p_def by blast
  have page: "rows_page (min 31 (Suc k)) (p_data p')"
    using rows_page_insert [OF _ R(4,7,8)] T(2) by (simp add: p_def)
  note W = held_write [OF T(1) sp_inv_wf [OF R(4)]]
  have h: "held fd blocks phase {pid} pid f (in_bpm inst2)"
      "contents blocks (in_bpm inst2) = (contents blocks (in_bpm inst1))(pid := p_data p')"
    using W R(2,5,6) by (simp_all add: p_def)
  obtain s3 where s3: "UnpinPage ndebug pid True (in_bpm inst2) = (Inr True, s3)" "quiet fd blocks phase s3"
      "contents blocks s3 = contents blocks (in_bpm inst2)"
    using held_unpin [OF h(1), of True ndebug] by auto
  have "users_db fd blocks phase (min 31 (Suc k)) n (inst2\<lparr>in_bpm := s3\<rparr>)"
    using s3(2,3) h(2) R(3,9,12) T(3-7) page tm by (auto simp: users_db_def)
  then show ?thesis using R(1,10,11) s3(1) t(2) by (auto simp: unpin_def)
qed

text \<open>\<open>InsertExecutor::Next\<close> over one row, in an active transaction.\<close>

lemma insert_next_ok:
  assumes db: "users_db fd blocks phase k n inst" and ti: "cat_dir (in_catalog inst) ''users'' = Some ti"
    and t: "tm_txn_map (in_txn_manager inst) txn = Some t" "tx_state t = ACTIVE"
  shows "\<exists>r inst' t'. op_Next os ndebug (Some txn) (InsertExecutor (DummyValues False) ''users'' (Some (ti_id ti))) out inst = (Inr r, inst')
    \<and> users_db fd blocks phase (min 31 (Suc k)) n inst' \<and> tm_txn_map (in_txn_manager inst') txn = Some t' \<and> tx_state t' = ACTIVE"
proof -
  have tm: "tm_inv (in_txn_manager inst)" "cat_inv (in_catalog inst)" "unat (tm_next_txn_id (in_txn_manager inst)) = n"
    and sch: "ti_schema ti = Schema_ctor users_columns"
    using db ti by (auto simp: users_db_def)
  obtain pid f W inst1 ti' where T: "target_page os (ti_id ti) ti inst = (Inr (pid, Some f), inst1)"
      "held fd blocks phase W pid f (in_bpm inst1)" "rows_page k (p_data (bp_pages (in_bpm inst1) ! f))"
      "in_txn_manager inst1 = in_txn_manager inst" "cat_inv (in_catalog inst1)"
      "cat_dir (in_catalog inst1) ''users'' = Some ti'" "ti_schema ti' = ti_schema ti"
      "ti_first_page_id ti' = pid" "pid \<noteq> INVALID_PAGE_ID"
    using target_page_ok [OF db ti] by blast
  obtain inst2 inst3 t' where R: "insert_rows (Some txn) user_row (Some f) 1 inst1 = (Inr (), inst2)"
      "unpin ndebug pid True inst2 = (Inr True, inst3)" "users_db fd blocks phase (min 31 (Suc k)) n inst3"
      "tm_txn_map (in_txn_manager inst3) txn = Some t'" "tx_state t' = ACTIVE"
    using insert_held_ok [of inst1 n txn t W pid f k ti' ndebug] tm t T sch by auto
  have row: "replicate (unat (sc_tuple_fixed_size (ti_schema ti))) 0 = user_row"
    by (simp add: sch users_schema_size user_row_def)
  have at: "table_at (ti_id ti) (in_catalog inst) = Inr ti" using tables.get_at [OF tm(2) ti] by simp
  have "op_Next os ndebug (Some txn) (InsertExecutor (DummyValues False) ''users'' (Some (ti_id ti))) out inst =
      (Inr (False, InsertExecutor (DummyValues True) ''users'' (Some (ti_id ti)), out), inst3)"
    using at T(1) R(1,2) row by (simp add: SetNumRows_def)
  then show ?thesis using R(3-5) by auto
qed

text \<open>An \<open>INSERT\<close> request always reports one row inserted; the table grows up to 31 rows.\<close>

lemma do_insert_ok:
  assumes db: "users_db fd blocks phase k n inst" and n: "n + 1 < 2 ^ 64"
  shows "\<exists>inst'. do_insert os ndebug inst = (Inr (''Success: 1 row inserted into '' @ users_quoted @ ''.'' @ newline), inst')
    \<and> users_db fd blocks phase (min 31 (Suc k)) (Suc n) inst'"
proof -
  have tm: "tm_inv (in_txn_manager inst)" "unat (tm_next_txn_id (in_txn_manager inst)) = n"
    using db by (simp_all add: users_db_def)
  obtain t inst1 where B: "begin_txn inst = (Inr (of_nat n), inst1)" "in_bpm inst1 = in_bpm inst"
      "in_catalog inst1 = in_catalog inst" "tm_inv (in_txn_manager inst1)"
      "unat (tm_next_txn_id (in_txn_manager inst1)) = Suc n"
      "tm_txn_map (in_txn_manager inst1) (of_nat n) = Some t" "tx_state t = ACTIVE"
    using begin_txn_ok [OF tm n] by blast
  have db1: "users_db fd blocks phase k (Suc n) inst1" using users_db_cong [OF db B(2,3,4)] B(5) by simp
  then obtain ti where ti: "cat_dir (in_catalog inst1) ''users'' = Some ti" and cat: "cat_inv (in_catalog inst1)"
    by (auto simp: users_db_def)
  have init: "op_Init (InsertExecutor_ctor DummyValues_ctor ''users'') (in_catalog inst1) =
      Inr (InsertExecutor (DummyValues False) ''users'' (Some (ti_id ti)))"
    using tables.get_at [OF cat ti] by (simp add: InsertExecutor_ctor_def DummyValues_ctor_def)
  obtain r inst2 t' where N: "op_Next os ndebug (Some (of_nat n)) (InsertExecutor (DummyValues False) ''users'' (Some (ti_id ti)))
        (TupleBatch_ctor :: unit tuple_batch) inst1 = (Inr r, inst2)"
      "users_db fd blocks phase (min 31 (Suc k)) (Suc n) inst2"
      "tm_txn_map (in_txn_manager inst2) (of_nat n) = Some t'" "tx_state t' = ACTIVE"
    using insert_next_ok [OF db1 ti B(6,7)] by blast
  have "tm_inv (in_txn_manager inst2)" using N(2) by (simp add: users_db_def)
  from commit_txn_ok [OF this N(3,4)] obtain inst3 where C: "commit_txn (of_nat n) inst2 = (Inr (), inst3)"
      "in_bpm inst3 = in_bpm inst2" "in_catalog inst3 = in_catalog inst2" "tm_inv (in_txn_manager inst3)"
      "tm_next_txn_id (in_txn_manager inst3) = tm_next_txn_id (in_txn_manager inst2)"
    by blast
  have "users_db fd blocks phase (min 31 (Suc k)) (Suc n) inst3"
    using users_db_cong [OF N(2) C(2,3,4)] C(5) N(2) by (simp add: users_db_def)
  then show ?thesis using B(1) init N(1) C(1) by (simp add: do_insert_def)
qed

text \<open>One step of the scan, and the whole loop, over any well-formed page.\<close>

lemma seq_scan_next_ok:
  assumes q: "quiet fd blocks phase (in_bpm inst)" and r: "p_data pg = contents blocks (in_bpm inst) pid" "sp_inv pg" "sp_count pg = k"
    and pid: "pid \<noteq> INVALID_PAGE_ID" and i: "i \<le> k"
  shows "\<exists>s'. seq_scan_next os ndebug name (Some p) pid (of_nat i) inst =
      (Inr (if i < k then (True, of_nat (Suc i)) else (False, of_nat i)), inst\<lparr>in_bpm := s'\<rparr>)
    \<and> quiet fd blocks phase s' \<and> contents blocks s' = contents blocks (in_bpm inst)"
proof -
  obtain f s1 where F: "FetchPage os pid (in_bpm inst) = (Inr (Some f), s1)" "held fd blocks phase {} pid f s1"
      "p_data (bp_pages s1 ! f) = contents blocks (in_bpm inst) pid" "contents blocks s1 = contents blocks (in_bpm inst)"
    using quiet_fetch [OF q] by blast
  obtain s2 where U: "UnpinPage ndebug pid False s1 = (Inr True, s2)" "quiet fd blocks phase s2" "contents blocks s2 = contents blocks s1"
    using held_unpin [OF F(2), of False ndebug] by auto
  have D': "sp_inv (bp_pages s1 ! f)" "sp_count (bp_pages s1 ! f) = k" "k < 2 ^ 16"
    using r sp_cong [of "bp_pages s1 ! f" pg] F(3) slotted.view_small [OF r(2)] by simp_all
  have ui: "unat (of_nat i :: u32) = i" using i D'(3) by (intro unat_of_nat_small) simp
  have le: "(ucast (GetTupleCount (bp_pages s1 ! f)) :: u32) \<le> of_nat i \<longleftrightarrow> \<not> i < k"
    using D'(2) ui by (simp add: word_le_nat_alt unat_ucast_up sp_count_def not_less)
  show ?thesis
    using F(1,4) U pid le slotted.gt_view [OF D'(1)]
    by (intro exI [of _ s2]) (simp add: seq_scan_next_def unpin_def Let_def add.commute)
qed

lemma scan_loop_ok:
  assumes "quiet fd blocks phase (in_bpm inst)" and "p_data pg = contents blocks (in_bpm inst) pid" and "sp_inv pg" and "sp_count pg = k"
    and "pid \<noteq> INVALID_PAGE_ID" and "i \<le> k"
  shows "\<exists>s'. scan_loop os ndebug txn (SeqScanExecutor name (Some p) pid (of_nat i)) out cnt inst =
      Some (Inr (cnt + of_nat (k - i)), inst\<lparr>in_bpm := s'\<rparr>)
    \<and> quiet fd blocks phase s' \<and> contents blocks s' = contents blocks (in_bpm inst)"
  using assms
proof (induction "k - i" arbitrary: i cnt inst)
  case 0
  then show ?case
    using seq_scan_next_ok [OF "0.prems", of ndebug name p] by (subst scan_loop.simps) auto
next
  case (Suc m)
  then have lt: "i < k" and m: "m = k - Suc i" by simp_all
  obtain s1 where s1: "seq_scan_next os ndebug name (Some p) pid (of_nat i) inst = (Inr (True, of_nat (Suc i)), inst\<lparr>in_bpm := s1\<rparr>)"
      "quiet fd blocks phase s1" "contents blocks s1 = contents blocks (in_bpm inst)"
    using seq_scan_next_ok [OF Suc.prems, of ndebug name p] lt by auto
  obtain s2 where s2: "scan_loop os ndebug txn (SeqScanExecutor name (Some p) pid (of_nat (Suc i))) out (cnt + 1) (inst\<lparr>in_bpm := s1\<rparr>) =
      Some (Inr (cnt + 1 + of_nat (k - Suc i)), inst\<lparr>in_bpm := s2\<rparr>)"
      "quiet fd blocks phase s2" "contents blocks s2 = contents blocks s1"
    using Suc.hyps(1) [OF m, of "inst\<lparr>in_bpm := s1\<rparr>" "cnt + 1"] Suc.prems s1 lt by auto
  have "k - i = Suc (k - Suc i)" using lt by simp
  then show ?case
    using s1 s2 by (subst scan_loop.simps) (auto simp: add.assoc add.commute)
qed

text \<open>A \<open>SELECT\<close> request counts the rows and changes nothing but the transaction counter.\<close>

lemma do_select_ok:
  assumes db: "users_db fd blocks phase k n inst" and n: "n + 1 < 2 ^ 64"
  shows "\<exists>inst'. do_select os ndebug inst =
      (Inr (''Success: '' @ decimal k @ '' rows selected from '' @ users_quoted @ ''.'' @ newline), inst')
    \<and> users_db fd blocks phase k (Suc n) inst'"
proof -
  have tm: "tm_inv (in_txn_manager inst)" "unat (tm_next_txn_id (in_txn_manager inst)) = n"
    using db by (simp_all add: users_db_def)
  obtain t inst1 where B: "begin_txn inst = (Inr (of_nat n), inst1)" "in_bpm inst1 = in_bpm inst"
      "in_catalog inst1 = in_catalog inst" "tm_inv (in_txn_manager inst1)"
      "unat (tm_next_txn_id (in_txn_manager inst1)) = Suc n"
      "tm_txn_map (in_txn_manager inst1) (of_nat n) = Some t" "tx_state t = ACTIVE"
    using begin_txn_ok [OF tm n] by blast
  have db1: "users_db fd blocks phase k (Suc n) inst1" using users_db_cong [OF db B(2,3,4)] B(5) by simp
  then obtain ti where ti: "cat_dir (in_catalog inst1) ''users'' = Some ti" and cat: "cat_inv (in_catalog inst1)"
    by (auto simp: users_db_def)
  have init: "op_Init (SeqScanExecutor_ctor ''users'') (in_catalog inst1) =
      Inr (SeqScanExecutor ''users'' (Some (ti_id ti)) (ti_first_page_id ti) 0)"
    using tables.get_at [OF cat ti] by (simp add: SeqScanExecutor_ctor_def)
  have "\<exists>s'. scan_loop os ndebug (Some (of_nat n)) (SeqScanExecutor ''users'' (Some (ti_id ti)) (ti_first_page_id ti) 0)
        TupleBatch_ctor 0 inst1 = Some (Inr (of_nat k), inst1\<lparr>in_bpm := s'\<rparr>)
      \<and> k \<le> 31 \<and> users_db fd blocks phase k (Suc n) (inst1\<lparr>in_bpm := s'\<rparr>)"
  proof (cases "ti_first_page_id ti = INVALID_PAGE_ID")
    case True
    then have "k = 0" using db1 ti by (simp add: users_db_def)
    then show ?thesis
      using True db1 by (subst scan_loop.simps) (auto simp: seq_scan_next_def intro!: exI [of _ "in_bpm inst1"])
  next
    case False
    have q: "quiet fd blocks phase (in_bpm inst1)" "rows_page k (contents blocks (in_bpm inst1) (ti_first_page_id ti))"
      using db1 ti False by (auto simp: users_db_def)
    obtain pg :: page where pg: "p_data pg = contents blocks (in_bpm inst1) (ti_first_page_id ti)" using q(2) by (auto simp: rows_page_def)
    note D = rows_pageD [of k pg, unfolded pg, OF q(2)]
    obtain s' where "scan_loop os ndebug (Some (of_nat n)) (SeqScanExecutor ''users'' (Some (ti_id ti)) (ti_first_page_id ti) (of_nat 0))
        TupleBatch_ctor 0 inst1 = Some (Inr (0 + of_nat (k - 0)), inst1\<lparr>in_bpm := s'\<rparr>)"
        "quiet fd blocks phase s'" "contents blocks s' = contents blocks (in_bpm inst1)"
      using scan_loop_ok [OF q(1) pg D(1,5) False, of 0] by blast
    moreover have "k \<le> 31" using D(4) .
    ultimately show ?thesis using db1 ti False by (intro exI [of _ s']) (auto simp: users_db_def)
  qed
  then obtain s' where S: "scan_loop os ndebug (Some (of_nat n)) (SeqScanExecutor ''users'' (Some (ti_id ti)) (ti_first_page_id ti) 0)
        TupleBatch_ctor 0 inst1 = Some (Inr (of_nat k), inst1\<lparr>in_bpm := s'\<rparr>)" "k \<le> 31"
      "users_db fd blocks phase k (Suc n) (inst1\<lparr>in_bpm := s'\<rparr>)" by blast
  have "tm_inv (in_txn_manager (inst1\<lparr>in_bpm := s'\<rparr>))" using B(4) by simp
  from commit_txn_ok [OF this, of "of_nat n" t] B(6,7) obtain inst3 where
      C: "commit_txn (of_nat n) (inst1\<lparr>in_bpm := s'\<rparr>) = (Inr (), inst3)"
      "in_bpm inst3 = s'" "in_catalog inst3 = in_catalog inst1" "tm_inv (in_txn_manager inst3)"
      "tm_next_txn_id (in_txn_manager inst3) = tm_next_txn_id (in_txn_manager inst1)"
    by auto
  have "users_db fd blocks phase k (Suc n) inst3"
    using users_db_cong [OF S(3), of inst3] C(2-5) B(5) by simp
  moreover have "to_string (sint (of_nat k :: i32)) = decimal k"
    using S(2) by (simp add: to_string_def signed_of_nat signed_take_bit_int_eq_self)
  ultimately show ?thesis using B(1) init S(1) C(1) by (simp add: do_select_def)
qed

end

section \<open>The specification of the server\<close>

text \<open>What a client may know: whether the table exists and how many rows it shows, and the number of the
  next transaction.\<close>

datatype request = R_create | R_insert | R_select | R_begin | R_other

definition classify :: "string \<Rightarrow> request" where
  "classify query =
     (if has_prefix ''CREATE TABLE'' query then R_create else if has_prefix ''INSERT'' query then R_insert
      else if has_prefix ''SELECT'' query then R_select else if has_prefix ''BEGIN'' query then R_begin else R_other)"

fun spec_answer :: "request \<Rightarrow> nat option \<Rightarrow> nat \<Rightarrow> string \<times> nat option \<times> nat" where
  "spec_answer R_create None n = (''Success: Table '' @ users_quoted @ '' created.'' @ newline, Some 0, n)"
| "spec_answer R_create (Some k) n = (''Error: Table already exists: users'' @ newline, Some k, n)"
| "spec_answer R_insert None n = (''Error: Table not found for INSERT: users'' @ newline, None, Suc n)"
| "spec_answer R_insert (Some k) n =
     (''Success: 1 row inserted into '' @ users_quoted @ ''.'' @ newline, Some (min 31 (Suc k)), Suc n)"
| "spec_answer R_select None n = (''Error: Table not found: users'' @ newline, None, Suc n)"
| "spec_answer R_select (Some k) n =
     (''Success: '' @ decimal k @ '' rows selected from '' @ users_quoted @ ''.'' @ newline, Some k, Suc n)"
| "spec_answer R_begin t n = (''Success: Transaction '' @ decimal n @ '' started.'' @ newline, t, Suc n)"
| "spec_answer R_other t n = (''Error: Unsupported statement. Try CREATE TABLE or BEGIN.'' @ newline, t, n)"

fun spec_session :: "string list \<Rightarrow> nat option \<Rightarrow> nat \<Rightarrow> string list" where
  "spec_session [] t n = []"
| "spec_session (q # qs) t n = (case spec_answer (classify q) t n of (a, t', n') \<Rightarrow> a # spec_session qs t' n')"

text \<open>The instance before the table was created.\<close>

definition empty_db :: "int \<Rightarrow> ('d \<Rightarrow> pageid \<Rightarrow> bytes) \<Rightarrow> ('d \<Rightarrow> io_phase) \<Rightarrow> nat \<Rightarrow> 'd sting_instance \<Rightarrow> bool" where
  "empty_db fd blocks phase n inst \<longleftrightarrow> quiet fd blocks phase (in_bpm inst) \<and> cat_inv (in_catalog inst) \<and> cat_room (in_catalog inst)
     \<and> cat_dir (in_catalog inst) ''users'' = None
     \<and> tm_inv (in_txn_manager inst) \<and> unat (tm_next_txn_id (in_txn_manager inst)) = n
     \<and> bp_page_table (in_bpm inst) (dm_next_page_id (bp_disk (in_bpm inst))) = None
     \<and> dm_next_page_id (bp_disk (in_bpm inst)) \<noteq> INVALID_PAGE_ID"

fun server_state :: "int \<Rightarrow> ('d \<Rightarrow> pageid \<Rightarrow> bytes) \<Rightarrow> ('d \<Rightarrow> io_phase) \<Rightarrow> nat option \<Rightarrow> nat \<Rightarrow> 'd sting_instance \<Rightarrow> bool" where
  "server_state fd blocks phase None n inst = empty_db fd blocks phase n inst"
| "server_state fd blocks phase (Some k) n inst = users_db fd blocks phase k n inst"

lemma server_state_tm:
  "server_state fd blocks phase t n inst \<Longrightarrow> tm_inv (in_txn_manager inst) \<and> unat (tm_next_txn_id (in_txn_manager inst)) = n"
  by (cases t) (simp_all add: empty_db_def users_db_def)

lemma server_state_begin:
  assumes "server_state fd blocks phase t n inst" and "in_bpm inst' = in_bpm inst" "in_catalog inst' = in_catalog inst"
    "tm_inv (in_txn_manager inst')" "unat (tm_next_txn_id (in_txn_manager inst')) = m"
  shows "server_state fd blocks phase t m inst'"
proof (cases t)
  case None
  then show ?thesis using assms by (simp add: empty_db_def)
next
  case (Some k)
  then show ?thesis using assms users_db_cong [of fd blocks phase k n inst inst'] by simp
qed

lemma decimal_length: "n < 10 ^ Suc m \<Longrightarrow> length (decimal n) \<le> Suc m"
proof (induction m arbitrary: n)
  case 0
  then show ?case by (simp add: decimal.simps [of n])
next
  case (Suc m)
  have "n div 10 < 10 ^ Suc m" using Suc.prems by (simp add: less_mult_imp_div_less)
  then show ?case using Suc.IH [of "n div 10"] by (simp add: decimal.simps [of n])
qed

lemma decimal_short: "n < 2 ^ 64 \<Longrightarrow> length (decimal n) \<le> 20"
  using decimal_length [of n 19] by simp

lemma spec_answer_short:
  assumes "spec_answer r t n = (a, t', n')" and "n < 2 ^ 64" and "\<And>k. t = Some k \<Longrightarrow> k < 2 ^ 64"
  shows "DoWriteAnswer a = a"
proof -
  have "length a \<le> MAX_LENGTH"
    using assms decimal_short [of n] decimal_short [of "the t"]
    by (cases "(r, t, n)" rule: spec_answer.cases) (auto simp: MAX_LENGTH_def users_quoted_def)
  then show ?thesis by (simp add: DoWriteAnswer_def)
qed

lemma server_state_rows: "server_state fd blocks phase (Some k) n inst \<Longrightarrow> k \<le> 31"
  by (auto simp: users_db_def rows_page_def split: if_splits)

lemma do_create_ok:
  assumes "empty_db fd blocks phase n inst"
  shows "\<exists>inst'. do_create inst = (Inr (''Success: Table '' @ users_quoted @ '' created.'' @ newline), inst')
    \<and> users_db fd blocks phase 0 n inst'"
proof -
  have cat: "cat_inv (in_catalog inst)" "cat_room (in_catalog inst)" "cat_dir (in_catalog inst) ''users'' = None"
    using assms by (simp_all add: empty_db_def)
  obtain i c' where c: "CreateTable ''users'' (Schema_ctor users_columns) INVALID_PAGE_ID (in_catalog inst) = (Inr i, c')"
      "cat_inv c'" "cat_dir c' = (cat_dir (in_catalog inst))(''users'' \<mapsto> \<lparr>ti_id = i, ti_name = ''users'',
         ti_schema = Schema_ctor users_columns, ti_first_page_id = INVALID_PAGE_ID\<rparr>)"
    using tables.create_new [OF cat] by blast
  then have "do_create inst = (Inr (''Success: Table '' @ users_quoted @ '' created.'' @ newline), inst\<lparr>in_catalog := c'\<rparr>)"
    by (simp add: do_create_def BindCreateTable_def)
  then show ?thesis using assms c by (simp add: users_db_def empty_db_def)
qed

lemma do_create_again:
  assumes "users_db fd blocks phase k n inst"
  shows "do_create inst = (Inl (Runtime_error ''Table already exists: users''), inst)"
  using assms tables.create_dup [of "in_catalog inst" "''users''" "Schema_ctor users_columns" INVALID_PAGE_ID]
  by (auto simp: users_db_def do_create_def BindCreateTable_def)

text \<open>\<open>INSERT\<close> and \<open>SELECT\<close> without a table, and \<open>BEGIN\<close>: a transaction is begun and not ended.\<close>

lemma no_table_ok:
  assumes db: "empty_db fd blocks phase n inst" and n: "n + 1 < 2 ^ 64"
  shows "\<exists>inst'. do_insert os ndebug inst = (Inl (Runtime_error ''Table not found for INSERT: users''), inst')
      \<and> empty_db fd blocks phase (Suc n) inst'"
    "\<exists>inst'. do_select os ndebug inst = (Inl (Runtime_error ''Table not found: users''), inst')
      \<and> empty_db fd blocks phase (Suc n) inst'"
proof -
  have st: "server_state fd blocks phase None n inst" using db by simp
  obtain t inst1 where B: "begin_txn inst = (Inr (of_nat n), inst1)" "in_bpm inst1 = in_bpm inst"
      "in_catalog inst1 = in_catalog inst" "tm_inv (in_txn_manager inst1)"
      "unat (tm_next_txn_id (in_txn_manager inst1)) = Suc n"
    using begin_txn_ok [of inst n] server_state_tm [OF st] n by blast
  have db1: "empty_db fd blocks phase (Suc n) inst1" using server_state_begin [OF st B(2-5)] by simp
  then have "GetTable ''users'' (in_catalog inst1) = Inr None"
    using tables.get_dir [of "in_catalog inst1" "''users''"] by (simp add: empty_db_def)
  then show "\<exists>inst'. do_insert os ndebug inst = (Inl (Runtime_error ''Table not found for INSERT: users''), inst')
      \<and> empty_db fd blocks phase (Suc n) inst'"
    "\<exists>inst'. do_select os ndebug inst = (Inl (Runtime_error ''Table not found: users''), inst')
      \<and> empty_db fd blocks phase (Suc n) inst'"
    using B(1) db1
    by (simp_all add: do_insert_def do_select_def InsertExecutor_ctor_def DummyValues_ctor_def SeqScanExecutor_ctor_def)
qed

lemma do_begin_ok:
  assumes st: "server_state fd blocks phase t n inst" and n: "n + 1 < 2 ^ 64"
  shows "\<exists>inst'. do_begin inst = (Inr (''Success: Transaction '' @ decimal n @ '' started.'' @ newline), inst')
    \<and> server_state fd blocks phase t (Suc n) inst'"
proof -
  obtain tx inst1 where B: "begin_txn inst = (Inr (of_nat n), inst1)" "in_bpm inst1 = in_bpm inst"
      "in_catalog inst1 = in_catalog inst" "tm_inv (in_txn_manager inst1)"
      "unat (tm_next_txn_id (in_txn_manager inst1)) = Suc n"
      "tm_txn_map (in_txn_manager inst1) (of_nat n) = Some tx" "tx_txn_id tx = of_nat n"
    using begin_txn_ok [of inst n] server_state_tm [OF st] n by blast
  have "unat (of_nat n :: u64) = n" using n by (intro unat_of_nat_small) simp
  then show ?thesis using B server_state_begin [OF st B(2-5)] by (simp add: do_begin_def)
qed

context reliable_device
begin

lemma handle_query_ok:
  assumes st: "server_state fd blocks phase t n inst" and n: "n + 1 < 2 ^ 64"
    and a: "spec_answer (classify q) t n = (a, t', n')"
  shows "\<exists>inst'. handle_query os ndebug q inst = (Inr a, inst') \<and> server_state fd blocks phase t' n' inst'"
proof (cases "classify q")
  case R_create
  then have p: "dispatch os ndebug q inst = do_create inst" by (auto simp: classify_def dispatch_def split: if_splits)
  show ?thesis
  proof (cases t)
    case None
    then show ?thesis using do_create_ok [of fd blocks phase n inst] st a R_create p by (auto simp: handle_query_def)
  next
    case (Some k)
    then show ?thesis using do_create_again [of fd blocks phase k n inst] st a R_create p by (auto simp: handle_query_def)
  qed
next
  case R_insert
  then have p: "dispatch os ndebug q inst = do_insert os ndebug inst" by (auto simp: classify_def dispatch_def split: if_splits)
  show ?thesis
  proof (cases t)
    case None
    then show ?thesis using no_table_ok(1) [of fd blocks phase n inst os ndebug] n st a R_insert p by (auto simp: handle_query_def)
  next
    case (Some k)
    then show ?thesis using do_insert_ok [of k n inst ndebug] n st a R_insert p by (auto simp: handle_query_def)
  qed
next
  case R_select
  then have p: "dispatch os ndebug q inst = do_select os ndebug inst" by (auto simp: classify_def dispatch_def split: if_splits)
  show ?thesis
  proof (cases t)
    case None
    then show ?thesis using no_table_ok(2) [of fd blocks phase n inst os ndebug] n st a R_select p by (auto simp: handle_query_def)
  next
    case (Some k)
    then show ?thesis using do_select_ok [of k n inst ndebug] n st a R_select p by (auto simp: handle_query_def)
  qed
next
  case R_begin
  then have "dispatch os ndebug q inst = do_begin inst" by (auto simp: classify_def dispatch_def split: if_splits)
  then show ?thesis using do_begin_ok [OF st n] a R_begin by (auto simp: handle_query_def)
next
  case R_other
  then have "dispatch os ndebug q inst = (Inr (''Error: Unsupported statement. Try CREATE TABLE or BEGIN.'' @ newline), inst)"
    by (auto simp: classify_def dispatch_def split: if_splits)
  then show ?thesis using st a R_other by (auto simp: handle_query_def)
qed

lemma session_ok:
  assumes "server_state fd blocks phase t n inst" and "n + length qs < 2 ^ 64"
  shows "fst (session os ndebug qs inst) = map Inr (spec_session qs t n)"
  using assms
proof (induction qs arbitrary: t n inst)
  case Nil
  then show ?case by simp
next
  case (Cons q qs)
  obtain a t' n' where a: "spec_answer (classify q) t n = (a, t', n')" by (cases "spec_answer (classify q) t n")
  obtain inst' where h: "handle_query os ndebug q inst = (Inr a, inst')" "server_state fd blocks phase t' n' inst'"
    using handle_query_ok [OF Cons.prems(1) _ a, of ndebug] Cons.prems(2) by auto
  have "k < 2 ^ 64" if "t = Some k" for k using server_state_rows [of fd blocks phase k n inst] that Cons.prems(1) by simp
  then have "DoWriteAnswer a = a" using spec_answer_short [OF a] Cons.prems(2) by simp
  moreover have "n' \<le> Suc n" using a by (cases "(classify q, t, n)" rule: spec_answer.cases) auto
  ultimately show ?case using Cons.IH [OF h(2)] Cons.prems(2) h(1) a by (auto simp: serve_def split: prod.splits)
qed

end

section \<open>Properties\<close>

lemma fresh_server_state:
  assumes "phase (dm_ring dm) = Idle" and "dm_fd dm = fd" and "0 < n" and "dm_next_page_id dm \<noteq> INVALID_PAGE_ID"
  shows "server_state fd blocks phase None 1 (StingInstance_ctor (BufferPoolManager_ctor n dm))"
  using quiet_ctor [of phase dm fd n blocks, OF assms(1,2,3)] tm_inv_ctor [of LogManager_ctor] assms(4)
  by (simp add: empty_db_def StingInstance_ctor_def cat_inv_def cat_room_def cat_dir_def CatalogManager_ctor_def
      TransactionManager_ctor_def BufferPoolManager_ctor_def)

text \<open>(C1) The whole server, from a request to the bytes on the device: on a reliable device, a freshly
  started server answers every sequence of requests exactly as the specification does, which knows only
  whether the table exists, how many rows it shows and the next transaction number.  In particular no
  request runs into undefined behaviour or an endless loop; a row inserted is seen by every later
  \<open>SELECT\<close>, up to 31 rows; the answers are never cut off.\<close>

theorem server_refines_spec:
  assumes "reliable_device os fd blocks phase wait" and "phase (dm_ring dm) = Idle" and "dm_fd dm = fd"
    and "0 < n" and "dm_next_page_id dm \<noteq> INVALID_PAGE_ID" and "length qs < 2 ^ 64 - 1"
  shows "fst (session os ndebug qs (StingInstance_ctor (BufferPoolManager_ctor n dm))) = map Inr (spec_session qs None 1)"
  using reliable_device.session_ok [OF assms(1) fresh_server_state [of phase, OF assms(2-5)], of qs ndebug] assms(6) by simp

theorem server_refines_spec_witness:
  "reliable_device sim_os 3 sim_blocks sim_phase sd_left
   \<and> fst (session sim_os False [''CREATE TABLE users'', ''INSERT'', ''INSERT'', ''SELECT *'', ''DROP'']
         (StingInstance_ctor (fresh_pool 1)))
     = map Inr [''Success: Table '' @ users_quoted @ '' created.'' @ newline,
         ''Success: 1 row inserted into '' @ users_quoted @ ''.'' @ newline,
         ''Success: 1 row inserted into '' @ users_quoted @ ''.'' @ newline,
         ''Success: 2 rows selected from '' @ users_quoted @ ''.'' @ newline,
         ''Error: Unsupported statement. Try CREATE TABLE or BEGIN.'' @ newline]"
proof -
  let ?dm = "\<lparr>dm_file_name = ''sting.db'', dm_fd = 3, dm_next_page_id = 0, dm_ring = fresh_device\<rparr>"
  have "fst (session sim_os False [''CREATE TABLE users'', ''INSERT'', ''INSERT'', ''SELECT *'', ''DROP'']
      (StingInstance_ctor (BufferPoolManager_ctor 1 ?dm)))
    = map Inr (spec_session [''CREATE TABLE users'', ''INSERT'', ''INSERT'', ''SELECT *'', ''DROP''] None 1)"
    by (rule server_refines_spec [OF reliable_sim.reliable_device_axioms]) (simp_all add: fresh_device_def INVALID_PAGE_ID_def)
  moreover have "decimal (Suc (Suc 0)) = ''2''"
    by (simp add: decimal.simps char_of_def bit_0 flip: numeral_2_eq_2)
  ultimately show ?thesis
    using reliable_sim.reliable_device_axioms [of 3]
    by (simp add: fresh_pool_def classify_def has_prefix_def del: session.simps)
qed

text \<open>The table never grows beyond the 31 rows that fit on its one page: the server answers every
  further \<open>INSERT\<close> with success although nothing is stored, so after \<open>m\<close> successful inserts a
  \<open>SELECT\<close> reports \<open>min 31 m\<close> rows.\<close>

theorem rows_beyond_31_are_dropped:
  assumes "reliable_device os fd blocks phase wait" and "phase (dm_ring dm) = Idle" and "dm_fd dm = fd"
    and "0 < n" and "dm_next_page_id dm \<noteq> INVALID_PAGE_ID" and "m < 2 ^ 64 - 3"
  shows "fst (session os ndebug ([''CREATE TABLE''] @ replicate m ''INSERT'' @ [''SELECT'']) (StingInstance_ctor (BufferPoolManager_ctor n dm)))
    = map Inr ([''Success: Table '' @ users_quoted @ '' created.'' @ newline]
        @ replicate m (''Success: 1 row inserted into '' @ users_quoted @ ''.'' @ newline)
        @ [''Success: '' @ decimal (min 31 m) @ '' rows selected from '' @ users_quoted @ ''.'' @ newline])"
proof -
  have c: "classify ''CREATE TABLE'' = R_create" "classify ''INSERT'' = R_insert" "classify ''SELECT'' = R_select"
    by (simp_all add: classify_def has_prefix_def)
  have "k \<le> 31 \<Longrightarrow> spec_session (replicate m ''INSERT'' @ [''SELECT'']) (Some k) j =
      replicate m (''Success: 1 row inserted into '' @ users_quoted @ ''.'' @ newline)
        @ [''Success: '' @ decimal (min 31 (k + m)) @ '' rows selected from '' @ users_quoted @ ''.'' @ newline]" for k j m
    by (induction m arbitrary: k j) (simp_all add: c min_def)
  from this [of 0] have s: "spec_session ([''CREATE TABLE''] @ replicate m ''INSERT'' @ [''SELECT'']) None 1 =
      [''Success: Table '' @ users_quoted @ '' created.'' @ newline]
        @ replicate m (''Success: 1 row inserted into '' @ users_quoted @ ''.'' @ newline)
        @ [''Success: '' @ decimal (min 31 m) @ '' rows selected from '' @ users_quoted @ ''.'' @ newline]"
    by (simp add: c)
  show ?thesis
    unfolding s [symmetric]
    by (rule reliable_device.session_ok [OF assms(1) fresh_server_state [of phase, OF assms(2-5)]]) (use assms(6) in simp)
qed

theorem rows_beyond_31_are_dropped_witness:
  "reliable_device sim_os 3 sim_blocks sim_phase sd_left
   \<and> last (fst (session sim_os False ([''CREATE TABLE''] @ replicate 40 ''INSERT'' @ [''SELECT'']) (StingInstance_ctor (fresh_pool 1))))
     = Inr (''Success: 31 rows selected from '' @ users_quoted @ ''.'' @ newline)"
proof -
  let ?dm = "\<lparr>dm_file_name = ''sting.db'', dm_fd = 3, dm_next_page_id = 0, dm_ring = fresh_device\<rparr>"
  have "fst (session sim_os False ([''CREATE TABLE''] @ replicate 40 ''INSERT'' @ [''SELECT'']) (StingInstance_ctor (BufferPoolManager_ctor 1 ?dm)))
    = map Inr ([''Success: Table '' @ users_quoted @ '' created.'' @ newline]
        @ replicate 40 (''Success: 1 row inserted into '' @ users_quoted @ ''.'' @ newline)
        @ [''Success: '' @ decimal (min 31 40) @ '' rows selected from '' @ users_quoted @ ''.'' @ newline])"
    by (rule rows_beyond_31_are_dropped [OF reliable_sim.reliable_device_axioms])
      (simp_all add: fresh_device_def INVALID_PAGE_ID_def)
  moreover have "decimal 31 = ''31''" by (simp add: decimal.simps char_of_def bit_0)
  ultimately show ?thesis
    using reliable_sim.reliable_device_axioms [of 3] unfolding fresh_pool_def by (simp del: session.simps)
qed

text \<open>An \<open>INSERT\<close> or \<open>SELECT\<close> before the table exists answers with an error, but the transaction it
  began stays active for ever: the handler has lost the only pointer to it, and its epoch keeps its
  reader.\<close>

theorem failed_request_leaks_txn:
  assumes "q = ''INSERT'' \<or> q = ''SELECT''"
  shows "case serve os ndebug q (StingInstance_ctor bpm) of (r, inst) \<Rightarrow>
      r \<in> {Inr (''Error: Table not found for INSERT: users'' @ newline), Inr (''Error: Table not found: users'' @ newline)}
      \<and> active_txns (in_txn_manager inst) = {1} \<and> em_active_epochs (tm_epochs (in_txn_manager inst)) ! 1 = 1"
proof -
  let ?i = "StingInstance_ctor bpm"
  have tm: "tm_inv (in_txn_manager ?i)" "unat (tm_next_txn_id (in_txn_manager ?i)) = 1"
    using tm_inv_ctor by (simp_all add: StingInstance_ctor_def TransactionManager_ctor_def)
  obtain t inst1 where B: "begin_txn ?i = (Inr (of_nat 1), inst1)" "in_catalog inst1 = in_catalog ?i"
      "tm_inv (in_txn_manager inst1)" "tm_txn_map (in_txn_manager inst1) (of_nat 1) = Some t" "tx_state t = ACTIVE"
    using begin_txn_ok [OF tm] by auto
  have act: "active_txns (in_txn_manager inst1) = {1}"
    using B(1) by (auto simp: begin_txn_def StingInstance_ctor_def TransactionManager_ctor_def TM_Begin_def Let_def
        EnterReadEpoch_def AppendWriteSet_def Transaction_ctor_def active_txns_def split: prod.splits if_splits)
  have "tx_read_epoch t = 1"
    using B(1,4) by (auto simp: begin_txn_def StingInstance_ctor_def TransactionManager_ctor_def TM_Begin_def Let_def
        EnterReadEpoch_def AppendWriteSet_def Transaction_ctor_def EnterEpoch_def EpochManager_ctor_def split: prod.splits if_splits)
  then have "read_epochs (in_txn_manager inst1) = {#1#}" using B(4) act by (simp add: read_epochs_def)
  then have "em_active_epochs (tm_epochs (in_txn_manager inst1)) ! 1 = of_nat (slot_readers {#1#} 1)"
    using B(3) by (auto simp: tm_inv_def epochs_tracked_def MAX_EPOCHS_def)
  moreover have "slot_readers {#1#} 1 = 1" by (simp add: epoch_slot_def MAX_EPOCHS_def)
  moreover have g: "GetTable ''users'' (in_catalog inst1) = Inr None"
    by (simp add: B(2) StingInstance_ctor_def CatalogManager_ctor_def GetTable_def)
  have "serve os ndebug ''INSERT'' ?i = (Inr (''Error: Table not found for INSERT: users'' @ newline), inst1)"
    using B(1) g by (simp add: serve_def handle_query_def dispatch_def has_prefix_def do_insert_def DoWriteAnswer_def
        InsertExecutor_ctor_def DummyValues_ctor_def MAX_LENGTH_def)
  moreover have "serve os ndebug ''SELECT'' ?i = (Inr (''Error: Table not found: users'' @ newline), inst1)"
    using B(1) g by (simp add: serve_def handle_query_def dispatch_def has_prefix_def do_select_def DoWriteAnswer_def
        SeqScanExecutor_ctor_def MAX_LENGTH_def)
  ultimately show ?thesis using assms act by (elim disjE) simp_all
qed

theorem failed_request_leaks_txn_witness:
  "active_txns (in_txn_manager (snd (serve sim_os False ''INSERT'' (StingInstance_ctor (fresh_pool 1))))) = {1}"
  using failed_request_leaks_txn [of "''INSERT''" sim_os False "fresh_pool 1"] by (auto split: prod.splits)

text \<open>When every frame is pinned, the executors do not cope: \<open>INSERT\<close> dereferences the null page it
  gets (undefined behaviour), and \<open>SELECT\<close> reports success with 0 rows instead of an error.\<close>

theorem full_pool_requests:
  assumes "tm_inv (in_txn_manager inst)" and "unat (tm_next_txn_id (in_txn_manager inst)) = n" and "n + 1 < 2 ^ 64"
    and cat: "cat_inv (in_catalog inst)" "cat_dir (in_catalog inst) ''users'' = Some ti"
    and full: "bp_free (in_bpm inst) = []" "bp_lru (in_bpm inst) = []"
      "bp_page_table (in_bpm inst) (ti_first_page_id ti) = None"
  shows "fst (do_insert os ndebug inst) = Inl Undefined
    \<and> fst (do_select os ndebug inst) = Inr (''Success: 0 rows selected from '' @ users_quoted @ ''.'' @ newline)"
proof -
  obtain t inst1 where B: "begin_txn inst = (Inr (of_nat n), inst1)" "in_bpm inst1 = in_bpm inst"
      "in_catalog inst1 = in_catalog inst" "tm_inv (in_txn_manager inst1)"
      "tm_txn_map (in_txn_manager inst1) (of_nat n) = Some t" "tx_state t = ACTIVE"
    using begin_txn_ok [OF assms(1-3)] by blast
  note G = tables.get_at [OF cat]
  have N: "NewPage os (in_bpm inst) = (Inr None, in_bpm inst)"
      "FetchPage os (ti_first_page_id ti) (in_bpm inst) = (Inr None, in_bpm inst)"
    using full NewPage_None FetchPage_None by blast+
  have i: "fst (do_insert os ndebug inst) = Inl Undefined"
    using B(1,2,3) G N
    by (simp add: do_insert_def InsertExecutor_ctor_def DummyValues_ctor_def target_page_def SetNumRows_def Let_def
        numeral_eq_Suc)
  have scan: "scan_loop os ndebug txn (SeqScanExecutor ''users'' (Some (ti_id ti)) (ti_first_page_id ti) 0) out 0 inst1
      = Some (Inr 0, inst1)" for txn out
    using N(2) B(2) by (subst scan_loop.simps) (auto simp: seq_scan_next_def)
  obtain inst2 where C: "commit_txn (of_nat n) inst1 = (Inr (), inst2)" using commit_txn_ok [OF B(4-6)] by blast
  have "to_string 0 = ''0''" by (simp add: to_string_def decimal.simps char_of_def bit_0)
  then show ?thesis
    using i B(1,3) G scan C by (simp add: do_select_def SeqScanExecutor_ctor_def)
qed

definition crowded_instance :: "simdev sting_instance" where
  "crowded_instance = (StingInstance_ctor full_pool)
     \<lparr>in_catalog := create_all [(''users'', Schema_ctor users_columns, 5)] CatalogManager_ctor\<rparr>"

theorem full_pool_requests_witness:
  "fst (do_insert sim_os False crowded_instance) = Inl Undefined
   \<and> fst (do_select sim_os False crowded_instance) = Inr (''Success: 0 rows selected from '' @ users_quoted @ ''.'' @ newline)"
proof (rule full_pool_requests)
  show "tm_inv (in_txn_manager crowded_instance)" "unat (tm_next_txn_id (in_txn_manager crowded_instance)) = 1"
    using tm_inv_ctor by (simp_all add: crowded_instance_def StingInstance_ctor_def TransactionManager_ctor_def)
  show "cat_inv (in_catalog crowded_instance)"
    by (simp add: crowded_instance_def StingInstance_ctor_def CreateTable_def CatalogManager_ctor_def cat_inv_def TableInfo_ctor_def Let_def)
  show "cat_dir (in_catalog crowded_instance) ''users'' = Some (TableInfo_ctor 0 ''users'' (Schema_ctor users_columns) 5)"
    by (simp add: crowded_instance_def StingInstance_ctor_def CreateTable_def CatalogManager_ctor_def cat_dir_def Let_def)
  show "bp_free (in_bpm crowded_instance) = []" "bp_lru (in_bpm crowded_instance) = []"
    "bp_page_table (in_bpm crowded_instance) (ti_first_page_id (TableInfo_ctor 0 ''users'' (Schema_ctor users_columns) 5)) = None"
    by (simp_all add: crowded_instance_def StingInstance_ctor_def full_pool_def run_sim TableInfo_ctor_def)
qed simp

end
