(* ===== verification/Table_Heap.thy ===== *)
theory Table_Heap
  imports End_To_End
begin

text \<open>
  What holds for any table page, not only the pages the request handler makes: how many tuples of one size a page takes, and
  what a sequential scan (\<^verbatim>\<open>src/execution/seq_scan_executor.h\<close>) counts.
\<close>

section \<open>Filling a page\<close>

text \<open>The number of inserts that succeed, and the page.\<close>

fun insert_many :: "nat \<Rightarrow> bytes \<Rightarrow> page \<Rightarrow> error + nat \<times> page" where
  "insert_many 0 t p = Inr (0, p)"
| "insert_many (Suc m) t p =
     (case InsertTuple t p of
        Inl e \<Rightarrow> Inl e
      | Inr (None, p) \<Rightarrow> insert_many m t p
      | Inr (Some r, p) \<Rightarrow> (case insert_many m t p of Inl e \<Rightarrow> Inl e | Inr (n, p) \<Rightarrow> Inr (Suc n, p)))"

lemma insert_many_ok:
  assumes "sp_inv p" and "length t + SLOT_SIZE \<le> 65535"
  shows "\<exists>p'. insert_many m t p = Inr (min m (sp_room p div (length t + SLOT_SIZE)), p') \<and> sp_inv p'
    \<and> sp_tuples p' = sp_tuples p @ replicate (min m (sp_room p div (length t + SLOT_SIZE))) (stored t)"
  using assms
proof (induction m arbitrary: p)
  case (Suc m)
  let ?s = "length t + SLOT_SIZE"
  have s: "0 < ?s" by (simp add: SLOT_SIZE_def)
  show ?case
  proof (cases "?s \<le> sp_room p")
    case False
    then show ?thesis using Suc.IH [OF Suc.prems] slotted.ins_full [OF Suc.prems] by (simp add: not_le)
  next
    case True
    then obtain r p1 where p1: "InsertTuple t p = Inr (Some r, p1)" "sp_inv p1" "sp_tuples p1 = sp_tuples p @ [stored t]"
        "sp_room p1 = sp_room p - ?s"
      using slotted.ins_ok [OF Suc.prems(1) True] by blast
    have d: "sp_room p div ?s = Suc (sp_room p1 div ?s)" using True s p1(4) by (simp add: le_div_geq)
    then show ?thesis using Suc.IH [OF p1(2) Suc.prems(2)] p1(1,3) by auto
  qed
qed simp

section \<open>Properties\<close>

text \<open>A new page takes exactly \<open>8180 div (n + 4)\<close> tuples of \<open>n\<close> bytes: of any number of inserts that many succeed, in
  order, and the rest are refused without changing the page.\<close>

theorem page_capacity:
  assumes "length t + SLOT_SIZE \<le> 65535"
  shows "\<exists>p'. insert_many m t (SP_Init p) = Inr (min m (8180 div (length t + 4)), p') \<and> sp_inv p'
    \<and> sp_tuples p' = replicate (min m (8180 div (length t + 4))) (stored t)"
  using insert_many_ok [OF SP_Init_view(1) assms, of m p] SP_Init_view(2,4) [of p] by (simp add: SLOT_SIZE_def)

theorem page_capacity_witness:
  "\<exists>p'. insert_many 40 user_row (SP_Init Page_ctor) = Inr (31, p') \<and> sp_tuples p' = replicate 31 (Some user_row)"
  using page_capacity [of user_row 40 Page_ctor] stored_user_row by (auto simp: SLOT_SIZE_def)

text \<open>(C37) A sequential scan of any well-formed page of any table ends, counts its slots and leaves pool and store as they
  were.  Slots of deleted tuples are counted too: the executor ignores what \<open>GetTuple\<close> answers.\<close>

theorem scan_counts_every_slot:
  assumes "reliable_device os fd blocks phase wait" and "quiet fd blocks phase (in_bpm inst)"
    and "p_data pg = contents blocks (in_bpm inst) pid" and "sp_inv pg" and "pid \<noteq> INVALID_PAGE_ID"
  shows "\<exists>s'. scan_loop os ndebug txn (SeqScanExecutor name (Some p) pid 0) out 0 inst
      = Some (Inr (of_nat (length (sp_tuples pg))), inst\<lparr>in_bpm := s'\<rparr>)
    \<and> quiet fd blocks phase s' \<and> contents blocks s' = contents blocks (in_bpm inst)"
  using reliable_device.scan_loop_ok [OF assms(1-4) refl assms(5), of 0 ndebug txn name p out 0] by simp

text \<open>A page of two tuples with the first one deleted, on the simulated device: the scan counts two, one of them is null.\<close>

definition half_deleted :: page where
  "half_deleted = deleted 0 (inserted [6] (inserted [5] (SP_Init Page_ctor)))"

lemma half_deleted_view: "sp_inv half_deleted" "sp_tuples half_deleted = [None, Some [6]]"
proof -
  have r: "length [5 :: byte] + SLOT_SIZE \<le> sp_room (SP_Init Page_ctor)" by (simp add: SP_Init_view SLOT_SIZE_def)
  note A = inserted_view [OF SP_Init_view(1) r]
  have r': "length [6 :: byte] + SLOT_SIZE \<le> sp_room (inserted [5] (SP_Init Page_ctor))"
    by (simp add: A(3) SP_Init_view SLOT_SIZE_def)
  note B = inserted_view [OF A(1) r']
  have "sp_count (inserted [6] (inserted [5] (SP_Init Page_ctor))) = 2"
    using length_sp_tuples [of "inserted [6] (inserted [5] (SP_Init Page_ctor))"] B(2) A(2) SP_Init_view(2) by simp
  note D = deleted_view [OF B(1), of 0]
  show "sp_inv half_deleted" "sp_tuples half_deleted = [None, Some [6]]"
    using D(1,2) B(2) A(2) SP_Init_view(2) \<open>sp_count _ = 2\<close> by (simp_all add: half_deleted_def stored_def)
qed

theorem scan_counts_every_slot_witness:
  "\<exists>inst s'. contents sim_blocks (in_bpm inst) 0 = p_data half_deleted
    \<and> GetTuple \<lparr>rid_page_id = 0, rid_slot_num = 0\<rparr> half_deleted = Inr None
    \<and> scan_loop sim_os False None (SeqScanExecutor ''t'' (Some 0) 0 0) TupleBatch_ctor 0 inst = Some (Inr 2, inst\<lparr>in_bpm := s'\<rparr>)"
proof -
  define dev where "dev = fresh_device\<lparr>sd_blocks := \<lambda>off. p_data half_deleted\<rparr>"
  let ?dm = "\<lparr>dm_file_name = ''sting.db'', dm_fd = 3, dm_next_page_id = 0, dm_ring = dev\<rparr>"
  let ?inst = "StingInstance_ctor (BufferPoolManager_ctor 1 ?dm)"
  have q: "quiet 3 sim_blocks sim_phase (in_bpm ?inst)"
    using quiet_ctor [of sim_phase ?dm 3 1 sim_blocks] by (simp add: dev_def fresh_device_def StingInstance_ctor_def)
  have "length (p_data half_deleted) = PAGE_SIZE" using half_deleted_view(1) by (simp add: sp_inv_def page_wf_def)
  then have c: "p_data half_deleted = contents sim_blocks (in_bpm ?inst) 0"
    by (simp add: contents_def StingInstance_ctor_def BufferPoolManager_ctor_def sim_blocks_def dev_def Let_def)
  from scan_counts_every_slot [OF reliable_sim.reliable_device_axioms q c half_deleted_view(1)]
  obtain s' where "scan_loop sim_os False None (SeqScanExecutor ''t'' (Some 0) 0 0) TupleBatch_ctor 0 ?inst = Some (Inr 2, ?inst\<lparr>in_bpm := s'\<rparr>)"
    by (fastforce simp: half_deleted_view(2) INVALID_PAGE_ID_def)
  moreover have "GetTuple \<lparr>rid_page_id = 0, rid_slot_num = 0\<rparr> half_deleted = Inr None"
    using slotted.gt_view [OF half_deleted_view(1)] by (simp add: half_deleted_view(2))
  ultimately show ?thesis using c by metis
qed

end
