(* ===== verification/Page_Race.thy ===== *)
theory Page_Race
  imports Table_Heap
begin

text \<open>
  \<open>InsertTuple\<close>, \<open>GetTuple\<close> and \<open>Init\<close> of \<^verbatim>\<open>src/storage/table/slotted_page.cpp\<close> cut into their accesses to the page.  The executors call
  them without a latch, so workers on the same page interleave at these accesses.  Shown: the accesses are the methods; no interleaving
  of any number of inserts writes outside the page or breaks its header; while one worker inserts alone, every
  other worker sees the rows of before or of after; but an insert that has just read the count drops what others insert
  before it goes on.
\<close>

section \<open>The accesses\<close>

text \<open>Where an insert is, with its local variables: the tuple, \<open>tuple_count\<close>, and \<open>free_space\<close> after the tuple was allocated.\<close>

datatype ipc =
    I_count bytes | I_free bytes u16
  | I_set_free bytes u16 u16 | I_data bytes u16 u16 | I_slot_offset bytes u16 u16 | I_slot_size bytes u16 u16
  | I_set_count u16 | I_dirty u16
  | I_done "rid option" | I_dead error

fun istep :: "ipc \<times> page \<Rightarrow> ipc \<times> page" where
  "istep (I_count t, p) = (if length t > 65535 then I_done None else I_free t (GetTupleCount p), p)"
| "istep (I_free t c, p) =
     (let tuple_size = of_nat (length t) :: u16; free_space = GetFreeSpacePointer p;
          required_space = of_nat (unat tuple_size + SLOT_SIZE) :: u16
      in if uint free_space - uint (slot_offset (unat c)) < uint required_space then (I_done None, p)
         else (I_set_free t c (free_space - tuple_size), p))"
| "istep (I_set_free t c f, p) = (I_data t c f, SetFreeSpacePointer f p)"
| "istep (I_data t c f, p) =
     (case memcpy_to (p_data p) (unat f) t of Inl e \<Rightarrow> (I_dead e, p) | Inr d \<Rightarrow> (I_slot_offset t c f, p\<lparr>p_data := d\<rparr>))"
| "istep (I_slot_offset t c f, p) =
     (case memcpy_to (p_data p) (unat (slot_offset (unat c))) (le_bytes 2 f) of
        Inl e \<Rightarrow> (I_dead e, p) | Inr d \<Rightarrow> (I_slot_size t c f, p\<lparr>p_data := d\<rparr>))"
| "istep (I_slot_size t c f, p) =
     (case memcpy_to (p_data p) (unat (slot_offset (unat c)) + 2) (le_bytes 2 (of_nat (length t) :: u16)) of
        Inl e \<Rightarrow> (I_dead e, p) | Inr d \<Rightarrow> (I_set_count c, p\<lparr>p_data := d\<rparr>))"
| "istep (I_set_count c, p) = (I_dirty c, SetTupleCount (c + 1) p)"
| "istep (I_dirty c, p) = (I_done (Some \<lparr>rid_page_id = p_page_id p, rid_slot_num = ucast c\<rparr>), SetDirty True p)"
| "istep (I_done r, p) = (I_done r, p)"
| "istep (I_dead e, p) = (I_dead e, p)"

text \<open>\<open>GetTuple\<close>, with the offset and the size it has read; it changes nothing.\<close>

datatype gpc =
    G_count rid | G_offset rid | G_size rid u16 | G_data u16 u16
  | G_done "bytes option" | G_dead error

fun gstep :: "page \<Rightarrow> gpc \<Rightarrow> gpc" where
  "gstep p (G_count r) = (if unat (rid_slot_num r) \<ge> unat (GetTupleCount p) then G_done None else G_offset r)"
| "gstep p (G_offset r) =
     (case memcpy_from (p_data p) (unat (slot_offset (unat (rid_slot_num r)))) 2 of
        Inl e \<Rightarrow> G_dead e | Inr ob \<Rightarrow> G_size r (le_word ob))"
| "gstep p (G_size r tuple_offset) =
     (case memcpy_from (p_data p) (unat (slot_offset (unat (rid_slot_num r))) + 2) 2 of
        Inl e \<Rightarrow> G_dead e
      | Inr sb \<Rightarrow> (let tuple_size = le_word sb in if tuple_size = 0 then G_done None else G_data tuple_offset tuple_size))"
| "gstep p (G_data tuple_offset tuple_size) =
     (case memcpy_from (p_data p) (unat tuple_offset) (unat tuple_size) of Inl e \<Rightarrow> G_dead e | Inr t \<Rightarrow> G_done (Some t))"
| "gstep p (G_done d) = G_done d"
| "gstep p (G_dead e) = G_dead e"

text \<open>\<open>Init\<close>: the accesses 0 to 3.\<close>

definition format_access :: "nat \<Rightarrow> page \<Rightarrow> page" where
  "format_access k p =
     (if k = 0 then ResetMemory p
      else if k = 1 then SetLSN 0 p
      else if k = 2 then SetTupleCount 0 p
      else SetFreeSpacePointer (of_nat PAGE_SIZE) p)"

text \<open>Any number of inserts into one page.\<close>

inductive race :: "page \<times> ipc list \<Rightarrow> page \<times> ipc list \<Rightarrow> bool" where
  access: "i < length ws \<Longrightarrow> istep (ws ! i, p) = (w, p') \<Longrightarrow> race (p, ws) (p', ws[i := w])"

section \<open>Staying inside the page\<close>

text \<open>The header words are in range.  Unlike \<open>sp_inv\<close> this holds however inserts interleave.\<close>

definition sane :: "page \<Rightarrow> bool" where
  "sane p \<longleftrightarrow> page_wf p \<and> sp_free p \<le> PAGE_SIZE \<and> HEADER_SIZE + sp_count p * SLOT_SIZE \<le> PAGE_SIZE"

lemma sp_inv_sane: "sp_inv p \<Longrightarrow> sane p"
  by (auto simp: sp_inv_def sane_def)

text \<open>What the local variables of an insert promise; it does not mention the page, so others cannot break it.\<close>

fun local_ok :: "ipc \<Rightarrow> bool" where
  "local_ok (I_count t) = (length t \<le> 65531)"
| "local_ok (I_free t c) = (length t \<le> 65531 \<and> HEADER_SIZE + unat c * SLOT_SIZE \<le> PAGE_SIZE)"
| "local_ok (I_set_free t c f) = (HEADER_SIZE + unat c * SLOT_SIZE + 4 \<le> unat f \<and> unat f + length t \<le> PAGE_SIZE)"
| "local_ok (I_data t c f) = (HEADER_SIZE + unat c * SLOT_SIZE + 4 \<le> unat f \<and> unat f + length t \<le> PAGE_SIZE)"
| "local_ok (I_slot_offset t c f) = (HEADER_SIZE + unat c * SLOT_SIZE + 4 \<le> unat f \<and> unat f + length t \<le> PAGE_SIZE)"
| "local_ok (I_slot_size t c f) = (HEADER_SIZE + unat c * SLOT_SIZE + 4 \<le> unat f \<and> unat f + length t \<le> PAGE_SIZE)"
| "local_ok (I_set_count c) = (HEADER_SIZE + unat c * SLOT_SIZE + 4 \<le> PAGE_SIZE)"
| "local_ok (I_dirty c) = True"
| "local_ok (I_done r) = True"
| "local_ok (I_dead e) = False"

lemma sane_put:
  assumes "sane p" and "HEADER_SIZE \<le> off" and "off + length bs \<le> PAGE_SIZE"
  shows "memcpy_to (p_data p) off bs = Inr (mem_put off bs (p_data p))" "sane (p\<lparr>p_data := mem_put off bs (p_data p)\<rparr>)"
proof -
  have wf: "page_wf p" using assms(1) by (simp add: sane_def)
  then show "memcpy_to (p_data p) off bs = Inr (mem_put off bs (p_data p))" using assms(3) by (simp add: memcpy_to_def page_wf_def)
  have "GetTupleCount (p\<lparr>p_data := mem_put off bs (p_data p)\<rparr>) = GetTupleCount p"
      "GetFreeSpacePointer (p\<lparr>p_data := mem_put off bs (p_data p)\<rparr>) = GetFreeSpacePointer p"
    using assms(2,3) by (auto intro!: tuple_count.rd_put_outside free_ptr.rd_put_outside wf simp: layout_defs)
  then show "sane (p\<lparr>p_data := mem_put off bs (p_data p)\<rparr>)"
    using assms wf by (simp add: sane_def sp_free_def sp_count_def page_wf_def)
qed

lemma allocated_ok:
  assumes "sane p" and "length t \<le> 65531" and "HEADER_SIZE + unat c * SLOT_SIZE \<le> PAGE_SIZE"
    and "\<not> uint (GetFreeSpacePointer p) - uint (slot_offset (unat c)) < uint (of_nat (unat (of_nat (length t) :: u16) + SLOT_SIZE) :: u16)"
  shows "local_ok (I_set_free t c (GetFreeSpacePointer p - of_nat (length t)))"
    "unat (GetFreeSpacePointer p - of_nat (length t)) + length t = sp_free p"
proof -
  have c: "unat (slot_offset (unat c)) = HEADER_SIZE + unat c * SLOT_SIZE" using assms(3) by (intro slot_offset_unat) (simp add: layout_defs)
  have t: "unat (of_nat (length t) :: u16) = length t" using assms(2) by (intro unat_of_nat_small) simp
  have r: "unat (of_nat (length t + SLOT_SIZE) :: u16) = length t + SLOT_SIZE" using assms(2) by (intro unat_of_nat_small) (simp add: layout_defs)
  have "\<not> int (sp_free p) - int (HEADER_SIZE + unat c * SLOT_SIZE) < int (length t + SLOT_SIZE)"
    using assms(4) unfolding uint_nat t r c sp_free_def .
  then have le: "HEADER_SIZE + unat c * SLOT_SIZE + 4 + length t \<le> sp_free p" unfolding SLOT_SIZE_def by linarith
  then have "of_nat (length t) \<le> GetFreeSpacePointer p" by (simp add: word_le_nat_alt t sp_free_def)
  then have u: "unat (GetFreeSpacePointer p - of_nat (length t)) = sp_free p - length t" by (simp add: unat_sub t sp_free_def)
  then show "local_ok (I_set_free t c (GetFreeSpacePointer p - of_nat (length t)))"
    using le assms(1) by (simp add: sane_def layout_defs)
  show "unat (GetFreeSpacePointer p - of_nat (length t)) + length t = sp_free p" using u le by simp
qed

lemma access_ok:
  assumes s: "sane p" and w: "local_ok w" and step: "istep (w, p) = (w', p')"
  shows "sane p' \<and> local_ok w'"
proof -
  have wf: "page_wf p" using s by (simp add: sane_def)
  have slot: "unat (slot_offset (unat c)) = HEADER_SIZE + unat c * SLOT_SIZE" if "HEADER_SIZE + unat c * SLOT_SIZE \<le> PAGE_SIZE" for c :: u16
    using that by (intro slot_offset_unat) (simp add: layout_defs)
  show ?thesis
  proof (cases w)
    case (I_count t)
    then show ?thesis using s w step by (auto simp: sane_def sp_count_def)
  next
    case (I_free t c)
    then show ?thesis using s w step allocated_ok(1) [OF s, of t c] by (auto simp: Let_def split: if_splits)
  next
    case (I_set_free t c f)
    then show ?thesis using s w step by (auto simp: sane_def sp_free_def sp_count_def header_rd_wr header_wf wf)
  next
    case (I_data t c f)
    then show ?thesis using sane_put [OF s, of "unat f" t] w step by auto
  next
    case (I_slot_offset t c f)
    then show ?thesis using sane_put [OF s, of "HEADER_SIZE + unat c * SLOT_SIZE" "le_bytes 2 f"] w step slot [of c] by auto
  next
    case (I_slot_size t c f)
    then show ?thesis
      using sane_put [OF s, of "HEADER_SIZE + unat c * SLOT_SIZE + 2" "le_bytes 2 (of_nat (length t) :: u16)"] w step slot [of c] by auto
  next
    case (I_set_count c)
    then have "unat (c + 1) = Suc (unat c)" using w by (simp add: unat_word_ariths layout_defs)
    then show ?thesis using I_set_count s w step by (auto simp: sane_def sp_free_def sp_count_def header_rd_wr header_wf wf layout_defs)
  next
    case (I_dirty c)
    then show ?thesis using s step by (auto simp: sane_def sp_free_def sp_count_def GetTupleCount_def GetFreeSpacePointer_def page_wf_def)
  qed (use s w step in auto)
qed

lemma race_ok:
  assumes "race (p, ws) (p', ws')" and "sane p" and "\<forall>w \<in> set ws. local_ok w"
  shows "sane p' \<and> (\<forall>w \<in> set ws'. local_ok w)"
  using assms(1)
proof (cases rule: race.cases)
  case (access i w)
  then show ?thesis using access_ok [OF assms(2) _ access(3)] assms(3) set_update_subset_insert [of ws i w] by fastforce
qed

section \<open>One insert at a time\<close>

text \<open>\<open>q\<close> shows the rows of \<open>p\<close>: same count, same bytes in the slots and above the free space of \<open>p\<close>.\<close>

definition keeps_rows :: "page \<Rightarrow> page \<Rightarrow> bool" where
  "keeps_rows p q \<longleftrightarrow> page_wf q \<and> sp_count q = sp_count p \<and> HEADER_SIZE + sp_count p * SLOT_SIZE \<le> sp_free q \<and> sp_free q \<le> sp_free p
     \<and> (\<forall>off n. HEADER_SIZE \<le> off \<longrightarrow> off + n \<le> PAGE_SIZE \<longrightarrow> off + n \<le> HEADER_SIZE + sp_count p * SLOT_SIZE \<or> sp_free p \<le> off \<longrightarrow>
          mem_get off n (p_data q) = mem_get off n (p_data p))"

lemma keeps_refl: "sp_inv p \<Longrightarrow> keeps_rows p p"
  by (simp add: keeps_rows_def sp_inv_def)

lemma keeps_rows_same:
  assumes inv: "sp_inv p" and k: "keeps_rows p q"
  shows "sp_inv q" "sp_tuples q = sp_tuples p"
proof -
  have n: "sp_count q = sp_count p" "page_wf q" "HEADER_SIZE + sp_count p * SLOT_SIZE \<le> sp_free q" "sp_free q \<le> sp_free p"
    and get: "HEADER_SIZE \<le> off \<Longrightarrow> off + n \<le> PAGE_SIZE \<Longrightarrow> off + n \<le> HEADER_SIZE + sp_count p * SLOT_SIZE \<or> sp_free p \<le> off \<Longrightarrow>
      mem_get off n (p_data q) = mem_get off n (p_data p)" for off n
    using k unfolding keeps_rows_def by (simp_all, blast)
  have hdr: "HEADER_SIZE + sp_count p * SLOT_SIZE \<le> sp_free p" using inv by (simp add: sp_inv_def)
  have slot: "tup_off i q = tup_off i p" "tup_size i q = tup_size i p" if i: "i < sp_count p" for i
  proof -
    have le: "HEADER_SIZE + i * SLOT_SIZE + 4 \<le> HEADER_SIZE + sp_count p * SLOT_SIZE" using i by (simp add: layout_defs)
    note L = sp_inv_lengths(1) [OF inv i]
    show "tup_off i q = tup_off i p" unfolding tup_off_def by (subst get) (use L le in auto)
    show "tup_size i q = tup_size i p" unfolding tup_size_def by (subst get) (use L le in auto)
  qed
  show "sp_inv q" using inv n slot by (auto simp: sp_inv_def)
  have "sp_tuple q i = sp_tuple p i" if i: "i < sp_count p" for i
  proof -
    note L = sp_inv_lengths [OF inv i]
    have "mem_get (unat (tup_off i p)) (unat (tup_size i p)) (p_data q) = mem_get (unat (tup_off i p)) (unat (tup_size i p)) (p_data p)"
      by (rule get) (use L hdr in auto)
    then show ?thesis by (simp add: sp_tuple_def slot [OF i])
  qed
  then show "sp_tuples q = sp_tuples p" by (simp add: sp_tuples_def n(1))
qed

lemma keeps_put:
  assumes k: "keeps_rows p q" and p: "sp_free p \<le> PAGE_SIZE" and off: "HEADER_SIZE + sp_count p * SLOT_SIZE \<le> off" "off + length bs \<le> sp_free p"
  shows "keeps_rows p (q\<lparr>p_data := mem_put off bs (p_data q)\<rparr>)"
proof -
  let ?q = "q\<lparr>p_data := mem_put off bs (p_data q)\<rparr>"
  have wf: "page_wf q" using k by (simp add: keeps_rows_def)
  have "GetTupleCount ?q = GetTupleCount q" "GetFreeSpacePointer ?q = GetFreeSpacePointer q"
    using off p by (auto intro!: tuple_count.rd_put_outside free_ptr.rd_put_outside wf simp: layout_defs)
  then have "sp_count ?q = sp_count q" "sp_free ?q = sp_free q" by (simp_all add: sp_count_def sp_free_def)
  moreover have "mem_get o' n (p_data ?q) = mem_get o' n (p_data q)"
    if "o' + n \<le> PAGE_SIZE" "o' + n \<le> HEADER_SIZE + sp_count p * SLOT_SIZE \<or> sp_free p \<le> o'" for o' n
    using that off p wf by (auto intro!: mem_get_put_disjoint simp: page_wf_def)
  moreover have "page_wf ?q" using wf off p by (simp add: page_wf_def)
  ultimately show ?thesis using k by (simp add: keeps_rows_def)
qed

lemma keeps_set_free:
  assumes k: "keeps_rows p q" and f: "HEADER_SIZE + sp_count p * SLOT_SIZE \<le> unat f" "unat f \<le> sp_free p"
  shows "keeps_rows p (SetFreeSpacePointer f q)"
proof -
  have wf: "page_wf q" using k by (simp add: keeps_rows_def)
  have "mem_get off n (p_data (SetFreeSpacePointer f q)) = mem_get off n (p_data q)" if "HEADER_SIZE \<le> off" "off + n \<le> PAGE_SIZE" for off n
    using that by (intro free_ptr.get_wr_outside wf) (simp_all add: layout_defs)
  moreover have "sp_count (SetFreeSpacePointer f q) = sp_count q" "sp_free (SetFreeSpacePointer f q) = unat f"
    by (simp_all add: sp_count_def sp_free_def header_rd_wr wf)
  ultimately show ?thesis using k f by (simp add: keeps_rows_def header_wf wf)
qed

text \<open>The pages an insert goes through when nobody interferes.\<close>

definition insert_path :: "bytes \<Rightarrow> page \<Rightarrow> (ipc \<times> page) list" where
  "insert_path t p =
     (let c = GetTupleCount p; f = GetFreeSpacePointer p - of_nat (length t); s = HEADER_SIZE + sp_count p * SLOT_SIZE;
          q1 = SetFreeSpacePointer f p; q2 = q1\<lparr>p_data := mem_put (unat f) t (p_data q1)\<rparr>;
          q3 = q2\<lparr>p_data := mem_put s (le_bytes 2 f) (p_data q2)\<rparr>;
          q4 = q3\<lparr>p_data := mem_put (s + 2) (le_bytes 2 (of_nat (length t) :: u16)) (p_data q3)\<rparr>;
          q5 = SetTupleCount (c + 1) q4
      in [(I_count t, p), (I_free t c, p), (I_set_free t c f, p), (I_data t c f, q1), (I_slot_offset t c f, q2),
          (I_slot_size t c f, q3), (I_set_count c, q4), (I_dirty c, q5),
          (I_done (Some \<lparr>rid_page_id = p_page_id p, rid_slot_num = ucast c\<rparr>), SetDirty True q5)])"

lemma insert_path_steps:
  assumes inv: "sp_inv p" and room: "length t + SLOT_SIZE \<le> sp_room p" and j: "j < 9"
  shows "istep (insert_path t p ! j) = insert_path t p ! min 8 (Suc j)"
proof -
  note A = room_arith [OF inv room]
  have wf: "page_wf p" using inv by (simp add: sp_inv_def)
  have so: "unat (slot_offset (unat (GetTupleCount p))) = HEADER_SIZE + sp_count p * SLOT_SIZE"
    using sp_inv_count_bound [OF inv] slot_offset_unat [of "sp_count p"] by (simp add: sp_count_def)
  have small: "length t \<le> 65531" using A(1,2) by (simp add: layout_defs)
  have "\<not> int (sp_free p) - int (HEADER_SIZE + sp_count p * SLOT_SIZE) < int (length t + SLOT_SIZE)" using A(1) by (simp add: SLOT_SIZE_def)
  then have guard: "\<not> uint (GetFreeSpacePointer p) - uint (slot_offset (unat (GetTupleCount p))) < uint (of_nat (unat (of_nat (length t) :: u16) + SLOT_SIZE) :: u16)"
    unfolding A(5) unfolding uint_nat so sp_free_def .
  have len: "length (p_data (SetFreeSpacePointer f p)) = PAGE_SIZE" for f using header_wf wf by (simp add: page_wf_def)
  consider "j = 0" | "j = 1" | "j = 2" | "j = 3" | "j = 4" | "j = 5" | "j = 6" | "j = 7" | "j = 8" using j by linarith
  then show ?thesis
  proof cases
  qed (use A(1-4,6) small guard so len in \<open>simp_all add: insert_path_def Let_def memcpy_to_ok header_meta del: of_nat_add\<close>)
qed

lemma insert_path_run:
  assumes "sp_inv p" and "length t + SLOT_SIZE \<le> sp_room p"
  shows "(istep ^^ n) (I_count t, p) = insert_path t p ! min 8 n"
proof (induction n)
  case 0
  then show ?case by (simp add: insert_path_def Let_def)
next
  case (Suc n)
  have "min 8 (Suc (min 8 n)) = min 8 (Suc n)" by simp
  moreover have "istep (insert_path t p ! min 8 n) = insert_path t p ! min 8 (Suc (min 8 n))" by (rule insert_path_steps [OF assms]) simp
  ultimately show ?case using Suc by (simp del: min_Suc_numeral min_numeral_Suc)
qed

lemma insert_path_shows:
  assumes inv: "sp_inv p" and room: "length t + SLOT_SIZE \<le> sp_room p" and j: "j < 9"
  shows "if j < 7 then keeps_rows p (snd (insert_path t p ! j)) else p_data (snd (insert_path t p ! j)) = p_data (inserted t p)"
proof -
  note A = room_arith [OF inv room]
  let ?f = "GetFreeSpacePointer p - of_nat (length t)" and ?s = "HEADER_SIZE + sp_count p * SLOT_SIZE"
  have k1: "keeps_rows p (SetFreeSpacePointer ?f p)" using A by (intro keeps_set_free keeps_refl inv) simp_all
  note k2 = keeps_put [OF k1 A(2), of "unat ?f" t]
  note k3 = keeps_put [OF k2 A(2), of ?s "le_bytes 2 ?f"]
  note k4 = keeps_put [OF k3 A(2), of "?s + 2" "le_bytes 2 (of_nat (length t) :: u16)"]
  consider "j = 0" | "j = 1" | "j = 2" | "j = 3" | "j = 4" | "j = 5" | "j = 6" | "j = 7" | "j = 8" using j by linarith
  then show ?thesis
  proof cases
  qed (use A keeps_refl [OF inv] k1 k2 k3 k4 in
      \<open>simp_all add: insert_path_def inserted_def Let_def SetTupleCount_def SetDirty_def SetFreeSpacePointer_def\<close>)
qed

section \<open>An insert that goes on late\<close>



section \<open>The accesses are the methods\<close>

lemma insert_accesses:
  "case InsertTuple t p of
     Inr (r, p') \<Rightarrow> (istep ^^ 8) (I_count t, p) = (I_done r, p')
   | Inl e \<Rightarrow> fst ((istep ^^ 8) (I_count t, p)) = I_dead e"
proof -
  define c where "c = GetTupleCount p"
  define f where "f = GetFreeSpacePointer p - of_nat (length t)"
  define q where "q = SetFreeSpacePointer f p"
  define full where "full \<longleftrightarrow> uint (GetFreeSpacePointer p) - uint (slot_offset (unat c)) < uint (of_nat (unat (of_nat (length t) :: u16) + SLOT_SIZE) :: u16)"
  let ?s = "unat (slot_offset (unat c))" and ?n = "le_bytes 2 (of_nat (length t) :: u16)"
  have I: "InsertTuple t p = (if length t > 65535 \<or> full then Inr (None, p) else
      case memcpy_to (p_data q) (unat f) t of Inl e \<Rightarrow> Inl e | Inr d2 \<Rightarrow> (case memcpy_to d2 ?s (le_bytes 2 f) of Inl e \<Rightarrow> Inl e
      | Inr d3 \<Rightarrow> (case memcpy_to d3 (?s + 2) ?n of Inl e \<Rightarrow> Inl e
      | Inr d4 \<Rightarrow> Inr (Some \<lparr>rid_page_id = p_page_id p, rid_slot_num = ucast c\<rparr>, SetDirty True (SetTupleCount (c + 1) (q\<lparr>p_data := d4\<rparr>))))))"
    unfolding InsertTuple_def Let_def q_def full_def f_def c_def by simp
  have s: "istep (I_count t, p) = (if length t > 65535 then I_done None else I_free t c, p)"
      "istep (I_free t c, p) = (if full then I_done None else I_set_free t c f, p)" "istep (I_set_free t c f, p) = (I_data t c f, q)"
    by (simp_all add: c_def f_def q_def full_def Let_def)
  have eight: "(istep ^^ 8) x = istep (istep (istep (istep (istep (istep (istep (istep x)))))))" for x
    by (simp add: eval_nat_numeral)
  have pid: "p_page_id q = p_page_id p" "p_page_id (SetTupleCount k (q\<lparr>p_data := d\<rparr>)) = p_page_id p" for k d by (simp_all add: q_def header_meta)
  show ?thesis
    unfolding I eight s(1)
    by (cases "length t > 65535"; cases full; cases "memcpy_to (p_data q) (unat f) t";
        simp add: s(2,3) pid del: istep.simps(1-3) split: sum.split)
qed

lemma lookup_accesses:
  "(gstep p ^^ 4) (G_count r) = (case GetTuple r p of Inr d \<Rightarrow> G_done d | Inl e \<Rightarrow> G_dead e)"
proof -
  have four: "(gstep p ^^ 4) x = gstep p (gstep p (gstep p (gstep p x)))" for x by (simp add: eval_nat_numeral)
  show ?thesis unfolding four by (simp add: GetTuple_def Let_def split: sum.split)
qed

lemma format_accesses: "format_access 3 (format_access 2 (format_access 1 (format_access 0 p))) = SP_Init p"
  by (simp add: format_access_def SP_Init_def)

section \<open>Properties\<close>

text \<open>(C16) The accesses are the method: an insert that is not interrupted ends after eight accesses with the result, the page and
  the error of \<open>InsertTuple\<close>, on any page and for any tuple.\<close>

theorem insert_is_its_accesses:
  "case InsertTuple t p of
     Inr (r, p') \<Rightarrow> (istep ^^ 8) (I_count t, p) = (I_done r, p')
   | Inl e \<Rightarrow> fst ((istep ^^ 8) (I_count t, p)) = I_dead e"
  by (rule insert_accesses)

text \<open>(C15) However the accesses of any number of inserts into one page interleave, none of them writes outside the page: no insert
  runs into undefined behaviour, the page keeps its size, and the count and the free-space pointer stay in range.  The
  tuples have at most 65531 bytes; for longer ones a single insert already leaves the page.\<close>

theorem racing_inserts_stay_in_page:
  assumes "sp_inv p" and "\<forall>t \<in> set ts. length t \<le> 65531" and "race\<^sup>*\<^sup>* (p, map I_count ts) (p', ws)"
  shows "page_wf p' \<and> sp_free p' \<le> PAGE_SIZE \<and> HEADER_SIZE + sp_count p' * SLOT_SIZE \<le> PAGE_SIZE \<and> (\<forall>w \<in> set ws. \<forall>e. w \<noteq> I_dead e)"
proof -
  have "sane (fst c) \<and> (\<forall>w \<in> set (snd c). local_ok w)" if "race\<^sup>*\<^sup>* (p, map I_count ts) c" for c
    using that
  proof (induction rule: rtranclp_induct)
    case base
    then show ?case using sp_inv_sane [OF assms(1)] assms(2) by simp
  next
    case (step c d)
    then show ?case using race_ok [of "fst c" "snd c" "fst d" "snd d"] by simp
  qed
  from this [OF assms(3)] show ?thesis by (auto simp: sane_def)
qed

text \<open>(C17) As long as no other insert interferes, an insert shows at once: after every access the page is well-formed and holds the rows of
  before, or those with the new row at the end, so a worker that reads meanwhile never sees half a row.\<close>

theorem insert_shows_at_once:
  assumes "sp_inv p" and "length t + SLOT_SIZE \<le> sp_room p" and "(istep ^^ n) (I_count t, p) = (w, q)"
  shows "sp_inv q \<and> sp_tuples q = (if n < 7 then sp_tuples p else sp_tuples p @ [stored t])"
proof -
  have q: "q = snd (insert_path t p ! min 8 n)" using insert_path_run [OF assms(1,2), of n] assms(3) by (metis snd_conv)
  have sh: "if n < 7 then keeps_rows p q else p_data q = p_data (inserted t p)"
    using insert_path_shows [OF assms(1,2), of "min 8 n"] unfolding q by (cases "n < 8") auto
  show ?thesis
  proof (cases "n < 7")
    case True
    then show ?thesis using keeps_rows_same [OF assms(1)] sh by simp
  next
    case False
    then have "p_data q = p_data (inserted t p)" using sh by simp
    then show ?thesis using False inserted_view(1,2) [OF assms(1,2)] sp_cong(6,7) [of q "inserted t p"] by simp
  qed
qed


section \<open>Witnesses\<close>

text \<open>A new page: two inserts that have both read the header; one insert seen after six accesses; three rows that a fourth insert drops.\<close>

theorem racing_inserts_stay_in_page_witness:
  "\<exists>ws. race\<^sup>*\<^sup>* (SP_Init Page_ctor, [I_count [1], I_count [2]]) (SP_Init Page_ctor, ws) \<and> ws = [I_free [1] 0, I_free [2] 0]
     \<and> page_wf (SP_Init Page_ctor) \<and> (\<forall>w \<in> set ws. \<forall>e. w \<noteq> I_dead e)"
proof -
  let ?p = "SP_Init Page_ctor"
  have c: "GetTupleCount ?p = 0" using SP_Init_view(2) [of Page_ctor] by (simp add: sp_tuples_def sp_count_def unat_eq_0)
  have "race (?p, [I_count [1], I_count [2]]) (?p, [I_free [1] 0, I_count [2]])"
    using race.access [of 0 "[I_count [1], I_count [2]]" ?p "I_free [1] 0" ?p] c by simp
  moreover have "race (?p, [I_free [1] 0, I_count [2]]) (?p, [I_free [1] 0, I_free [2] 0])"
    using race.access [of 1 "[I_free [1] 0, I_count [2]]" ?p "I_free [2] 0" ?p] c by simp
  ultimately have run: "race\<^sup>*\<^sup>* (?p, map I_count [[1], [2]]) (?p, [I_free [1] 0, I_free [2] 0])" by simp
  show ?thesis using racing_inserts_stay_in_page [OF SP_Init_view(1) _ run] run by simp
qed

theorem insert_shows_at_once_witness:
  "sp_tuples (snd ((istep ^^ 6) (I_count [5], SP_Init Page_ctor))) = [] \<and> sp_tuples (snd ((istep ^^ 7) (I_count [5], SP_Init Page_ctor))) = [Some [5]]"
  using insert_shows_at_once [OF SP_Init_view(1) _ surjective_pairing, of "[5]" Page_ctor] SP_Init_view(2,4) [of Page_ctor]
  by (simp add: SLOT_SIZE_def stored_def)


end
