(* ===== verification/Row_Race.thy ===== *)
theory Row_Race
  imports Page_Race
begin

text \<open>
  A page of the table \<open>users\<close> while any number of workers format it, insert rows and read it, interleaved at their accesses.  Every row
  consists of 259 zero bytes, so a row written over slots can only lower the numbers in them.  \<open>table_page\<close> is what every interleaving
  keeps: the header in range and every slot pointing into the page.  \<open>put_ok\<close> and \<open>get_ok\<close> say what the local variables of an
  insert and of a lookup promise; they do not mention the page, so other workers cannot break them.
\<close>

section \<open>Zeros over a number\<close>

lemma le_word_two: "unat (le_word [a, b] :: u16) = unat a + 256 * unat b"
proof -
  have "(le_word [a, b] :: u16) = or (ucast a) (push_bit 8 (ucast b))" by simp
  also have "\<dots> = ucast a + push_bit 8 (ucast b)"
    by (rule disjunctive_add [symmetric]) (auto simp: bit_push_bit_iff bit_ucast_iff dest: bit_imp_le_length)
  finally have "unat (le_word [a, b] :: u16) = (unat a + unat b * 256) mod 65536"
    by (simp add: unat_word_ariths unsigned_push_bit_eq push_bit_eq_mult take_bit_eq_mod mod_simps)
  then show ?thesis using unsigned_less [of a, where 'a = nat] unsigned_less [of b, where 'a = nat] by simp
qed

lemma two_bytes: "off + 2 \<le> length d \<Longrightarrow> mem_get off 2 d = [d ! off, d ! (off + 1)]"
  by (rule nth_equalityI) (auto simp: nth_mem_get less_Suc_eq numeral_2_eq_2)

lemma zeros_lower:
  assumes "off + n \<le> length d" and "a + 2 \<le> length d"
  shows "unat (le_word (mem_get a 2 (mem_put off (replicate n 0) d)) :: u16) \<le> unat (le_word (mem_get a 2 d) :: u16)"
proof -
  have "unat (mem_put off (replicate n 0) d ! i) \<le> unat (d ! i)" if "i < length d" for i
    using assms(1) that by (cases "off \<le> i \<and> i < off + n") (auto simp: nth_mem_put)
  then have "unat (mem_put off (replicate n 0) d ! a) \<le> unat (d ! a)" "unat (mem_put off (replicate n 0) d ! (a + 1)) \<le> unat (d ! (a + 1))"
    using assms(2) by simp_all
  then show ?thesis using assms by (simp add: two_bytes le_word_two del: le_word.simps)
qed

section \<open>The invariant of the page\<close>

text \<open>A page has at most 1980 slots: the one after would not leave room for a row, wherever the free-space pointer is.\<close>

definition row_limit :: nat where
  "row_limit = 1980"

definition slot_field :: "nat \<Rightarrow> bytes \<Rightarrow> nat" where
  "slot_field off d = unat (le_word (mem_get off 2 d) :: u16)"

definition table_page :: "bytes \<Rightarrow> bool" where
  "table_page d \<longleftrightarrow> length d = PAGE_SIZE \<and> slot_field TUPLE_COUNT_OFFSET d \<le> row_limit \<and> slot_field FREE_SPACE_OFFSET d \<le> PAGE_SIZE
     \<and> (\<forall>i < row_limit. slot_field (HEADER_SIZE + i * SLOT_SIZE) d + 259 \<le> PAGE_SIZE \<and> slot_field (HEADER_SIZE + i * SLOT_SIZE + 2) d \<le> 259)"

lemmas row_defs = layout_defs row_limit_def

lemma table_page_wf: "table_page (p_data p) \<Longrightarrow> page_wf p"
  by (simp add: table_page_def page_wf_def)

lemma table_page_count: "table_page (p_data p) \<Longrightarrow> unat (GetTupleCount p) \<le> row_limit"
  by (simp add: table_page_def slot_field_def GetTupleCount_def)

lemma table_page_free: "table_page (p_data p) \<Longrightarrow> unat (GetFreeSpacePointer p) \<le> PAGE_SIZE"
  by (simp add: table_page_def slot_field_def GetFreeSpacePointer_def)

lemma table_page_sane: "table_page (p_data p) \<Longrightarrow> sane p"
  using table_page_count [of p] table_page_free [of p] table_page_wf [of p]
  by (simp add: sane_def sp_free_def sp_count_def row_defs)

lemma slot_field_put_same: "off + 2 \<le> length d \<Longrightarrow> slot_field off (mem_put off (le_bytes 2 (v :: u16)) d) = unat v"
  by (simp add: slot_field_def mem_get_put_same le_word_le_bytes)

lemma slot_field_put_other:
  "off + length bs \<le> length d \<Longrightarrow> off' + 2 \<le> length d \<Longrightarrow> off' + 2 \<le> off \<or> off + length bs \<le> off' \<Longrightarrow>
   slot_field off' (mem_put off bs d) = slot_field off' d"
  by (simp add: slot_field_def mem_get_put_disjoint)

lemma table_page_zero: "table_page (replicate PAGE_SIZE 0)"
proof -
  have "slot_field off (replicate PAGE_SIZE 0) = 0" if "off + 2 \<le> PAGE_SIZE" for off
    using that by (simp add: slot_field_def two_bytes le_word_two del: le_word.simps)
  then show ?thesis by (simp add: table_page_def row_defs)
qed

text \<open>The three kinds of writes: a header word, a word of a slot, a row.\<close>

lemma table_page_count_put:
  assumes "table_page d" and "unat (c :: u16) \<le> row_limit"
  shows "table_page (mem_put TUPLE_COUNT_OFFSET (le_bytes 2 c) d)"
  using assms by (auto simp: table_page_def slot_field_put_same slot_field_put_other row_defs)

lemma table_page_free_put:
  assumes "table_page d" and "unat (f :: u16) \<le> PAGE_SIZE"
  shows "table_page (mem_put FREE_SPACE_OFFSET (le_bytes 2 f) d)"
  using assms by (auto simp: table_page_def slot_field_put_same slot_field_put_other row_defs)

lemma table_page_lsn_put:
  assumes "table_page d"
  shows "table_page (mem_put LSN_OFFSET (le_bytes 8 (l :: u64)) d)"
  using assms by (auto simp: table_page_def slot_field_put_other row_defs)

text \<open>A write to one word of a slot leaves every other word of every slot.\<close>

lemma slot_words:
  assumes d: "table_page d" and c: "c < row_limit" and i: "i < row_limit"
  shows "slot_field (HEADER_SIZE + i * SLOT_SIZE) (mem_put (HEADER_SIZE + c * SLOT_SIZE) (le_bytes 2 (v :: u16)) d)
      = (if i = c then unat v else slot_field (HEADER_SIZE + i * SLOT_SIZE) d)"
    "slot_field (HEADER_SIZE + i * SLOT_SIZE + 2) (mem_put (HEADER_SIZE + c * SLOT_SIZE) (le_bytes 2 v) d) = slot_field (HEADER_SIZE + i * SLOT_SIZE + 2) d"
    "slot_field (HEADER_SIZE + i * SLOT_SIZE + 2) (mem_put (HEADER_SIZE + c * SLOT_SIZE + 2) (le_bytes 2 v) d)
      = (if i = c then unat v else slot_field (HEADER_SIZE + i * SLOT_SIZE + 2) d)"
    "slot_field (HEADER_SIZE + i * SLOT_SIZE) (mem_put (HEADER_SIZE + c * SLOT_SIZE + 2) (le_bytes 2 v) d) = slot_field (HEADER_SIZE + i * SLOT_SIZE) d"
proof -
  have len: "length d = PAGE_SIZE" using d by (simp add: table_page_def)
  have apart: "i = c \<or> i * 4 + 4 \<le> c * 4 \<or> c * 4 + 4 \<le> i * 4" by linarith
  show "slot_field (HEADER_SIZE + i * SLOT_SIZE) (mem_put (HEADER_SIZE + c * SLOT_SIZE) (le_bytes 2 v) d)
      = (if i = c then unat v else slot_field (HEADER_SIZE + i * SLOT_SIZE) d)"
    using len c i apart by (cases "i = c") (simp add: slot_field_put_same row_defs, simp, intro slot_field_put_other, auto simp: row_defs)
  show "slot_field (HEADER_SIZE + i * SLOT_SIZE + 2) (mem_put (HEADER_SIZE + c * SLOT_SIZE) (le_bytes 2 v) d) = slot_field (HEADER_SIZE + i * SLOT_SIZE + 2) d"
    using len c i apart by (intro slot_field_put_other) (auto simp: row_defs)
  show "slot_field (HEADER_SIZE + i * SLOT_SIZE + 2) (mem_put (HEADER_SIZE + c * SLOT_SIZE + 2) (le_bytes 2 v) d)
      = (if i = c then unat v else slot_field (HEADER_SIZE + i * SLOT_SIZE + 2) d)"
    using len c i apart by (cases "i = c") (simp add: slot_field_put_same row_defs, simp, intro slot_field_put_other, auto simp: row_defs)
  show "slot_field (HEADER_SIZE + i * SLOT_SIZE) (mem_put (HEADER_SIZE + c * SLOT_SIZE + 2) (le_bytes 2 v) d) = slot_field (HEADER_SIZE + i * SLOT_SIZE) d"
    using len c i apart by (intro slot_field_put_other) (auto simp: row_defs)
qed

lemma table_page_offset_put:
  assumes d: "table_page d" and c: "c < row_limit" and f: "unat (f :: u16) + 259 \<le> PAGE_SIZE"
  shows "table_page (mem_put (HEADER_SIZE + c * SLOT_SIZE) (le_bytes 2 f) d)"
proof -
  let ?d = "mem_put (HEADER_SIZE + c * SLOT_SIZE) (le_bytes 2 f) d"
  have "slot_field (HEADER_SIZE + i * SLOT_SIZE) ?d = (if i = c then unat f else slot_field (HEADER_SIZE + i * SLOT_SIZE) d)"
      "slot_field (HEADER_SIZE + i * SLOT_SIZE + 2) ?d = slot_field (HEADER_SIZE + i * SLOT_SIZE + 2) d" if "i < row_limit" for i
    using slot_words [OF d c that] by auto
  moreover have "slot_field TUPLE_COUNT_OFFSET ?d = slot_field TUPLE_COUNT_OFFSET d" "slot_field FREE_SPACE_OFFSET ?d = slot_field FREE_SPACE_OFFSET d"
      "length ?d = PAGE_SIZE"
    using d c by (simp_all add: table_page_def row_defs slot_field_put_other)
  ultimately show ?thesis using d f by (simp add: table_page_def)
qed

lemma table_page_size_put:
  assumes d: "table_page d" and c: "c < row_limit" and n: "unat (n :: u16) \<le> 259"
  shows "table_page (mem_put (HEADER_SIZE + c * SLOT_SIZE + 2) (le_bytes 2 n) d)"
proof -
  let ?d = "mem_put (HEADER_SIZE + c * SLOT_SIZE + 2) (le_bytes 2 n) d"
  have "slot_field (HEADER_SIZE + i * SLOT_SIZE + 2) ?d = (if i = c then unat n else slot_field (HEADER_SIZE + i * SLOT_SIZE + 2) d)"
      "slot_field (HEADER_SIZE + i * SLOT_SIZE) ?d = slot_field (HEADER_SIZE + i * SLOT_SIZE) d" if "i < row_limit" for i
    using slot_words [OF d c that] by auto
  moreover have "slot_field TUPLE_COUNT_OFFSET ?d = slot_field TUPLE_COUNT_OFFSET d" "slot_field FREE_SPACE_OFFSET ?d = slot_field FREE_SPACE_OFFSET d"
      "length ?d = PAGE_SIZE"
    using d c by (simp_all add: table_page_def row_defs slot_field_put_other)
  ultimately show ?thesis using d n by (simp add: table_page_def)
qed

lemma table_page_row_put:
  assumes d: "table_page d" and f: "HEADER_SIZE \<le> off" "off + 259 \<le> PAGE_SIZE"
  shows "table_page (mem_put off user_row d)"
proof -
  have len: "length d = PAGE_SIZE" using d by (simp add: table_page_def)
  have "slot_field a (mem_put off user_row d) \<le> slot_field a d" if "a + 2 \<le> PAGE_SIZE" for a
    using zeros_lower [of off 259 d a] that f(2) len by (simp add: slot_field_def user_row_def)
  then have le: "slot_field (HEADER_SIZE + i * SLOT_SIZE) (mem_put off user_row d) \<le> slot_field (HEADER_SIZE + i * SLOT_SIZE) d"
      "slot_field (HEADER_SIZE + i * SLOT_SIZE + 2) (mem_put off user_row d) \<le> slot_field (HEADER_SIZE + i * SLOT_SIZE + 2) d" if "i < row_limit" for i
    using that by (simp_all add: row_defs)
  have "slot_field (HEADER_SIZE + i * SLOT_SIZE) (mem_put off user_row d) + 259 \<le> PAGE_SIZE
      \<and> slot_field (HEADER_SIZE + i * SLOT_SIZE + 2) (mem_put off user_row d) \<le> 259" if "i < row_limit" for i
    using le [OF that] d that by (auto simp: table_page_def intro: order_trans [OF add_right_mono])
  moreover have "slot_field TUPLE_COUNT_OFFSET (mem_put off user_row d) = slot_field TUPLE_COUNT_OFFSET d"
      "slot_field FREE_SPACE_OFFSET (mem_put off user_row d) = slot_field FREE_SPACE_OFFSET d" "length (mem_put off user_row d) = PAGE_SIZE"
    using f len by (simp_all add: slot_field_put_other row_defs user_row_def)
  ultimately show ?thesis using d by (simp add: table_page_def)
qed

lemma table_page_lsn: "table_page (p_data p) \<Longrightarrow> table_page (p_data (SetLSN l p))"
  by (simp add: SetLSN_def table_page_lsn_put)

section \<open>Formatting\<close>

lemma format_access_meta:
  "p_page_id (format_access k p) = p_page_id p" "p_pin_count (format_access k p) = p_pin_count p"
  by (simp_all add: format_access_def ResetMemory_def header_meta)

lemma format_access_ok: "table_page (p_data p) \<Longrightarrow> table_page (p_data (format_access k p))"
proof -
  assume p: "table_page (p_data p)"
  have "unat (of_nat PAGE_SIZE :: u16) \<le> PAGE_SIZE" by (simp add: PAGE_SIZE_def)
  then show ?thesis
    using p table_page_zero
    by (simp add: format_access_def ResetMemory_def SetTupleCount_def SetFreeSpacePointer_def table_page_lsn table_page_count_put table_page_free_put)
qed

section \<open>Inserting\<close>

fun put_ok :: "ipc \<Rightarrow> bool" where
  "put_ok (I_count t) = (t = user_row)"
| "put_ok (I_free t c) = (t = user_row \<and> unat c \<le> row_limit)"
| "put_ok (I_set_free t c f) = (t = user_row \<and> HEADER_SIZE + unat c * SLOT_SIZE + 4 \<le> unat f \<and> unat f + 259 \<le> PAGE_SIZE)"
| "put_ok (I_data t c f) = (t = user_row \<and> HEADER_SIZE + unat c * SLOT_SIZE + 4 \<le> unat f \<and> unat f + 259 \<le> PAGE_SIZE)"
| "put_ok (I_slot_offset t c f) = (t = user_row \<and> HEADER_SIZE + unat c * SLOT_SIZE + 4 \<le> unat f \<and> unat f + 259 \<le> PAGE_SIZE)"
| "put_ok (I_slot_size t c f) = (t = user_row \<and> HEADER_SIZE + unat c * SLOT_SIZE + 4 \<le> unat f \<and> unat f + 259 \<le> PAGE_SIZE)"
| "put_ok (I_set_count c) = (unat c < row_limit)"
| "put_ok (I_dirty c) = True"
| "put_ok (I_done r) = True"
| "put_ok (I_dead e) = False"

lemma istep_meta:
  "istep (i, p) = (i', p') \<Longrightarrow> p_page_id p' = p_page_id p \<and> p_pin_count p' = p_pin_count p"
  by (cases i) (auto simp: Let_def header_meta split: if_splits sum.splits)

lemma put_access:
  assumes d: "table_page (p_data p)" and i: "put_ok i" and step: "istep (i, p) = (i', p')"
  shows "table_page (p_data p') \<and> put_ok i'"
proof -
  have len: "length (p_data p) = PAGE_SIZE" using d by (simp add: table_page_def)
  have slot: "unat (slot_offset (unat c)) = HEADER_SIZE + unat c * SLOT_SIZE" if "unat c < row_limit" for c :: u16
    using that by (intro slot_offset_unat) (simp add: row_defs)
  have low: "unat c < row_limit" if "HEADER_SIZE + unat c * SLOT_SIZE + 4 \<le> unat f" "unat f + 259 \<le> PAGE_SIZE" for c f :: u16
    using that by (simp add: row_defs)
  have row: "length user_row = 259" by (simp add: user_row_def)
  show ?thesis
  proof (cases i)
    case (I_count t)
    then show ?thesis using d i step table_page_count [OF d] row by auto
  next
    case (I_free t c)
    have "HEADER_SIZE + unat c * SLOT_SIZE \<le> PAGE_SIZE" using i I_free by (simp add: row_defs)
    then show ?thesis
      using d i step I_free allocated_ok(1) [OF table_page_sane [OF d], of t c] row by (auto simp: Let_def split: if_splits)
  next
    case (I_set_free t c f)
    then show ?thesis using d i step table_page_free_put [OF d, of f] by (auto simp: SetFreeSpacePointer_def)
  next
    case (I_data t c f)
    then show ?thesis using d i step table_page_row_put [OF d, of "unat f"] len row by (auto simp: memcpy_to_ok row_defs)
  next
    case (I_slot_offset t c f)
    then have c: "unat c < row_limit" using i low by auto
    then show ?thesis
      using d i step I_slot_offset table_page_offset_put [OF d c, of f] len slot [OF c] by (auto simp: memcpy_to_ok row_defs)
  next
    case (I_slot_size t c f)
    then have c: "unat c < row_limit" using i low by auto
    then show ?thesis
      using d i step I_slot_size table_page_size_put [OF d c, of "of_nat (length t)"] len slot [OF c] row by (auto simp: memcpy_to_ok row_defs)
  next
    case (I_set_count c)
    then have "unat (c + 1) = Suc (unat c)" using i by (simp add: unat_word_ariths row_defs)
    then show ?thesis using d i step I_set_count table_page_count_put [OF d, of "c + 1"] by (auto simp: SetTupleCount_def)
  qed (use d i step in auto)
qed

section \<open>Reading\<close>

fun get_ok :: "gpc \<Rightarrow> bool" where
  "get_ok (G_count r) = True"
| "get_ok (G_offset r) = (unat (rid_slot_num r) < row_limit)"
| "get_ok (G_size r off) = (unat (rid_slot_num r) < row_limit \<and> unat off + 259 \<le> PAGE_SIZE)"
| "get_ok (G_data off n) = (unat off + unat n \<le> PAGE_SIZE)"
| "get_ok (G_done d) = True"
| "get_ok (G_dead e) = False"

lemma get_access:
  assumes d: "table_page (p_data p)" and g: "get_ok g"
  shows "get_ok (gstep p g)"
proof -
  have len: "length (p_data p) = PAGE_SIZE" using d by (simp add: table_page_def)
  have slot: "unat (slot_offset (unat (rid_slot_num r))) = HEADER_SIZE + unat (rid_slot_num r) * SLOT_SIZE"
      "HEADER_SIZE + unat (rid_slot_num r) * SLOT_SIZE + 4 \<le> PAGE_SIZE"
      "slot_field (HEADER_SIZE + unat (rid_slot_num r) * SLOT_SIZE) (p_data p) + 259 \<le> PAGE_SIZE"
      "slot_field (HEADER_SIZE + unat (rid_slot_num r) * SLOT_SIZE + 2) (p_data p) \<le> 259" if "unat (rid_slot_num r) < row_limit" for r
    using that d by (auto simp: slot_offset_unat table_page_def row_defs)
  show ?thesis
  proof (cases g)
    case (G_count r)
    then show ?thesis using table_page_count [OF d] by simp
  next
    case (G_offset r)
    then show ?thesis using g slot [of r] len by (simp add: memcpy_from_ok slot_field_def)
  next
    case (G_size r off)
    then show ?thesis using g slot [of r] len by (simp add: memcpy_from_ok slot_field_def Let_def)
  next
    case (G_data off n)
    then show ?thesis using g len by (simp add: memcpy_from_ok)
  qed (use g in auto)
qed

end
