(* ===== verification/Server_Invariants.thy ===== *)
theory Server_Invariants
  imports Connection Pool_Properties
begin

text \<open>
  Invariants of the server on any device, also one that fails or misbehaves: what holds after every
  request, whether it was answered, ended in an exception or ran into undefined behaviour.

  The locale \<open>instance_invariant\<close> says what a predicate on the instance must survive: the accesses the request
  handler makes to the pool and the catalog.  It then survives every session.  It is interpreted for the page numbers
  in use (\<open>one_page\<close>, which includes that every frame has 8192 bytes).
\<close>

section \<open>Page operations keep the size of a page\<close>

lemma memcpy_to_length: "memcpy_to d off bs = Inr d' \<Longrightarrow> length d' = length d"
  by (auto simp: memcpy_to_def split: if_splits)

lemma header_wf: "page_wf p \<Longrightarrow> page_wf (SetLSN l p) \<and> page_wf (SetTupleCount c p) \<and> page_wf (SetFreeSpacePointer s p)"
  by (simp add: page_wf_def SetLSN_def SetTupleCount_def SetFreeSpacePointer_def layout_defs)

lemma SP_Init_wf: "page_wf (SP_Init p)"
  by (simp add: SP_Init_def header_wf)

lemma InsertTuple_wf:
  assumes "page_wf p" and "InsertTuple t p = Inr (r, p')"
  shows "page_wf p'"
proof -
  have put: "page_wf (SetDirty True (SetTupleCount c (SetFreeSpacePointer f p\<lparr>p_data := d\<rparr>)))"
    if "length d = length (p_data (SetFreeSpacePointer f p))" for c f d
    using that header_wf [OF assms(1)] header_wf [of "SetFreeSpacePointer f p\<lparr>p_data := d\<rparr>"] by (simp add: page_wf_def)
  show ?thesis
    using assms put by (auto simp: InsertTuple_def Let_def dest!: memcpy_to_length split: if_splits sum.splits)
qed

section \<open>What an invariant must survive\<close>

text \<open>The page a scan is at: none, or the first page of a table.\<close>

definition scannable :: "pageid \<Rightarrow> catalog \<Rightarrow> bool" where
  "scannable pid cat \<longleftrightarrow> pid = INVALID_PAGE_ID \<or> (\<exists>p ti. cat_tables cat p = Some ti \<and> ti_first_page_id ti = pid)"

locale instance_invariant =
  fixes os :: "'d os"
    and I :: "'d sting_instance \<Rightarrow> bool"
  assumes txn_indep: "I inst \<Longrightarrow> I (inst\<lparr>in_txn_manager := tm\<rparr>)"
    and page_sized: "I inst \<Longrightarrow> f < length (bp_pages (in_bpm inst)) \<Longrightarrow> page_wf (bp_pages (in_bpm inst) ! f)"
    and edit: "I inst \<Longrightarrow> (f < length (bp_pages (in_bpm inst)) \<Longrightarrow> page_wf pg) \<Longrightarrow> I (set_page f pg inst)"
    and create: "I inst \<Longrightarrow> CreateTable ''users'' sch INVALID_PAGE_ID (in_catalog inst) = (r, cat) \<Longrightarrow> I (inst\<lparr>in_catalog := cat\<rparr>)"
    and fetch: "I inst \<Longrightarrow> cat_tables (in_catalog inst) p = Some ti \<Longrightarrow> ti_first_page_id ti \<noteq> INVALID_PAGE_ID \<Longrightarrow>
      FetchPage os (ti_first_page_id ti) (in_bpm inst) = (r', s) \<Longrightarrow> I (inst\<lparr>in_bpm := s\<rparr>)"
    and new_failed: "I inst \<Longrightarrow> cat_tables (in_catalog inst) p = Some ti \<Longrightarrow> ti_first_page_id ti = INVALID_PAGE_ID \<Longrightarrow>
      NewPage os (in_bpm inst) = (r'', s) \<Longrightarrow> (\<And>x. r'' \<noteq> Inr (Some x)) \<Longrightarrow> I (inst\<lparr>in_bpm := s\<rparr>)"
    and new: "I inst \<Longrightarrow> cat_tables (in_catalog inst) p = Some ti \<Longrightarrow> ti_first_page_id ti = INVALID_PAGE_ID \<Longrightarrow>
      NewPage os (in_bpm inst) = (Inr (Some (pid, f)), s) \<Longrightarrow>
      I (inst\<lparr>in_bpm := s, in_catalog := update_first_page p pid (in_catalog inst)\<rparr>)"
    and unpin_page: "I inst \<Longrightarrow> UnpinPage ndebug pid b (in_bpm inst) = (r''', s) \<Longrightarrow> I (inst\<lparr>in_bpm := s\<rparr>)"
begin

lemma log_insert_keeps: "I inst \<Longrightarrow> log_insert txn rec inst = (lsn, inst') \<Longrightarrow> I inst' \<and> in_catalog inst' = in_catalog inst \<and> in_bpm inst' = in_bpm inst"
  using txn_indep by (auto simp: log_insert_def Let_def split: prod.splits)

lemma edit_after_insert:
  assumes "I inst" and "InsertTuple tuple (bp_pages (in_bpm inst) ! f) = Inr (x, p)"
  shows "I (set_page f p inst)" "f < length (bp_pages (in_bpm inst)) \<Longrightarrow> page_wf p"
proof -
  show "page_wf p" if "f < length (bp_pages (in_bpm inst))"
    using that page_sized [OF assms(1)] InsertTuple_wf assms(2) by blast
  then show "I (set_page f p inst)" using edit [OF assms(1)] by blast
qed

text \<open>One row: the loop ends here, or goes on from a state that satisfies the invariant.\<close>

lemma insert_row_keeps:
  assumes i: "I inst" and run: "insert_rows txn tuple (Some f) (Suc n) inst = (r, inst')"
  shows "I inst' \<and> in_catalog inst' = in_catalog inst
    \<or> (\<exists>inst2. I inst2 \<and> in_catalog inst2 = in_catalog inst \<and> insert_rows txn tuple (Some f) n inst2 = (r, inst'))"
proof (cases "InsertTuple tuple (bp_pages (in_bpm inst) ! f)")
  case (Inr rp)
  obtain x p where rp: "InsertTuple tuple (bp_pages (in_bpm inst) ! f) = Inr (x, p)" using Inr by (cases rp) simp
  note e = edit_after_insert [OF i rp]
  have cat: "in_catalog (set_page f p inst) = in_catalog inst" for p inst by (simp add: set_page_def)
  consider "x = None" | rid where "x = Some rid" "txn = None"
    | rid t where "x = Some rid" "txn = Some t" "tm_txn_map (in_txn_manager inst) t = None"
    | rid t tx where "x = Some rid" "txn = Some t" "tm_txn_map (in_txn_manager inst) t = Some tx"
    by (cases x; cases txn; cases "tm_txn_map (in_txn_manager inst) (the txn)") auto
  then show ?thesis
  proof cases
    case (4 rid t tx)
    define rec where "rec = LogRecord_insert_ctor (tx_txn_id tx) (GetLSN p) LR_INSERT rid tuple"
    obtain lsn inst1 where l: "log_insert t rec (set_page f p inst) = (lsn, inst1)"
      by (cases "log_insert t rec (set_page f p inst)")
    have k: "I inst1" "in_catalog inst1 = in_catalog inst" "in_bpm inst1 = in_bpm (set_page f p inst)"
      using log_insert_keeps [OF e(1) l] cat by simp_all
    have "page_wf (SetLSN lsn p)" if "f < length (bp_pages (in_bpm inst1))"
      using that k(3) e(2) header_wf by (simp add: set_page_def upd_page_def)
    then have i2: "I (set_page f (SetLSN lsn p) inst1)" using edit [OF k(1)] by blast
    have "insert_rows txn tuple (Some f) n (set_page f (SetLSN lsn p) inst1) = (r, inst')"
      using run rp 4 l by (simp add: rec_def Let_def)
    then show ?thesis using i2 cat k(2) by metis
  qed (use run rp e(1) cat in auto)
qed (use i run in simp)

lemma insert_rows_keeps:
  "I inst \<Longrightarrow> insert_rows txn tuple fr n inst = (r, inst') \<Longrightarrow> I inst' \<and> in_catalog inst' = in_catalog inst"
proof (induction n arbitrary: inst)
  case (Suc n)
  show ?case
  proof (cases fr)
    case (Some f)
    then show ?thesis using insert_row_keeps [OF Suc.prems(1)] Suc.prems(2) Suc.IH by metis
  qed (use Suc.prems in simp)
qed simp

lemma unpin_keeps: "I inst \<Longrightarrow> unpin ndebug pid b inst = (r, inst') \<Longrightarrow> I inst' \<and> in_catalog inst' = in_catalog inst"
  using unpin_page by (auto simp: unpin_def split: prod.splits)

lemma target_page_keeps:
  assumes i: "I inst" and ti: "cat_tables (in_catalog inst) p = Some info"
    and run: "target_page os p info inst = (r, inst')"
  shows "I inst'"
proof (cases "ti_first_page_id info = INVALID_PAGE_ID")
  case False
  obtain r' s where f: "FetchPage os (ti_first_page_id info) (in_bpm inst) = (r', s)" by fastforce
  then show ?thesis using False run fetch [OF i ti False f] by (auto simp: target_page_def split: sum.splits)
next
  case True
  obtain r' s where n: "NewPage os (in_bpm inst) = (r', s)" by fastforce
  have same: "update_first_page p INVALID_PAGE_ID (in_catalog inst) = in_catalog inst"
    using ti True by (simp add: update_first_page_def UpdateFirstPageId_def fun_upd_idem)
  consider e where "r' = Inl e" | "r' = Inr None" | pid f where "r' = Inr (Some (pid, f))"
    by (metis option.exhaust prod.exhaust sum.exhaust)
  then show ?thesis
  proof cases
    case (3 pid f)
    have "I (inst\<lparr>in_bpm := s, in_catalog := update_first_page p pid (in_catalog inst)\<rparr>)"
      using new [OF i ti True] n 3 by blast
    then show ?thesis using 3 n run True edit SP_Init_wf by (auto simp: target_page_def)
  qed (use n run True same new_failed [OF i ti True n] in \<open>auto simp: target_page_def\<close>)
qed

lemma insert_batch_keeps:
  assumes "I inst" and "insert_batch os ndebug txn p input inst = (r, inst')"
  shows "I inst'"
proof (cases "cat_tables (in_catalog inst) p")
  case (Some info)
  obtain r1 inst1 where t: "target_page os p info inst = (r1, inst1)" by fastforce
  note i1 = target_page_keeps [OF assms(1) Some t]
  show ?thesis
  proof (cases r1)
    case (Inl e)
    then show ?thesis using assms(2) Some t i1 by (simp add: table_at_def)
  next
    case (Inr x)
    obtain page_id fr where x: "x = (page_id, fr)" by fastforce
    let ?tuple = "replicate (unat (sc_tuple_fixed_size (ti_schema info))) 0" and ?n = "unat (tb_num_rows input)"
    obtain r2 inst2 where w: "insert_rows txn ?tuple fr ?n inst1 = (r2, inst2)" by fastforce
    have i2: "I inst2" using insert_rows_keeps [OF i1 w] by blast
    obtain r3 inst3 where u: "unpin ndebug page_id True inst2 = (r3, inst3)" by fastforce
    have "I inst3" using unpin_keeps [OF i2 u] by blast
    then show ?thesis using assms(2) Some t Inr x w u i2 by (auto simp: table_at_def split: sum.splits)
  qed
qed (use assms in \<open>simp add: table_at_def\<close>)

lemma seq_scan_next_keeps:
  assumes i: "I inst" and sc: "scannable pid (in_catalog inst)"
    and run: "seq_scan_next os ndebug name ti pid slot inst = (r, inst')"
  shows "I inst' \<and> in_catalog inst' = in_catalog inst"
proof (cases "ti = None \<or> pid = INVALID_PAGE_ID")
  case False
  obtain r' s where f: "FetchPage os pid (in_bpm inst) = (r', s)" by fastforce
  have "I (inst\<lparr>in_bpm := s\<rparr>)" using fetch [OF i _ _] f sc False unfolding scannable_def by metis
  then show ?thesis
    using False f run unpin_keeps
    by (fastforce simp: seq_scan_next_def Let_def split: sum.splits option.splits if_splits prod.splits)
qed (use i run in \<open>simp add: seq_scan_next_def\<close>)

lemma scan_loop_keeps:
  assumes "scan_loop os ndebug txn exec out cnt inst = Some y"
  shows "\<forall>slot. exec = SeqScanExecutor name ti pid slot \<longrightarrow> I inst \<longrightarrow> scannable pid (in_catalog inst) \<longrightarrow>
    I (snd y) \<and> in_catalog (snd y) = in_catalog inst"
proof -
  have "os = os \<longrightarrow> (\<forall>slot. exec = SeqScanExecutor name ti pid slot \<longrightarrow> I inst \<longrightarrow> scannable pid (in_catalog inst) \<longrightarrow>
      I (snd y) \<and> in_catalog (snd y) = in_catalog inst)"
  proof (rule scan_loop.raw_induct [where P = "\<lambda>os' ndebug txn exec out cnt inst y. os' = os \<longrightarrow>
      (\<forall>slot. exec = SeqScanExecutor name ti pid slot \<longrightarrow> I inst \<longrightarrow> scannable pid (in_catalog inst) \<longrightarrow>
         I (snd y) \<and> in_catalog (snd y) = in_catalog inst)", OF _ assms])
    fix F os' ndebug txn exec out cnt inst y
    assume IH: "\<And>os' ndebug txn exec out cnt inst y. F os' ndebug txn exec out cnt inst = Some y \<Longrightarrow> os' = os \<longrightarrow>
        (\<forall>slot. exec = SeqScanExecutor name ti pid slot \<longrightarrow> I inst \<longrightarrow> scannable pid (in_catalog inst) \<longrightarrow>
           I (snd y) \<and> in_catalog (snd y) = in_catalog inst)"
      and eq: "(case op_Next os' ndebug txn exec out inst of
        (Inl e, inst) \<Rightarrow> Some (Inl e, inst)
      | (Inr (b, exec, out), inst) \<Rightarrow>
          if b then F os' ndebug txn exec out (cnt + 1) inst else Some (Inr cnt, inst)) = Some y"
    show "os' = os \<longrightarrow> (\<forall>slot. exec = SeqScanExecutor name ti pid slot \<longrightarrow> I inst \<longrightarrow> scannable pid (in_catalog inst) \<longrightarrow>
        I (snd y) \<and> in_catalog (snd y) = in_catalog inst)"
    proof (intro impI allI)
      fix slot assume a: "os' = os" "exec = SeqScanExecutor name ti pid slot" "I inst" "scannable pid (in_catalog inst)"
      obtain r1 inst1 where n: "seq_scan_next os ndebug name ti pid slot inst = (r1, inst1)" by fastforce
      note k = seq_scan_next_keeps [OF a(3,4) n]
      consider e where "r1 = Inl e" | slot' where "r1 = Inr (False, slot')" | slot' where "r1 = Inr (True, slot')"
        by (metis (full_types) old.prod.exhaust sum.exhaust)
      then show "I (snd y) \<and> in_catalog (snd y) = in_catalog inst"
      proof cases
        case (3 slot')
        then have "F os ndebug txn (SeqScanExecutor name ti pid slot') out (cnt + 1) inst1 = Some y" using eq a n by simp
        then show ?thesis using IH k a(4) by metis
      qed (use eq a n k in auto)
    qed
  qed
  then show ?thesis by simp
qed

lemma begin_keeps: "I inst \<Longrightarrow> begin_txn inst = (r, inst') \<Longrightarrow> I inst' \<and> in_catalog inst' = in_catalog inst"
  using txn_indep by (auto simp: begin_txn_def split: prod.splits)

lemma commit_keeps: "I inst \<Longrightarrow> commit_txn txn inst = (r, inst') \<Longrightarrow> I inst'"
  using txn_indep by (auto simp: commit_txn_def split: prod.splits)

lemma insert_next_keeps:
  fixes out :: "'v tuple_batch"
  assumes "I inst" and "op_Next os ndebug txn (InsertExecutor (DummyValues b) name (Some p)) out inst = (r, inst')"
  shows "I inst'"
proof -
  obtain r1 inst1 where i: "insert_batch os ndebug txn p (SetNumRows 1 TupleBatch_ctor :: 'v tuple_batch) inst = (r1, inst1)" by fastforce
  then show ?thesis
    using assms insert_batch_keeps [OF assms(1) i] by (cases b) (auto simp del: insert_batch_def split: sum.splits)
qed

lemma do_insert_keeps:
  assumes "I inst" and "do_insert os ndebug inst = (r, inst')"
  shows "I inst'"
proof -
  obtain r1 inst1 where b: "begin_txn inst = (r1, inst1)" by fastforce
  note k1 = begin_keeps [OF assms(1) b]
  show ?thesis
  proof (cases "\<exists>txn p. r1 = Inr txn \<and> GetTable ''users'' (in_catalog inst1) = Inr (Some p)")
    case False
    then show ?thesis using assms(2) b k1
      by (auto simp: do_insert_def InsertExecutor_ctor_def DummyValues_ctor_def split: sum.splits option.splits)
  next
    case True
    then obtain txn p where t: "r1 = Inr txn" "GetTable ''users'' (in_catalog inst1) = Inr (Some p)" by blast
    let ?e = "InsertExecutor (DummyValues False) ''users'' (Some p)"
    obtain r2 inst2 where n: "op_Next os ndebug (Some txn) ?e (TupleBatch_ctor :: unit tuple_batch) inst1 = (r2, inst2)" by fastforce
    have k2: "I inst2" using insert_next_keeps [OF _ n] k1 by blast
    obtain r3 inst3 where c: "commit_txn txn inst2 = (r3, inst3)" by fastforce
    then show ?thesis using assms(2) b t n k2 commit_keeps [OF k2 c]
      by (auto simp: do_insert_def InsertExecutor_ctor_def DummyValues_ctor_def simp del: op_Next.simps split: sum.splits prod.splits)
  qed
qed

lemma do_select_keeps:
  assumes "I inst" and "do_select os ndebug inst = (r, inst')"
  shows "I inst'"
proof -
  obtain r1 inst1 where b: "begin_txn inst = (r1, inst1)" by fastforce
  note k1 = begin_keeps [OF assms(1) b]
  show ?thesis
  proof (cases "\<exists>txn exec. r1 = Inr txn \<and> op_Init (SeqScanExecutor_ctor ''users'') (in_catalog inst1) = Inr exec")
    case False
    then show ?thesis using assms(2) b k1
      by (auto simp: do_select_def simp del: op_Init.simps split: sum.splits)
  next
    case True
    then obtain txn exec where t: "r1 = Inr txn" "op_Init (SeqScanExecutor_ctor ''users'') (in_catalog inst1) = Inr exec" by blast
    then obtain p info where e: "exec = SeqScanExecutor ''users'' (Some p) (ti_first_page_id info) 0" "cat_tables (in_catalog inst1) p = Some info"
      by (auto simp: SeqScanExecutor_ctor_def table_at_def split: sum.splits option.splits)
    have sc: "scannable (ti_first_page_id info) (in_catalog inst1)" using e(2) by (auto simp: scannable_def)
    show ?thesis
    proof (cases "scan_loop os ndebug (Some txn) exec TupleBatch_ctor 0 inst1")
      case None
      then show ?thesis using assms(2) b t k1 by (simp add: do_select_def del: op_Init.simps)
    next
      case (Some y)
      have k2: "I (snd y)" using scan_loop_keeps [OF Some] e(1) k1 sc by blast
      obtain r3 inst3 where c: "commit_txn txn (snd y) = (r3, inst3)" by fastforce
      show ?thesis using assms(2) b t Some k2 c commit_keeps [OF k2 c]
        by (cases y) (auto simp: do_select_def simp del: op_Init.simps split: sum.splits)
    qed
  qed
qed

lemma do_create_keeps: "I inst \<Longrightarrow> do_create inst = (r, inst') \<Longrightarrow> I inst'"
  using create by (auto simp: do_create_def BindCreateTable_def split: prod.splits sum.splits)

lemma do_begin_keeps:
  assumes "I inst" and "do_begin inst = (r, inst')"
  shows "I inst'"
proof -
  obtain r1 inst1 where b: "begin_txn inst = (r1, inst1)" by fastforce
  then show ?thesis using assms begin_keeps [OF assms(1) b] by (auto simp: do_begin_def split: sum.splits option.splits)
qed

lemma dispatch_keeps:
  assumes "I inst" and "dispatch os ndebug q inst = (r, inst')"
  shows "I inst'"
  using assms(2) do_create_keeps [OF assms(1)] do_insert_keeps [OF assms(1)] do_select_keeps [OF assms(1)]
    do_begin_keeps [OF assms(1)] assms(1)
  unfolding dispatch_def by (metis Pair_inject)

lemma serve_keeps:
  assumes "I inst" and "serve os ndebug q inst = (r, inst')"
  shows "I inst'"
proof -
  obtain r1 inst1 where d: "dispatch os ndebug q inst = (r1, inst1)" by fastforce
  then show ?thesis using assms(2) dispatch_keeps [OF assms(1) d]
    by (auto simp: serve_def handle_query_def split: prod.splits sum.splits option.splits)
qed

lemma session_keeps: "I inst \<Longrightarrow> session os ndebug qs inst = (as, inst') \<Longrightarrow> I inst'"
proof (induction qs arbitrary: inst as inst')
  case (Cons q qs)
  obtain r1 inst1 where s: "serve os ndebug q inst = (r1, inst1)" by fastforce
  have k: "I inst1" using serve_keeps [OF Cons.prems(1) s] .
  obtain bs inst2 where t: "session os ndebug qs inst1 = (bs, inst2)" by fastforce
  show ?case using Cons.prems(2) s t k Cons.IH [OF k t] by (auto split: sum.splits)
qed simp

end

section \<open>The size of the frames\<close>

text \<open>There are \<open>n\<close> frames, and each holds \<open>PAGE_SIZE\<close> bytes.\<close>

definition frames_ok :: "nat \<Rightarrow> 'd bpm \<Rightarrow> bool" where
  "frames_ok n s \<longleftrightarrow> length (bp_pages s) = n \<and> (\<forall>p \<in> set (bp_pages s). page_wf p)"

lemma frames_ok_update: "frames_ok n s \<Longrightarrow> (f < length (bp_pages s) \<Longrightarrow> page_wf p) \<Longrightarrow> frames_ok n (s\<lparr>bp_pages := (bp_pages s)[f := p]\<rparr>)"
  unfolding frames_ok_def by (cases "f < length (bp_pages s)") (auto dest!: set_update_subset_insert [THEN subsetD] simp: list_update_beyond)

lemma frames_ok_cong: "bp_pages s' = bp_pages s \<Longrightarrow> frames_ok n s \<Longrightarrow> frames_ok n s'"
  by (simp add: frames_ok_def)

lemma frames_ok_placed:
  assumes "frames_ok n s" and "page_wf q"
  shows "frames_ok n (placed f q dm s)"
  using frames_ok_update [OF assms(1), of f q] assms(2) by (simp add: frames_ok_def)

lemma acquire_frame_pages: "acquire_frame os s = (r, s1) \<Longrightarrow> bp_pages s1 = bp_pages s"
  by (auto simp: acquire_frame_def Let_def split: list.splits if_splits prod.splits sum.splits option.splits)

lemma FetchPage_frames:
  assumes "frames_ok n s" and "FetchPage os pid s = (r, s')"
  shows "frames_ok n s'"
  using assms(2)
proof (cases rule: FetchPage_cases)
  case (hit f)
  have "page_wf (bp_pages s ! f)" if "f < length (bp_pages s)" using that assms(1) by (simp add: frames_ok_def)
  then show ?thesis
    using frames_ok_update [OF assms(1), of f "(bp_pages s ! f)\<lparr>p_pin_count := p_pin_count (bp_pages s ! f) + 1\<rparr>"]
    by (simp add: hit upd_page_def frames_ok_def)
next
  case (evict_error e)
  then show ?thesis using frames_ok_cong [OF acquire_frame_pages assms(1)] by blast
next
  case full
  then show ?thesis using assms(1) by simp
next
  case (read_error e f s1 dm)
  have "frames_ok n s1" using frames_ok_cong [OF acquire_frame_pages [OF read_error(2)] assms(1)] .
  then show ?thesis using frames_ok_update [of n s1 f "ResetMemory (bp_pages s1 ! f)"]
    by (simp add: read_error upd_page_def frames_ok_def)
next
  case (miss f s1 d dm)
  have "frames_ok n s1" using frames_ok_cong [OF acquire_frame_pages [OF miss(2)] assms(1)] .
  then show ?thesis unfolding miss(5) using ReadPage_length [OF miss(3)] by (intro frames_ok_placed) (simp_all add: page_wf_def)
qed

lemma NewPage_frames:
  assumes "frames_ok n s" and "NewPage os s = (r, s')"
  shows "frames_ok n s'"
  using assms(2)
proof (cases rule: NewPage_cases)
  case (evict_error e)
  then show ?thesis using frames_ok_cong [OF acquire_frame_pages assms(1)] by blast
next
  case full
  then show ?thesis using assms(1) by simp
next
  case (fresh f s1)
  have "frames_ok n s1" using frames_ok_cong [OF acquire_frame_pages [OF fresh(1)] assms(1)] .
  then show ?thesis unfolding fresh(3) by (intro frames_ok_placed) simp_all
qed

lemma upd_page_frames: "frames_ok n s \<Longrightarrow> (\<And>p. page_wf p \<Longrightarrow> page_wf (g p)) \<Longrightarrow> frames_ok n (upd_page f g s)"
  unfolding upd_page_def by (intro frames_ok_update) (simp_all add: frames_ok_def)

lemma UnpinPage_frames:
  assumes "frames_ok n s" and "UnpinPage ndebug pid b s = (r, s')"
  shows "frames_ok n s'"
proof (cases "bp_page_table s pid")
  case (Some f)
  let ?s1 = "if b then upd_page f (SetDirty True) s else s"
  have "frames_ok n (upd_page f (\<lambda>p. p\<lparr>p_pin_count := p_pin_count p - 1\<rparr>) ?s1)"
    using assms(1) by (intro upd_page_frames) (simp_all add: upd_page_frames)
  then show ?thesis using assms(2) Some by (auto simp: UnpinPage_def Let_def frames_ok_def split: if_splits)
qed (use assms in \<open>simp add: UnpinPage_def\<close>)

section \<open>The page numbers in use\<close>

abbreviation next_id :: "'d bpm \<Rightarrow> pageid" where
  "next_id s \<equiv> dm_next_page_id (bp_disk s)"

lemma acquire_frame_numbers:
  assumes "acquire_frame os s = (r, s1)"
  shows "dom (bp_page_table s1) \<subseteq> dom (bp_page_table s) \<and> next_id s1 = next_id s"
  using assms
  by (auto simp: acquire_frame_def Let_def dest!: WritePageAsync_disk await_completion_disk
      split: list.splits if_splits prod.splits sum.splits option.splits)

lemma FetchPage_numbers:
  assumes "FetchPage os pid s = (r, s')"
  shows "dom (bp_page_table s') \<subseteq> insert pid (dom (bp_page_table s)) \<and> next_id s' = next_id s"
  using assms
proof (cases rule: FetchPage_cases)
  case (hit f)
  then show ?thesis by auto
next
  case (evict_error e)
  then show ?thesis using acquire_frame_numbers [of os s] by blast
next
  case full
  then show ?thesis by auto
next
  case (read_error e f s1 dm)
  then show ?thesis using acquire_frame_numbers [OF read_error(2)] ReadPage_disk [OF read_error(3)] by auto
next
  case (miss f s1 d dm)
  then show ?thesis using acquire_frame_numbers [OF miss(2)] ReadPage_disk [OF miss(3)] by auto
qed

lemma NewPage_numbers:
  assumes "NewPage os s = (r, s')"
  shows "(\<exists>f. r = Inr (Some (next_id s, f)) \<and> dom (bp_page_table s') \<subseteq> insert (next_id s) (dom (bp_page_table s)) \<and> next_id s' = next_id s + 1)
    \<or> (\<forall>x. r \<noteq> Inr (Some x)) \<and> dom (bp_page_table s') \<subseteq> dom (bp_page_table s) \<and> next_id s' = next_id s"
  using assms
proof (cases rule: NewPage_cases)
  case (fresh f s1)
  then show ?thesis using acquire_frame_numbers [OF fresh(1)] by auto
qed (use acquire_frame_numbers [of os s] in auto)

lemma UnpinPage_numbers:
  "UnpinPage ndebug pid b s = (r, s') \<Longrightarrow> bp_page_table s' = bp_page_table s \<and> next_id s' = next_id s"
  by (auto simp: UnpinPage_def Let_def split: option.splits if_splits)

text \<open>Only the table \<open>users\<close>, with number 0, can exist; before its first row no page has a number, afterwards
  page 0 is the only one.\<close>

definition only_users :: "catalog \<Rightarrow> bool" where
  "only_users cat \<longleftrightarrow> (\<forall>i. cat_tables cat i \<noteq> None \<longrightarrow> i = 0)
     \<and> (cat_table_names cat ''users'' = None \<longrightarrow> cat_tables cat = Map.empty \<and> cat_next_table_id cat = 0)"

definition page_zero :: "catalog \<Rightarrow> 'd bpm \<Rightarrow> bool" where
  "page_zero cat s \<longleftrightarrow>
     next_id s = 0 \<and> bp_page_table s = Map.empty \<and> (\<forall>ti. cat_tables cat 0 = Some ti \<longrightarrow> ti_first_page_id ti = INVALID_PAGE_ID)
     \<or> next_id s = 1 \<and> dom (bp_page_table s) \<subseteq> {0} \<and> (\<exists>ti. cat_tables cat 0 = Some ti \<and> ti_first_page_id ti = 0)"

definition one_page :: "nat \<Rightarrow> 'd sting_instance \<Rightarrow> bool" where
  "one_page n inst \<longleftrightarrow> frames_ok n (in_bpm inst) \<and> only_users (in_catalog inst) \<and> page_zero (in_catalog inst) (in_bpm inst)"

lemma one_page_ctor:
  assumes "dm_next_page_id dm = 0"
  shows "one_page n (StingInstance_ctor (BufferPoolManager_ctor n dm))"
  using assms
  by (auto simp: one_page_def frames_ok_def only_users_def page_zero_def StingInstance_ctor_def BufferPoolManager_ctor_def CatalogManager_ctor_def)

lemma only_users_0: "only_users cat \<Longrightarrow> cat_tables cat p = Some ti \<Longrightarrow> p = 0"
  by (auto simp: only_users_def)

lemma page_zero_shrink:
  assumes "page_zero cat s" and "dom (bp_page_table s') \<subseteq> dom (bp_page_table s)" and "next_id s' = next_id s"
  shows "page_zero cat s'"
  using assms by (auto simp: page_zero_def)

lemma one_page_fetch:
  assumes i: "one_page n inst" and ti: "cat_tables (in_catalog inst) p = Some ti" "ti_first_page_id ti \<noteq> INVALID_PAGE_ID"
    and f: "FetchPage os (ti_first_page_id ti) (in_bpm inst) = (r, s)"
  shows "one_page n (inst\<lparr>in_bpm := s\<rparr>)"
proof -
  have "p = 0" using i ti(1) only_users_0 by (auto simp: one_page_def)
  then have "next_id (in_bpm inst) = 1" "dom (bp_page_table (in_bpm inst)) \<subseteq> {0}" "ti_first_page_id ti = 0"
    using i ti by (auto simp: one_page_def page_zero_def)
  moreover from this have "dom (bp_page_table s) \<subseteq> insert 0 {0}" "next_id s = 1"
    using FetchPage_numbers [OF f] by (force, simp)
  ultimately show ?thesis using i ti(1) \<open>p = 0\<close> FetchPage_frames [OF _ f] by (simp add: one_page_def page_zero_def)
qed

lemma one_page_new:
  assumes i: "one_page n inst" and ti: "cat_tables (in_catalog inst) p = Some ti" "ti_first_page_id ti = INVALID_PAGE_ID"
    and f: "NewPage os (in_bpm inst) = (Inr (Some (pid, f)), s)"
  shows "one_page n (inst\<lparr>in_bpm := s, in_catalog := update_first_page p pid (in_catalog inst)\<rparr>)"
proof -
  have p: "p = 0" using i ti(1) only_users_0 by (auto simp: one_page_def)
  then have z: "next_id (in_bpm inst) = 0" "bp_page_table (in_bpm inst) = Map.empty"
    using i ti by (auto simp: one_page_def page_zero_def INVALID_PAGE_ID_def)
  have "pid = 0" "dom (bp_page_table s) \<subseteq> {0}" "next_id s = 1" using NewPage_numbers [OF f] z by auto
  moreover have "only_users (update_first_page p pid (in_catalog inst))"
    using i ti(1) p by (auto simp: one_page_def only_users_def update_first_page_def)
  ultimately show ?thesis using i ti(1) p NewPage_frames [OF _ f]
    by (auto simp: one_page_def page_zero_def update_first_page_def UpdateFirstPageId_def)
qed

lemma one_page_create:
  assumes i: "one_page n inst" and c: "CreateTable ''users'' sch INVALID_PAGE_ID (in_catalog inst) = (r, cat)"
  shows "one_page n (inst\<lparr>in_catalog := cat\<rparr>)"
proof (cases "cat_table_names (in_catalog inst) ''users''")
  case None
  then have "cat_tables (in_catalog inst) = Map.empty" "cat_next_table_id (in_catalog inst) = 0"
    using i by (auto simp: one_page_def only_users_def)
  then show ?thesis using i c None by (auto simp: one_page_def only_users_def page_zero_def CreateTable_def TableInfo_ctor_def Let_def split: if_splits)
qed (use i c in \<open>auto simp: CreateTable_def one_page_def\<close>)

interpretation zero: instance_invariant os "one_page n" for os :: "'d os" and n :: nat
proof
  show "one_page n (inst\<lparr>in_txn_manager := tm\<rparr>)" if "one_page n inst" for inst :: "'d sting_instance" and tm
    using that by (simp add: one_page_def)
  show "page_wf (bp_pages (in_bpm inst) ! f)" if "one_page n inst" "f < length (bp_pages (in_bpm inst))"
    for inst :: "'d sting_instance" and f using that by (simp add: one_page_def frames_ok_def)
  show "one_page n (set_page f pg inst)" if "one_page n inst" "f < length (bp_pages (in_bpm inst)) \<Longrightarrow> page_wf pg"
    for inst :: "'d sting_instance" and f pg
    using that frames_ok_update [of n "in_bpm inst" f pg] by (simp add: one_page_def set_page_def upd_page_def page_zero_def)
  show "one_page n (inst\<lparr>in_bpm := s\<rparr>)"
    if "one_page n inst" "NewPage os (in_bpm inst) = (r, s)" "\<And>x. r \<noteq> Inr (Some x)" for inst :: "'d sting_instance" and r s
    using that NewPage_numbers [OF that(2)] NewPage_frames [OF _ that(2)] page_zero_shrink by (auto simp: one_page_def)
  show "one_page n (inst\<lparr>in_bpm := s\<rparr>)"
    if "one_page n inst" "UnpinPage ndebug pid b (in_bpm inst) = (r, s)" for inst :: "'d sting_instance" and ndebug pid b r s
    using that UnpinPage_numbers [OF that(2)] UnpinPage_frames [OF _ that(2)] by (auto simp: one_page_def page_zero_def)
qed (blast intro: one_page_fetch one_page_new one_page_create)+

section \<open>Properties\<close>

text \<open>The whole database is one page.  On any device and for any requests, a server that was started on page
  number 0 gives out at most that number, and no other page is ever resident; in particular a page number
  given out was not in use.\<close>

theorem database_is_page_zero:
  assumes "session os ndebug qs (StingInstance_ctor (BufferPoolManager_ctor n dm)) = (as, inst)" and "dm_next_page_id dm = 0"
  shows "dm_next_page_id (bp_disk (in_bpm inst)) \<le> 1 \<and> dom (bp_page_table (in_bpm inst)) \<subseteq> {0}
    \<and> bp_page_table (in_bpm inst) (dm_next_page_id (bp_disk (in_bpm inst))) = None"
proof -
  have "one_page n inst" using zero.session_keeps [OF one_page_ctor [OF assms(2)] assms(1)] .
  then show ?thesis by (auto simp: one_page_def page_zero_def)
qed

theorem database_is_page_zero_witness:
  "\<exists>as inst. session broken_os True [''CREATE TABLE'', ''INSERT'', ''INSERT''] (StingInstance_ctor (fresh_pool 1)) = (as, inst)
    \<and> dom (bp_page_table (in_bpm inst)) \<subseteq> {0}"
proof -
  obtain as inst where s: "session broken_os True [''CREATE TABLE'', ''INSERT'', ''INSERT''] (StingInstance_ctor (fresh_pool 1)) = (as, inst)"
    by fastforce
  show ?thesis using database_is_page_zero [OF s [unfolded fresh_pool_def]] s by simp
qed

end
