(* ===== verification/Worker_Steps.thy ===== *)
theory Worker_Steps
  imports Row_Race Server_Invariants
begin

text \<open>
  Several workers of the thread pool (\<^verbatim>\<open>src/network/server.h\<close>, \<open>Run\<close>) serve requests at the same time.  Each manager locks its own
  mutex, but nothing spans two calls, and the executors read and change pages and the table description without a latch.  Here the
  request handler is cut into steps.  A step is one call of a manager, which runs under that manager's mutex, one reading or writing of
  the shared table description, or one access to the bytes of a page, those inside the methods of the slotted page included.
  Between two steps any other worker can run.  (The calls of the transaction manager are cut further in \<open>Txn_Threads\<close>.)

  The accesses that no mutex protects are data races in the sense of C++; taking each of them as one indivisible step is an
  assumption of this model, and \<open>Data_Race\<close> shows where the program depends on it.

  The first property says that the steps are the handler: a worker that is not interrupted does what \<open>dispatch\<close> does.
\<close>

section \<open>Where a worker is\<close>

datatype pc =
    P_start string
  | P_ins_init u64 | P_ins_read u64 u32 | P_ins_new u64 u32 | P_ins_link u64 u32 pageid nat | P_ins_format u64 u32 pageid nat nat
  | P_ins_fetch u64 u32 pageid | P_ins_row u64 u32 pageid nat | P_ins_put u64 pageid nat bytes ipc | P_ins_log u64 pageid nat rid bytes | P_ins_lsn u64 pageid nat u64
  | P_ins_unpin u64 pageid
  | P_sel_init u64 | P_sel_read u64 u32 | P_sel_next u64 pageid u32 i32 | P_sel_look u64 pageid nat u32 i32
  | P_sel_get u64 pageid nat u32 i32 gpc | P_sel_unpin u64 pageid bool u32 i32
  | P_commit u64 string
  | P_done string | P_dead error

text \<open>The end of the handler: an answer, an exception turned into one, or an error that is no exception.\<close>

fun finish :: "error + string \<Rightarrow> pc" where
  "finish (Inr a) = P_done a"
| "finish (Inl e) = (case what e of Some m \<Rightarrow> P_done (''Error: '' @ m @ newline) | None \<Rightarrow> P_dead e)"

abbreviation inserted_text :: string where
  "inserted_text \<equiv> ''Success: 1 row inserted into '' @ users_quoted @ ''.'' @ newline"

abbreviation selected_text :: "i32 \<Rightarrow> string" where
  "selected_text cnt \<equiv> ''Success: '' @ to_string (sint cnt) @ '' rows selected from '' @ users_quoted @ ''.'' @ newline"

text \<open>Where the executors go on after an access of \<open>InsertTuple\<close> and of \<open>GetTuple\<close>.\<close>

fun put_next :: "u64 \<Rightarrow> pageid \<Rightarrow> nat \<Rightarrow> bytes \<Rightarrow> ipc \<Rightarrow> pc" where
  "put_next txn pid f row (I_done None) = P_ins_unpin txn pid"
| "put_next txn pid f row (I_done (Some rid)) = P_ins_log txn pid f rid row"
| "put_next txn pid f row (I_dead e) = finish (Inl e)"
| "put_next txn pid f row i = P_ins_put txn pid f row i"

fun get_next :: "u64 \<Rightarrow> pageid \<Rightarrow> nat \<Rightarrow> u32 \<Rightarrow> i32 \<Rightarrow> gpc \<Rightarrow> pc" where
  "get_next txn pid f slot cnt (G_done tuple_data) = P_sel_unpin txn pid True (slot + 1) cnt"
| "get_next txn pid f slot cnt (G_dead e) = finish (Inl e)"
| "get_next txn pid f slot cnt g = P_sel_get txn pid f slot cnt g"

fun wstep :: "'d os \<Rightarrow> bool \<Rightarrow> pc \<times> 'd sting_instance \<Rightarrow> pc \<times> 'd sting_instance" where
  "wstep os ndebug (P_start q, inst) =
     (if has_prefix ''CREATE TABLE'' q then (case do_create inst of (r, inst) \<Rightarrow> (finish r, inst))
      else if has_prefix ''INSERT'' q
      then (case begin_txn inst of (Inl e, inst) \<Rightarrow> (finish (Inl e), inst) | (Inr txn, inst) \<Rightarrow> (P_ins_init txn, inst))
      else if has_prefix ''SELECT'' q
      then (case begin_txn inst of (Inl e, inst) \<Rightarrow> (finish (Inl e), inst) | (Inr txn, inst) \<Rightarrow> (P_sel_init txn, inst))
      else if has_prefix ''BEGIN'' q then (case do_begin inst of (r, inst) \<Rightarrow> (finish r, inst))
      else (P_done (''Error: Unsupported statement. Try CREATE TABLE or BEGIN.'' @ newline), inst))"
| "wstep os ndebug (P_ins_init txn, inst) =
     (case GetTable ''users'' (in_catalog inst) of
        Inl e \<Rightarrow> (finish (Inl e), inst)
      | Inr None \<Rightarrow> (finish (Inl (Runtime_error (''Table not found for INSERT: '' @ ''users''))), inst)
      | Inr (Some p) \<Rightarrow> (P_ins_read txn p, inst))"
| "wstep os ndebug (P_ins_read txn p, inst) =
     (case table_at p (in_catalog inst) of
        Inl e \<Rightarrow> (finish (Inl e), inst)
      | Inr info \<Rightarrow> (if ti_first_page_id info = INVALID_PAGE_ID then P_ins_new txn p else P_ins_fetch txn p (ti_first_page_id info), inst))"
| "wstep os ndebug (P_ins_new txn p, inst) =
     (case NewPage os (in_bpm inst) of
        (Inl e, bpm) \<Rightarrow> (finish (Inl e), inst\<lparr>in_bpm := bpm\<rparr>)
      | (Inr None, bpm) \<Rightarrow>
          (finish (Inl Undefined), inst\<lparr>in_bpm := bpm, in_catalog := update_first_page p INVALID_PAGE_ID (in_catalog inst)\<rparr>)
      | (Inr (Some (pid, f)), bpm) \<Rightarrow> (P_ins_link txn p pid f, inst\<lparr>in_bpm := bpm\<rparr>))"
| "wstep os ndebug (P_ins_link txn p pid f, inst) =
     (P_ins_format txn p pid f 0, inst\<lparr>in_catalog := update_first_page p pid (in_catalog inst)\<rparr>)"
| "wstep os ndebug (P_ins_format txn p pid f k, inst) =
     (if k < 3 then P_ins_format txn p pid f (Suc k) else P_ins_row txn p pid f, set_page f (format_access k (bp_pages (in_bpm inst) ! f)) inst)"
| "wstep os ndebug (P_ins_fetch txn p pid, inst) =
     (case FetchPage os pid (in_bpm inst) of
        (Inl e, bpm) \<Rightarrow> (finish (Inl e), inst\<lparr>in_bpm := bpm\<rparr>)
      | (Inr None, bpm) \<Rightarrow> (finish (Inl Undefined), inst\<lparr>in_bpm := bpm\<rparr>)
      | (Inr (Some f), bpm) \<Rightarrow> (P_ins_row txn p pid f, inst\<lparr>in_bpm := bpm\<rparr>))"
| "wstep os ndebug (P_ins_row txn p pid f, inst) =
     (case table_at p (in_catalog inst) of
        Inl e \<Rightarrow> (finish (Inl e), inst)
      | Inr info \<Rightarrow>
          let row = replicate (unat (sc_tuple_fixed_size (ti_schema info))) 0 in (P_ins_put txn pid f row (I_count row), inst))"
| "wstep os ndebug (P_ins_put txn pid f row i, inst) =
     (case istep (i, bp_pages (in_bpm inst) ! f) of (i, pg) \<Rightarrow> (put_next txn pid f row i, set_page f pg inst))"
| "wstep os ndebug (P_ins_log txn pid f rid row, inst) =
     (case tm_txn_map (in_txn_manager inst) txn of
        None \<Rightarrow> (finish (Inl Undefined), inst)
      | Some tx \<Rightarrow>
          (case log_insert txn (LogRecord_insert_ctor (tx_txn_id tx) (GetLSN (bp_pages (in_bpm inst) ! f)) LR_INSERT rid row) inst of
             (lsn, inst) \<Rightarrow> (P_ins_lsn txn pid f lsn, inst)))"
| "wstep os ndebug (P_ins_lsn txn pid f lsn, inst) =
     (P_ins_unpin txn pid, set_page f (SetLSN lsn (bp_pages (in_bpm inst) ! f)) inst)"
| "wstep os ndebug (P_ins_unpin txn pid, inst) =
     (case unpin ndebug pid True inst of
        (Inl e, inst) \<Rightarrow> (finish (Inl e), inst)
      | (Inr b, inst) \<Rightarrow> (P_commit txn inserted_text, inst))"
| "wstep os ndebug (P_sel_init txn, inst) =
     (case GetTable ''users'' (in_catalog inst) of
        Inl e \<Rightarrow> (finish (Inl e), inst)
      | Inr None \<Rightarrow> (finish (Inl (Runtime_error (''Table not found: '' @ ''users''))), inst)
      | Inr (Some p) \<Rightarrow> (P_sel_read txn p, inst))"
| "wstep os ndebug (P_sel_read txn p, inst) =
     (case table_at p (in_catalog inst) of
        Inl e \<Rightarrow> (finish (Inl e), inst)
      | Inr info \<Rightarrow> (P_sel_next txn (ti_first_page_id info) 0 0, inst))"
| "wstep os ndebug (P_sel_next txn pid slot cnt, inst) =
     (if pid = INVALID_PAGE_ID then (P_commit txn (selected_text cnt), inst)
      else case FetchPage os pid (in_bpm inst) of
          (Inl e, bpm) \<Rightarrow> (finish (Inl e), inst\<lparr>in_bpm := bpm\<rparr>)
        | (Inr None, bpm) \<Rightarrow> (P_commit txn (selected_text cnt), inst\<lparr>in_bpm := bpm\<rparr>)
        | (Inr (Some f), bpm) \<Rightarrow> (P_sel_look txn pid f slot cnt, inst\<lparr>in_bpm := bpm\<rparr>))"
| "wstep os ndebug (P_sel_look txn pid f slot cnt, inst) =
     (if ucast (GetTupleCount (bp_pages (in_bpm inst) ! f)) \<le> slot then (P_sel_unpin txn pid False slot cnt, inst)
      else (P_sel_get txn pid f slot cnt (G_count \<lparr>rid_page_id = pid, rid_slot_num = slot\<rparr>), inst))"
| "wstep os ndebug (P_sel_get txn pid f slot cnt g, inst) = (get_next txn pid f slot cnt (gstep (bp_pages (in_bpm inst) ! f) g), inst)"
| "wstep os ndebug (P_sel_unpin txn pid again slot cnt, inst) =
     (case unpin ndebug pid False inst of
        (Inl e, inst) \<Rightarrow> (finish (Inl e), inst)
      | (Inr b, inst) \<Rightarrow> (if again then P_sel_next txn pid slot (cnt + 1) else P_commit txn (selected_text cnt), inst))"
| "wstep os ndebug (P_commit txn a, inst) =
     (case commit_txn txn inst of
        (Inl e, inst) \<Rightarrow> (finish (Inl e), inst)
      | (Inr u, inst) \<Rightarrow> (P_done a, inst))"
| "wstep os ndebug (P_done a, inst) = (P_done a, inst)"
| "wstep os ndebug (P_dead e, inst) = (P_dead e, inst)"

declare wstep.simps [simp del]

lemmas wsteps = wstep.simps

section \<open>A worker alone\<close>

text \<open>\<open>reaches c d\<close>: uninterrupted, the worker gets from \<open>c\<close> to \<open>d\<close>.  After undefined behaviour the instance does not matter.\<close>

definition reaches :: "'d os \<Rightarrow> bool \<Rightarrow> pc \<times> 'd sting_instance \<Rightarrow> pc \<times> 'd sting_instance \<Rightarrow> bool" where
  "reaches os ndebug c d \<longleftrightarrow> (\<exists>n inst. (wstep os ndebug ^^ n) c = (fst d, inst) \<and> (fst d = P_dead Undefined \<or> inst = snd d))"

lemma reaches_refl: "reaches os ndebug c c"
  unfolding reaches_def by (rule exI [of _ 0], rule exI [of _ "snd c"]) simp

lemma dead_stays: "(wstep os ndebug ^^ n) (P_dead e, inst) = (P_dead e, inst)"
  by (induction n) (simp_all add: wsteps)

lemma reaches_trans:
  assumes "reaches os ndebug c d" and "reaches os ndebug d e"
  shows "reaches os ndebug c e"
proof -
  obtain n i where n: "(wstep os ndebug ^^ n) c = (fst d, i)" "fst d = P_dead Undefined \<or> i = snd d" using assms(1) by (auto simp: reaches_def)
  obtain m j where m: "(wstep os ndebug ^^ m) d = (fst e, j)" "fst e = P_dead Undefined \<or> j = snd e" using assms(2) by (auto simp: reaches_def)
  show ?thesis
  proof (cases "i = snd d")
    case True
    then have "(wstep os ndebug ^^ (m + n)) c = (fst e, j)" using n(1) m(1) by (simp add: funpow_add)
    then show ?thesis using m(2) unfolding reaches_def by blast
  next
    case False
    then have "fst e = P_dead Undefined" using n(2) m(1) dead_stays [of m os ndebug Undefined "snd d"] by (cases d) simp
    then show ?thesis using n False unfolding reaches_def by metis
  qed
qed

lemma reaches_one: "wstep os ndebug c = d \<Longrightarrow> reaches os ndebug c d"
  unfolding reaches_def by (intro exI [of _ 1] exI [of _ "snd d"]) simp

lemma reaches_step: "wstep os ndebug c = d \<Longrightarrow> reaches os ndebug d e \<Longrightarrow> reaches os ndebug c e"
  using reaches_trans reaches_one by metis

lemma reaches_end: "reaches os ndebug c (w, inst') \<Longrightarrow> w \<noteq> P_dead Undefined \<Longrightarrow> \<exists>n. (wstep os ndebug ^^ n) c = (w, inst')"
  unfolding reaches_def by auto

section \<open>The methods of the page\<close>

lemma set_page_same [simp]: "set_page f (bp_pages (in_bpm inst) ! f) inst = inst"
  by (simp add: set_page_def upd_page_def)

lemma set_page_twice: "set_page f q (set_page f p inst) = set_page f q inst"
  by (simp add: set_page_def)

lemma set_page_at: "f < length (bp_pages (in_bpm inst)) \<Longrightarrow> bp_pages (in_bpm (set_page f pg inst)) ! f = pg"
  by (simp add: set_page_def upd_page_def)

lemma set_page_length [simp]: "length (bp_pages (in_bpm (set_page f pg inst))) = length (bp_pages (in_bpm inst))"
  by (simp add: set_page_def)

lemma set_page_beyond: "length (bp_pages (in_bpm inst)) \<le> f \<Longrightarrow> set_page f pg inst = inst"
  by (simp add: set_page_def upd_page_def list_update_beyond)

lemma put_reaches:
  "(istep ^^ n) (i, bp_pages (in_bpm inst) ! f) = (j, pg) \<Longrightarrow> f < length (bp_pages (in_bpm inst)) \<Longrightarrow>
   reaches os ndebug (put_next txn pid f row i, inst) (put_next txn pid f row j, set_page f pg inst)"
proof (induction n arbitrary: i inst)
  case 0
  then show ?case by (auto intro: reaches_refl)
next
  case (Suc n)
  obtain i1 p1 where s: "istep (i, bp_pages (in_bpm inst) ! f) = (i1, p1)" by fastforce
  then have rest: "(istep ^^ n) (i1, p1) = (j, pg)" using Suc.prems(1) by (simp add: funpow_swap1)
  show ?case
  proof (cases "(\<exists>r. i = I_done r) \<or> (\<exists>e. i = I_dead e)")
    case True
    then have "i1 = i" "p1 = bp_pages (in_bpm inst) ! f" using s by auto
    then show ?thesis using Suc.IH rest Suc.prems(2) by blast
  next
    case False
    then have "put_next txn pid f row i = P_ins_put txn pid f row i" by (cases i) auto
    then have "wstep os ndebug (put_next txn pid f row i, inst) = (put_next txn pid f row i1, set_page f p1 inst)" using s by (simp add: wsteps)
    moreover have "reaches os ndebug (put_next txn pid f row i1, set_page f p1 inst) (put_next txn pid f row j, set_page f pg (set_page f p1 inst))"
      using rest Suc.prems(2) by (intro Suc.IH) (simp_all add: set_page_at)
    ultimately show ?thesis by (simp add: set_page_twice reaches_step)
  qed
qed

lemma get_reaches:
  "reaches os ndebug (get_next txn pid f slot cnt g, inst) (get_next txn pid f slot cnt ((gstep (bp_pages (in_bpm inst) ! f) ^^ n) g), inst)"
proof (induction n arbitrary: g)
  case 0
  then show ?case by (simp add: reaches_refl)
next
  case (Suc n)
  let ?g = "gstep (bp_pages (in_bpm inst) ! f) g"
  have rest: "reaches os ndebug (get_next txn pid f slot cnt ?g, inst) (get_next txn pid f slot cnt ((gstep (bp_pages (in_bpm inst) ! f) ^^ Suc n) g), inst)"
    using Suc.IH [of ?g] by (simp add: funpow_swap1)
  show ?case
  proof (cases "(\<exists>d. g = G_done d) \<or> (\<exists>e. g = G_dead e)")
    case True
    then have "?g = g" by auto
    then show ?thesis using rest by simp
  next
    case False
    then have "get_next txn pid f slot cnt g = P_sel_get txn pid f slot cnt g" by (cases g) auto
    then show ?thesis using reaches_step [OF _ rest] by (simp add: wsteps)
  qed
qed

lemma format_reaches:
  "reaches os ndebug (P_ins_format txn p pid f 0, inst) (P_ins_row txn p pid f, set_page f (SP_Init (bp_pages (in_bpm inst) ! f)) inst)"
proof -
  have "wstep os ndebug (P_ins_format txn p pid f 0, inst) = (P_ins_format txn p pid f 1, set_page f (format_access 0 (bp_pages (in_bpm inst) ! f)) inst)"
    "wstep os ndebug (P_ins_format txn p pid f 1, inst') = (P_ins_format txn p pid f 2, set_page f (format_access 1 (bp_pages (in_bpm inst') ! f)) inst')"
    "wstep os ndebug (P_ins_format txn p pid f 2, inst') = (P_ins_format txn p pid f 3, set_page f (format_access 2 (bp_pages (in_bpm inst') ! f)) inst')"
    "wstep os ndebug (P_ins_format txn p pid f 3, inst') = (P_ins_row txn p pid f, set_page f (format_access 3 (bp_pages (in_bpm inst') ! f)) inst')" for inst'
    by (simp_all add: wsteps eval_nat_numeral)
  note go = reaches_step [OF this(1) reaches_step [OF this(2) reaches_step [OF this(3) reaches_one [OF this(4)]]]]
  show ?thesis
  proof (cases "f < length (bp_pages (in_bpm inst))")
    case True
    then show ?thesis using go by (simp add: set_page_at set_page_twice format_accesses [symmetric])
  next
    case False
    then show ?thesis using go by (simp add: set_page_beyond)
  qed
qed

lemma InsertTuple_undefined: "InsertTuple t p = Inl e \<Longrightarrow> e = Undefined"
  by (auto simp: InsertTuple_def memcpy_to_def Let_def split: if_splits)

text \<open>One row into the page in frame \<open>f\<close>.\<close>

lemma row_reaches:
  assumes f: "f < length (bp_pages (in_bpm inst))" and at: "table_at p (in_catalog inst) = Inr info"
    and call: "insert_rows (Some txn) (replicate (unat (sc_tuple_fixed_size (ti_schema info))) 0) (Some f) 1 inst = (r, inst')"
  shows "reaches os ndebug (P_ins_row txn p pid f, inst) (case r of Inl e \<Rightarrow> finish (Inl e) | Inr u \<Rightarrow> P_ins_unpin txn pid, inst')"
proof -
  let ?row = "replicate (unat (sc_tuple_fixed_size (ti_schema info))) 0 :: bytes" and ?p = "bp_pages (in_bpm inst) ! f"
  have page: "bp_pages (in_bpm (set_page f pg inst)) ! f = pg" for pg using f by (rule set_page_at)
  have start: "wstep os ndebug (P_ins_row txn p pid f, inst) = (put_next txn pid f ?row (I_count ?row), inst)" using at by (simp add: wsteps Let_def)
  note A = insert_accesses [of ?row ?p]
  consider (err) e where "InsertTuple ?row ?p = Inl e" | (full) pg where "InsertTuple ?row ?p = Inr (None, pg)"
    | (fits) rid pg where "InsertTuple ?row ?p = Inr (Some rid, pg)"
    by (metis sum.exhaust prod.exhaust option.exhaust)
  then show ?thesis
  proof cases
    case err
    then have e: "e = Undefined" by (rule InsertTuple_undefined)
    have "fst ((istep ^^ 8) (I_count ?row, ?p)) = I_dead e" using A err by simp
    then obtain pg where "(istep ^^ 8) (I_count ?row, ?p) = (I_dead e, pg)" by (cases "(istep ^^ 8) (I_count ?row, ?p)") simp
    from reaches_step [OF start put_reaches [OF this f]] have "reaches os ndebug (P_ins_row txn p pid f, inst) (P_dead Undefined, set_page f pg inst)"
      by (simp add: e)
    moreover have "r = Inl Undefined" using call err e by auto
    ultimately show ?thesis by (simp add: reaches_def)
  next
    case full
    then have "(istep ^^ 8) (I_count ?row, ?p) = (I_done None, pg)" using A by simp
    from reaches_step [OF start put_reaches [OF this f]] show ?thesis using full call by auto
  next
    case fits
    then have "(istep ^^ 8) (I_count ?row, ?p) = (I_done (Some rid), pg)" using A by simp
    from reaches_step [OF start put_reaches [OF this f]]
    have go: "reaches os ndebug (P_ins_row txn p pid f, inst) (P_ins_log txn pid f rid ?row, set_page f pg inst)" by simp
    show ?thesis
    proof (cases "tm_txn_map (in_txn_manager inst) txn")
      case None
      then have "wstep os ndebug (P_ins_log txn pid f rid ?row, set_page f pg inst) = (finish (Inl Undefined), set_page f pg inst)"
        by (simp add: wsteps set_page_def)
      then show ?thesis using call fits None by (intro reaches_trans [OF go] reaches_one) auto
    next
      case (Some tx)
      obtain lsn inst1 where l: "log_insert txn (LogRecord_insert_ctor (tx_txn_id tx) (GetLSN pg) LR_INSERT rid ?row) (set_page f pg inst) = (lsn, inst1)"
        by fastforce
      have same: "in_bpm inst1 = in_bpm (set_page f pg inst)" using l by (auto simp: log_insert_def Let_def split: prod.splits)
      have 2: "wstep os ndebug (P_ins_log txn pid f rid ?row, set_page f pg inst) = (P_ins_lsn txn pid f lsn, inst1)"
        using Some l page [of pg] by (simp add: wsteps set_page_def)
      have 3: "wstep os ndebug (P_ins_lsn txn pid f lsn, inst1) = (P_ins_unpin txn pid, set_page f (SetLSN lsn pg) inst1)"
        using page [of pg] by (simp add: wsteps same)
      have "r = Inr ()" "inst' = set_page f (SetLSN lsn pg) inst1" using call fits Some l by auto
      then show ?thesis using reaches_trans [OF go reaches_step [OF 2 reaches_one [OF 3]]] by simp
    qed
  qed
qed

text \<open>Frames that a well-formed pool hands out exist.\<close>

lemma got_frame:
  assumes safe: "pool_safe s"
  shows "FetchPage os pid s = (Inr (Some f), s') \<Longrightarrow> f < length (bp_pages s')" "NewPage os s = (Inr (Some (pid, f)), s') \<Longrightarrow> f < length (bp_pages s')"
proof -
  show "f < length (bp_pages s')" if "FetchPage os pid s = (Inr (Some f), s')"
    using that
  proof (cases rule: FetchPage_cases)
    case (hit g)
    then show ?thesis using pool_safeD(1,8) [OF safe] by auto
  next
    case (miss g s1 d dm)
    then show ?thesis using acquire_frame_Some [OF safe miss(2)] pool_safeD(1) [OF safe] by (auto simp: taken_def)
  qed auto
  show "f < length (bp_pages s')" if "NewPage os s = (Inr (Some (pid, f)), s')"
    using that
  proof (cases rule: NewPage_cases)
    case (fresh g s1)
    then show ?thesis using acquire_frame_Some [OF safe fresh(1)] pool_safeD(1) [OF safe] by (auto simp: taken_def)
  qed auto
qed

text \<open>Getting the page to write to.\<close>

lemma new_reaches:
  assumes none: "ti_first_page_id info = INVALID_PAGE_ID" and call: "target_page os p info inst = (r, inst1)"
  shows "reaches os ndebug (P_ins_new txn p, inst)
      (case r of Inl e \<Rightarrow> finish (Inl e) | Inr (pid, None) \<Rightarrow> P_dead Undefined | Inr (pid, Some f) \<Rightarrow> P_ins_row txn p pid f, inst1)"
proof -
  obtain x bpm where x: "NewPage os (in_bpm inst) = (x, bpm)" by fastforce
  show ?thesis
  proof (cases "\<exists>pid f. x = Inr (Some (pid, f))")
    case True
    then obtain pid f where pf: "x = Inr (Some (pid, f))" by blast
    then have 1: "wstep os ndebug (P_ins_new txn p, inst) = (P_ins_link txn p pid f, inst\<lparr>in_bpm := bpm\<rparr>)" using x by (simp add: wsteps)
    show ?thesis
      using call x pf none reaches_step [OF 1 reaches_step [OF wsteps(5) format_reaches]] by (auto simp: target_page_def)
  next
    case False
    then show ?thesis
      using call x none
      by (intro reaches_step [OF _ reaches_refl]) (auto simp: wsteps target_page_def split: sum.splits option.splits)
  qed
qed

lemma page_reaches:
  assumes at: "table_at p (in_catalog inst) = Inr info" and call: "target_page os p info inst = (r, inst1)"
  shows "reaches os ndebug (P_ins_read txn p, inst)
      (case r of Inl e \<Rightarrow> finish (Inl e) | Inr (pid, None) \<Rightarrow> P_dead Undefined | Inr (pid, Some f) \<Rightarrow> P_ins_row txn p pid f, inst1)"
proof (cases "ti_first_page_id info = INVALID_PAGE_ID")
  case True
  then have "wstep os ndebug (P_ins_read txn p, inst) = (P_ins_new txn p, inst)" using at by (simp add: wsteps)
  then show ?thesis using new_reaches [OF True call] by (rule reaches_step)
next
  case False
  then have 1: "wstep os ndebug (P_ins_read txn p, inst) = (P_ins_fetch txn p (ti_first_page_id info), inst)" using at by (simp add: wsteps)
  show ?thesis
    using call False
    by (intro reaches_step [OF 1] reaches_step [OF _ reaches_refl]) (auto simp: wsteps target_page_def split: sum.splits option.splits prod.splits)
qed

lemma page_frame:
  assumes safe: "pool_safe (in_bpm inst)" and at: "table_at p (in_catalog inst) = Inr info" and call: "target_page os p info inst = (Inr (pid, Some f), inst1)"
  shows "f < length (bp_pages (in_bpm inst1)) \<and> (\<exists>info'. table_at p (in_catalog inst1) = Inr info' \<and> ti_schema info' = ti_schema info)"
  using call got_frame [OF safe] at
  by (auto simp: target_page_def Let_def set_page_def table_at_def update_first_page_def UpdateFirstPageId_def upd_page_def
      split: if_splits prod.splits sum.splits option.splits)

text \<open>Giving the page back and committing.\<close>

lemma commit_reaches:
  "reaches os ndebug (P_commit txn a, inst)
     (case commit_txn txn inst of (Inl e, inst) \<Rightarrow> (finish (Inl e), inst) | (Inr u, inst) \<Rightarrow> (P_done a, inst))"
  by (rule reaches_step [OF _ reaches_refl]) (simp add: wsteps)

lemma tail_reaches:
  "reaches os ndebug (P_ins_unpin txn pid, inst)
     (case unpin ndebug pid True inst of
        (Inl e, inst) \<Rightarrow> (finish (Inl e), inst)
      | (Inr b, inst) \<Rightarrow> (case commit_txn txn inst of (Inl e, inst) \<Rightarrow> (finish (Inl e), inst) | (Inr u, inst) \<Rightarrow> (P_done inserted_text, inst)))"
proof -
  obtain r inst1 where u: "unpin ndebug pid True inst = (r, inst1)" by fastforce
  show ?thesis
  proof (cases r)
    case (Inl e)
    then show ?thesis using u by (intro reaches_step [OF _ reaches_refl]) (simp add: wsteps)
  next
    case (Inr b)
    then have 1: "wstep os ndebug (P_ins_unpin txn pid, inst) = (P_commit txn inserted_text, inst1)" using u by (simp add: wsteps)
    then show ?thesis using u Inr commit_reaches [of os ndebug txn inserted_text inst1] by (auto intro: reaches_step)
  qed
qed

text \<open>\<open>InsertExecutor::Next\<close> and the commit.\<close>

abbreviation committed :: "u64 \<Rightarrow> string \<Rightarrow> 'd sting_instance \<Rightarrow> pc \<times> 'd sting_instance" where
  "committed txn a inst \<equiv> (case commit_txn txn inst of (Inl e, inst) \<Rightarrow> (finish (Inl e), inst) | (Inr u, inst) \<Rightarrow> (P_done a, inst))"

lemma read_reaches:
  assumes safe: "pool_safe (in_bpm inst)"
    and call: "op_Next os ndebug (Some txn) (InsertExecutor (DummyValues False) ''users'' (Some p)) (out :: unit tuple_batch) inst = (x, inst')"
  shows "reaches os ndebug (P_ins_read txn p, inst) (case x of Inl e \<Rightarrow> (finish (Inl e), inst') | Inr y \<Rightarrow> committed txn inserted_text inst')"
proof (cases "table_at p (in_catalog inst)")
  case (Inl e)
  then show ?thesis using call by (intro reaches_step [OF _ reaches_refl]) (auto simp: wsteps)
next
  case (Inr info)
  obtain t inst2 where t: "target_page os p info inst = (t, inst2)" by fastforce
  note P = page_reaches [where ndebug = ndebug and txn = txn, OF Inr t]
  show ?thesis
  proof (cases "\<exists>pid f. t = Inr (pid, Some f)")
    case False
    then show ?thesis using P call Inr t by (auto simp: SetNumRows_def numeral_eq_Suc split: sum.splits option.splits)
  next
    case True
    then obtain pid f where pf: "t = Inr (pid, Some f)" by blast
    obtain info' where i: "f < length (bp_pages (in_bpm inst2))" "table_at p (in_catalog inst2) = Inr info'" "ti_schema info' = ti_schema info"
      using page_frame [OF safe Inr] t pf by blast
    obtain y inst3 where y: "insert_rows (Some txn) (replicate (unat (sc_tuple_fixed_size (ti_schema info'))) 0) (Some f) 1 inst2 = (y, inst3)"
      by fastforce
    have go: "reaches os ndebug (P_ins_read txn p, inst) (case y of Inl e \<Rightarrow> finish (Inl e) | Inr u \<Rightarrow> P_ins_unpin txn pid, inst3)"
      using reaches_trans [OF P] row_reaches [where os = os and ndebug = ndebug and pid = pid, OF i(1,2) y] pf by simp
    obtain z inst4 where z: "unpin ndebug pid True inst3 = (z, inst4)" by fastforce
    show ?thesis
    proof (cases y)
      case (Inl e)
      then show ?thesis using go call Inr t pf y i(3) by (auto simp: SetNumRows_def)
    next
      case (Inr u)
      then show ?thesis
        using reaches_trans [OF go [unfolded Inr sum.case(2)] tail_reaches] call \<open>table_at p (in_catalog inst) = Inr info\<close> t pf y i(3) z
        by (cases z) (auto simp: SetNumRows_def)
    qed
  qed
qed

lemma insert_reaches:
  assumes safe: "pool_safe (in_bpm inst)" and q: "has_prefix ''INSERT'' q" "\<not> has_prefix ''CREATE TABLE'' q"
    and call: "do_insert os ndebug inst = (r, inst')"
  shows "reaches os ndebug (P_start q, inst) (finish r, inst')"
proof -
  obtain b inst1 where b: "begin_txn inst = (b, inst1)" by fastforce
  have bpm: "in_bpm inst1 = in_bpm inst" using b by (auto simp: begin_txn_def split: prod.splits)
  show ?thesis
  proof (cases b)
    case (Inl e)
    then show ?thesis using b q call by (intro reaches_step [OF _ reaches_refl]) (auto simp: wsteps do_insert_def)
  next
    case (Inr txn)
    then have 1: "wstep os ndebug (P_start q, inst) = (P_ins_init txn, inst1)" using b q by (simp add: wsteps)
    consider (err) e where "GetTable ''users'' (in_catalog inst1) = Inl e" | (none) "GetTable ''users'' (in_catalog inst1) = Inr None"
      | (some) p where "GetTable ''users'' (in_catalog inst1) = Inr (Some p)"
      by (metis sum.exhaust option.exhaust)
    then show ?thesis
    proof cases
      case (some p)
      then have 2: "wstep os ndebug (P_ins_init txn, inst1) = (P_ins_read txn p, inst1)" by (simp add: wsteps)
      obtain x inst2 where x: "op_Next os ndebug (Some txn) (InsertExecutor (DummyValues False) ''users'' (Some p)) (TupleBatch_ctor :: unit tuple_batch) inst1 = (x, inst2)"
        by fastforce
      have "do_insert os ndebug inst = (case x of Inl e \<Rightarrow> (Inl e, inst2) | Inr y \<Rightarrow>
          (case commit_txn txn inst2 of (Inl e, inst) \<Rightarrow> (Inl e, inst) | (Inr u, inst) \<Rightarrow> (Inr inserted_text, inst)))"
        using b Inr some x by (simp del: op_Next.simps add: do_insert_def InsertExecutor_ctor_def DummyValues_ctor_def split: sum.split)
      then show ?thesis
        using reaches_step [OF 1 reaches_step [OF 2 read_reaches [OF safe [folded bpm] x]]] call
        by (auto split: sum.splits prod.splits)
    qed (rule reaches_step [OF 1 reaches_step [OF _ reaches_refl]],
        use b Inr call in \<open>auto simp: wsteps do_insert_def InsertExecutor_ctor_def DummyValues_ctor_def\<close>)+
  qed
qed

text \<open>\<open>SeqScanExecutor::Next\<close>, and the loop around it.\<close>

lemma next_reaches:
  assumes "seq_scan_next os ndebug name (Some p) pid slot inst = (x, inst')"
  shows "reaches os ndebug (P_sel_next txn pid slot cnt, inst)
    (case x of Inl e \<Rightarrow> finish (Inl e) | Inr (b, slot') \<Rightarrow> if b then P_sel_next txn pid slot' (cnt + 1) else P_commit txn (selected_text cnt), inst')"
proof (cases "pid = INVALID_PAGE_ID \<or> (\<forall>f s. FetchPage os pid (in_bpm inst) \<noteq> (Inr (Some f), s))")
  case True
  obtain y s where y: "FetchPage os pid (in_bpm inst) = (y, s)" by fastforce
  show ?thesis
  proof (cases "pid = INVALID_PAGE_ID")
    case True
    then show ?thesis using assms by (intro reaches_step [OF _ reaches_refl]) (auto simp: wsteps seq_scan_next_def)
  next
    case False
    then consider e where "y = Inl e" | "y = Inr None" using True y by (metis sum.exhaust option.exhaust)
    then show ?thesis
    proof cases
      case (1 e)
      then show ?thesis using assms False y by (intro reaches_step [OF _ reaches_refl]) (auto simp: wsteps seq_scan_next_def)
    next
      case 2
      then show ?thesis using assms False y by (intro reaches_step [OF _ reaches_refl]) (auto simp: wsteps seq_scan_next_def)
    qed
  qed
next
  case False
  then obtain f s where f: "FetchPage os pid (in_bpm inst) = (Inr (Some f), s)" and v: "pid \<noteq> INVALID_PAGE_ID" by blast
  let ?inst = "inst\<lparr>in_bpm := s\<rparr>" and ?page = "bp_pages s ! f"
  have 1: "wstep os ndebug (P_sel_next txn pid slot cnt, inst) = (P_sel_look txn pid f slot cnt, ?inst)" using f v by (simp add: wsteps)
  obtain z inst2 where z: "unpin ndebug pid False ?inst = (z, inst2)" by fastforce
  show ?thesis
  proof (cases "(ucast (GetTupleCount ?page) :: u32) \<le> slot")
    case True
    then have 2: "wstep os ndebug (P_sel_look txn pid f slot cnt, ?inst) = (P_sel_unpin txn pid False slot cnt, ?inst)" by (simp add: wsteps)
    show ?thesis using assms f v True z
      by (intro reaches_step [OF 1] reaches_step [OF 2] reaches_step [OF _ reaches_refl]) (auto simp: wsteps seq_scan_next_def Let_def split: sum.splits)
  next
    case more: False
    let ?r = "\<lparr>rid_page_id = pid, rid_slot_num = slot\<rparr>"
    have 2: "wstep os ndebug (P_sel_look txn pid f slot cnt, ?inst) = (get_next txn pid f slot cnt (G_count ?r), ?inst)" using more by (simp add: wsteps)
    have "reaches os ndebug (get_next txn pid f slot cnt (G_count ?r), ?inst)
        (get_next txn pid f slot cnt (case GetTuple ?r ?page of Inr d \<Rightarrow> G_done d | Inl e \<Rightarrow> G_dead e), ?inst)"
      using get_reaches [of os ndebug txn pid f slot cnt "G_count ?r" ?inst 4] lookup_accesses [of ?page ?r] by simp
    note go = reaches_step [OF 1 reaches_step [OF 2 this]]
    show ?thesis
    proof (cases "GetTuple ?r ?page")
      case (Inl e)
      then show ?thesis using go assms f v more by (auto simp: seq_scan_next_def Let_def)
    next
      case (Inr d)
      show ?thesis using assms f v more Inr z go
        by (intro reaches_trans [OF go] reaches_one) (auto simp: wsteps seq_scan_next_def Let_def split: sum.splits)
    qed
  qed
qed

lemma scan_reaches:
  assumes "scan_loop os ndebug txn' exec out cnt inst = Some y"
  shows "\<forall>slot. exec = SeqScanExecutor name (Some p) pid slot \<longrightarrow> reaches os ndebug (P_sel_next txn pid slot cnt, inst)
    (case fst y of Inl e \<Rightarrow> finish (Inl e) | Inr c \<Rightarrow> P_commit txn (selected_text c), snd y)"
proof (rule scan_loop.raw_induct [where P = "\<lambda>os ndebug txn' exec out cnt inst y.
    \<forall>slot. exec = SeqScanExecutor name (Some p) pid slot \<longrightarrow> reaches os ndebug (P_sel_next txn pid slot cnt, inst)
      (case fst y of Inl e \<Rightarrow> finish (Inl e) | Inr c \<Rightarrow> P_commit txn (selected_text c), snd y)", OF _ assms])
  fix F os ndebug txn' exec out cnt inst y
  assume IH: "\<And>os ndebug txn' exec out cnt inst y. F os ndebug txn' exec out cnt inst = Some y \<Longrightarrow>
      \<forall>slot. exec = SeqScanExecutor name (Some p) pid slot \<longrightarrow> reaches os ndebug (P_sel_next txn pid slot cnt, inst)
        (case fst y of Inl e \<Rightarrow> finish (Inl e) | Inr c \<Rightarrow> P_commit txn (selected_text c), snd y)"
    and eq: "(case op_Next os ndebug txn' exec out inst of
      (Inl e, inst) \<Rightarrow> Some (Inl e, inst)
    | (Inr (b, exec, out), inst) \<Rightarrow>
        if b then F os ndebug txn' exec out (cnt + 1) inst else Some (Inr cnt, inst)) = Some y"
  show "\<forall>slot. exec = SeqScanExecutor name (Some p) pid slot \<longrightarrow> reaches os ndebug (P_sel_next txn pid slot cnt, inst)
      (case fst y of Inl e \<Rightarrow> finish (Inl e) | Inr c \<Rightarrow> P_commit txn (selected_text c), snd y)"
  proof (intro impI allI)
    fix slot assume a: "exec = SeqScanExecutor name (Some p) pid slot"
    obtain r1 inst1 where n: "seq_scan_next os ndebug name (Some p) pid slot inst = (r1, inst1)" by fastforce
    note N = next_reaches [where txn = txn and cnt = cnt, OF n]
    consider e where "r1 = Inl e" | slot' where "r1 = Inr (False, slot')" | slot' where "r1 = Inr (True, slot')"
      by (metis (full_types) old.prod.exhaust sum.exhaust)
    then show "reaches os ndebug (P_sel_next txn pid slot cnt, inst)
        (case fst y of Inl e \<Rightarrow> finish (Inl e) | Inr c \<Rightarrow> P_commit txn (selected_text c), snd y)"
    proof cases
      case (3 slot')
      then have "F os ndebug txn' (SeqScanExecutor name (Some p) pid slot') out (cnt + 1) inst1 = Some y" using eq a n by simp
      then show ?thesis using IH reaches_trans [OF N] 3 by fastforce
    qed (use eq a n N in auto)
  qed
qed

lemma select_reaches:
  assumes q: "has_prefix ''SELECT'' q" "\<not> has_prefix ''CREATE TABLE'' q" "\<not> has_prefix ''INSERT'' q"
    and call: "do_select os ndebug inst = (r, inst')" "r \<noteq> Inl Nonterminating"
  shows "reaches os ndebug (P_start q, inst) (finish r, inst')"
proof -
  obtain b inst1 where b: "begin_txn inst = (b, inst1)" by fastforce
  show ?thesis
  proof (cases b)
    case (Inl e)
    then show ?thesis using b q call by (intro reaches_step [OF _ reaches_refl]) (auto simp: wsteps do_select_def)
  next
    case (Inr txn)
    then have 1: "wstep os ndebug (P_start q, inst) = (P_sel_init txn, inst1)" using b q by (simp add: wsteps)
    show ?thesis
    proof (cases "\<exists>p info. GetTable ''users'' (in_catalog inst1) = Inr (Some p) \<and> table_at p (in_catalog inst1) = Inr info")
      case False
      show ?thesis
      proof (cases "\<exists>p. GetTable ''users'' (in_catalog inst1) = Inr (Some p)")
        case True
        then obtain p e where p: "GetTable ''users'' (in_catalog inst1) = Inr (Some p)" "table_at p (in_catalog inst1) = Inl e"
          using False by (metis sum.exhaust)
        then have "wstep os ndebug (P_sel_init txn, inst1) = (P_sel_read txn p, inst1)" "wstep os ndebug (P_sel_read txn p, inst1) = (finish (Inl e), inst1)"
          by (simp_all add: wsteps)
        from reaches_step [OF 1 reaches_step [OF this(1) reaches_one [OF this(2)]]] show ?thesis
          using b Inr call p by (auto simp: do_select_def SeqScanExecutor_ctor_def)
      next
        case none: False
        then show ?thesis using b Inr call
          by (intro reaches_step [OF 1] reaches_one) (auto simp: wsteps do_select_def SeqScanExecutor_ctor_def split: sum.splits option.splits)
      qed
    next
      case True
      then obtain p info where p: "GetTable ''users'' (in_catalog inst1) = Inr (Some p)" "table_at p (in_catalog inst1) = Inr info" by blast
      then have 2: "wstep os ndebug (P_sel_init txn, inst1) = (P_sel_read txn p, inst1)"
        "wstep os ndebug (P_sel_read txn p, inst1) = (P_sel_next txn (ti_first_page_id info) 0 0, inst1)" by (simp_all add: wsteps)
      obtain y inst2 where y: "scan_loop os ndebug (Some txn) (SeqScanExecutor ''users'' (Some p) (ti_first_page_id info) 0) TupleBatch_ctor 0 inst1 = Some (y, inst2)"
        using call b Inr p by (cases "scan_loop os ndebug (Some txn) (SeqScanExecutor ''users'' (Some p) (ti_first_page_id info) 0) TupleBatch_ctor 0 inst1")
          (auto simp: do_select_def SeqScanExecutor_ctor_def)
      have go: "reaches os ndebug (P_start q, inst) (case y of Inl e \<Rightarrow> finish (Inl e) | Inr c \<Rightarrow> P_commit txn (selected_text c), inst2)"
        using reaches_step [OF 1 reaches_step [OF 2(1) reaches_step [OF 2(2)]]] scan_reaches [OF y, where txn = txn] by simp
      show ?thesis
      proof (cases y)
        case (Inl e)
        then show ?thesis using go call b \<open>b = Inr txn\<close> p y by (auto simp: do_select_def SeqScanExecutor_ctor_def)
      next
        case (Inr c)
        then show ?thesis using reaches_trans [OF go [unfolded Inr sum.case(2)] commit_reaches] call b \<open>b = Inr txn\<close> p y
          by (auto simp: do_select_def SeqScanExecutor_ctor_def split: prod.splits sum.splits)
      qed
    qed
  qed
qed

lemma dispatch_reaches:
  assumes "pool_safe (in_bpm inst)" and "dispatch os ndebug q inst = (r, inst')" and "r \<noteq> Inl Nonterminating"
  shows "reaches os ndebug (P_start q, inst) (finish r, inst')"
proof -
  consider "has_prefix ''CREATE TABLE'' q" | "\<not> has_prefix ''CREATE TABLE'' q" "has_prefix ''INSERT'' q"
    | "\<not> has_prefix ''CREATE TABLE'' q" "\<not> has_prefix ''INSERT'' q" "has_prefix ''SELECT'' q"
    | "\<not> has_prefix ''CREATE TABLE'' q" "\<not> has_prefix ''INSERT'' q" "\<not> has_prefix ''SELECT'' q"
    by blast
  then show ?thesis
  proof cases
    case 2
    then show ?thesis using assms insert_reaches by (simp add: dispatch_def)
  next
    case 3
    then show ?thesis using assms select_reaches by (simp add: dispatch_def)
  qed (use assms in \<open>auto intro!: reaches_step [OF _ reaches_refl] simp: wsteps dispatch_def split: if_splits\<close>)
qed

section \<open>Property\<close>

text \<open>(C27) The steps are the handler: on every device and every instance with a well-formed pool, a worker that is not
  interrupted ends with the answer, or the error, that the handler gives for the request, and with the same
  instance, unless the handler does not end.  (When the error is undefined behaviour, the instance means nothing.)\<close>

theorem worker_alone:
  assumes "pool_safe (in_bpm inst)" and "dispatch os ndebug q inst = (r, inst')" and "r \<noteq> Inl Nonterminating"
  shows "\<exists>n inst''. (wstep os ndebug ^^ n) (P_start q, inst) = (finish r, inst'') \<and> (r \<noteq> Inl Undefined \<longrightarrow> inst'' = inst')"
proof -
  have "r = Inl Undefined" if "finish r = P_dead Undefined"
    using that by (cases r) (auto split: option.splits)
  then show ?thesis using dispatch_reaches [OF assms] by (auto simp: reaches_def)
qed

theorem worker_alone_witness:
  "\<exists>n. (wstep sim_os False ^^ n) (P_start ''SELECT'', StingInstance_ctor (fresh_pool 1))
    = (P_done (''Error: '' @ ''Table not found: users'' @ newline), snd (dispatch sim_os False ''SELECT'' (StingInstance_ctor (fresh_pool 1))))"
proof -
  have "pool_safe (in_bpm (StingInstance_ctor (fresh_pool 1)))"
    using pool_invD(1) [OF pool_inv_ctor] by (simp add: StingInstance_ctor_def fresh_pool_def)
  moreover have "fst (dispatch sim_os False ''SELECT'' (StingInstance_ctor (fresh_pool 1))) = Inl (Runtime_error ''Table not found: users'')"
    by (auto simp: dispatch_def has_prefix_def do_select_def begin_txn_def TM_Begin_def SeqScanExecutor_ctor_def StingInstance_ctor_def
        CatalogManager_ctor_def GetTable_def TransactionManager_ctor_def Let_def split: prod.split)
  ultimately show ?thesis
    using worker_alone [where inst = "StingInstance_ctor (fresh_pool 1)" and os = sim_os and ndebug = False and q = "''SELECT''", OF _ prod.collapse [symmetric]]
    by (simp add: Let_def)
qed

end
