(* ===== verification/Insert_Race.thy ===== *)
theory Insert_Race
  imports Worker_Steps
begin

text \<open>
  What an interruption of the \<open>INSERT\<close> branch can do.  Each manager the branch calls locks its own mutex, but nothing spans the
  calls: a worker reads that the table has no page, and before it has allocated one other workers insert rows.
\<close>

section \<open>Other transactions\<close>

text \<open>A request touches only the entry of its own transaction.\<close>

lemma begin_other:
  assumes "begin_txn inst = (r, inst')" and "q \<noteq> tm_next_txn_id (in_txn_manager inst)"
  shows "tm_txn_map (in_txn_manager inst') q = tm_txn_map (in_txn_manager inst) q"
  using assms by (auto simp: begin_txn_def TM_Begin_def Let_def split: prod.splits if_splits)

lemma begin_txn_id: "begin_txn inst = (Inr txn, inst') \<Longrightarrow> txn = tm_next_txn_id (in_txn_manager inst)"
  by (auto simp: begin_txn_def TM_Begin_def Let_def split: prod.splits if_splits)

lemma commit_other:
  "commit_txn txn inst = (r, inst') \<Longrightarrow> q \<noteq> txn \<Longrightarrow> tm_txn_map (in_txn_manager inst') q = tm_txn_map (in_txn_manager inst) q"
  by (auto simp: commit_txn_def TM_Commit_def Let_def split: prod.splits option.splits if_splits)

lemma log_insert_other:
  "log_insert txn rec inst = (lsn, inst') \<Longrightarrow> q \<noteq> txn \<Longrightarrow> tm_txn_map (in_txn_manager inst') q = tm_txn_map (in_txn_manager inst) q"
  by (auto simp: log_insert_def Let_def split: prod.splits)

text \<open>The number of the transaction a worker runs in.\<close>

fun pc_txn :: "pc \<Rightarrow> u64 option" where
  "pc_txn (P_start q) = None"
| "pc_txn (P_ins_init t) = Some t"
| "pc_txn (P_ins_read t p) = Some t"
| "pc_txn (P_ins_new t p) = Some t"
| "pc_txn (P_ins_link t p pid f) = Some t"
| "pc_txn (P_ins_format t p pid f k) = Some t"
| "pc_txn (P_ins_fetch t p pid) = Some t"
| "pc_txn (P_ins_row t p pid f) = Some t"
| "pc_txn (P_ins_put t pid f row i) = Some t"
| "pc_txn (P_ins_log t pid f rid row) = Some t"
| "pc_txn (P_ins_lsn t pid f lsn) = Some t"
| "pc_txn (P_ins_unpin t pid) = Some t"
| "pc_txn (P_sel_init t) = Some t"
| "pc_txn (P_sel_read t p) = Some t"
| "pc_txn (P_sel_next t pid slot cnt) = Some t"
| "pc_txn (P_sel_look t pid f slot cnt) = Some t"
| "pc_txn (P_sel_get t pid f slot cnt g) = Some t"
| "pc_txn (P_sel_unpin t pid again slot cnt) = Some t"
| "pc_txn (P_commit t a) = Some t"
| "pc_txn (P_done a) = None"
| "pc_txn (P_dead e) = None"

lemma finish_txn [simp]: "pc_txn (finish r) = None" "finish r \<noteq> P_start q"
  by (cases r; auto split: option.split)+

declare finish.simps(2) [simp del]

text \<open>After an access to the page the worker is in the same transaction, or at its end.\<close>

lemma page_next_txn: "pc_txn (put_next t pid f row i) = None \<or> pc_txn (put_next t pid f row i) = Some t" "put_next t pid f row i \<noteq> P_start q"
  by (cases "(t, pid, f, row, i)" rule: put_next.cases; simp)+

lemma look_next_txn: "pc_txn (get_next t pid f slot cnt g) = None \<or> pc_txn (get_next t pid f slot cnt g) = Some t" "get_next t pid f slot cnt g \<noteq> P_start q"
  by (cases g; simp)+

lemma wstep_other:
  assumes "wstep os ndebug (pc, inst) = (pc', inst')" and "\<And>r. pc = P_start r \<Longrightarrow> q \<noteq> tm_next_txn_id (in_txn_manager inst)"
    and "pc_txn pc \<noteq> Some q"
  shows "tm_txn_map (in_txn_manager inst') q = tm_txn_map (in_txn_manager inst) q \<and> pc_txn pc' \<noteq> Some q \<and> (\<forall>r. pc' \<noteq> P_start r)"
proof (cases pc)
  case (P_start r)
  then have q: "q \<noteq> tm_next_txn_id (in_txn_manager inst)" using assms(2) by blast
  show ?thesis
    using assms(1) P_start begin_other [OF _ q] begin_txn_id [of inst] q
    by (auto simp: wsteps do_create_def do_begin_def split: if_splits prod.splits sum.splits option.splits)
next
  case (P_ins_log t pid f rid row)
  then show ?thesis using assms log_insert_other [of t _ inst _ inst' q] by (auto simp: wsteps split: option.splits prod.splits)
next
  case (P_ins_put t pid f row i)
  obtain j pg where s: "istep (i, bp_pages (in_bpm inst) ! f) = (j, pg)" by fastforce
  then have "pc' = put_next t pid f row j" "inst' = set_page f pg inst" using assms(1) P_ins_put by (simp_all add: wsteps)
  then show ?thesis using assms(3) P_ins_put page_next_txn [of t pid f row j] by (auto simp: set_page_def)
next
  case (P_sel_get t pid f slot cnt g)
  then have "pc' = get_next t pid f slot cnt (gstep (bp_pages (in_bpm inst) ! f) g)" "inst' = inst" using assms(1) by (auto simp: wsteps)
  then show ?thesis using assms(3) P_sel_get look_next_txn [of t pid f slot cnt "gstep (bp_pages (in_bpm inst) ! f) g"] by auto
next
  case (P_commit t a)
  then show ?thesis using assms commit_other [of t inst _ inst' q] by (auto simp: wsteps split: prod.splits sum.splits)
qed (use assms in \<open>auto simp: wsteps set_page_def unpin_def Let_def split: sum.splits option.splits prod.splits if_splits\<close>)

lemma wsteps_other:
  assumes "(wstep os ndebug ^^ n) (pc, inst) = (pc', inst')" and "\<And>r. pc = P_start r \<Longrightarrow> q \<noteq> tm_next_txn_id (in_txn_manager inst)"
    and "pc_txn pc \<noteq> Some q"
  shows "tm_txn_map (in_txn_manager inst') q = tm_txn_map (in_txn_manager inst) q"
  using assms
proof (induction n arbitrary: pc inst)
  case (Suc n)
  obtain pc1 inst1 where s: "wstep os ndebug (pc, inst) = (pc1, inst1)" by fastforce
  have "(wstep os ndebug ^^ n) (pc1, inst1) = (pc', inst')" using Suc.prems(1) s by (simp add: funpow_swap1)
  then show ?case using Suc.IH [of pc1 inst1] wstep_other [OF s Suc.prems(2,3)] by simp
qed simp

lemma do_insert_other:
  assumes "do_insert os ndebug inst = (r, inst')" and "pool_safe (in_bpm inst)" and "q \<noteq> tm_next_txn_id (in_txn_manager inst)"
    and "r = Inr a"
  shows "tm_txn_map (in_txn_manager inst') q = tm_txn_map (in_txn_manager inst) q"
proof -
  have "reaches os ndebug (P_start ''INSERT'', inst) (finish r, inst')"
    by (rule insert_reaches [OF assms(2) _ _ assms(1)]) (simp_all add: has_prefix_def)
  then obtain n where "(wstep os ndebug ^^ n) (P_start ''INSERT'', inst) = (finish r, inst')" using reaches_end assms(4) by fastforce
  then show ?thesis using wsteps_other [of n os ndebug "P_start ''INSERT''" inst "finish r" inst' q] assms(3) by simp
qed

section \<open>Inserts of other workers\<close>

context reliable_device
begin

text \<open>\<open>INSERT\<close> requests that other workers serve from start to end leave a transaction that is open alone.\<close>

lemma insert_other_ok:
  assumes db: "users_db fd blocks phase j n inst" and n: "n + 1 < 2 ^ 64" and t: "tm_txn_map (in_txn_manager inst) q = Some t"
  shows "\<exists>inst'. serve os ndebug ''INSERT'' inst = (Inr (''Success: 1 row inserted into '' @ users_quoted @ ''.'' @ newline), inst')
    \<and> users_db fd blocks phase (min 31 (Suc j)) (Suc n) inst' \<and> tm_txn_map (in_txn_manager inst') q = Some t"
proof -
  obtain inst' where i: "do_insert os ndebug inst = (Inr (''Success: 1 row inserted into '' @ users_quoted @ ''.'' @ newline), inst')"
      "users_db fd blocks phase (min 31 (Suc j)) (Suc n) inst'"
    using do_insert_ok [OF db n] by blast
  have "q \<noteq> tm_next_txn_id (in_txn_manager inst)" using db t tm_inv_fresh by (fastforce simp: users_db_def)
  then have "tm_txn_map (in_txn_manager inst') q = Some t"
    using do_insert_other [OF i(1)] t db by (auto simp: users_db_def quiet_def dest: pool_invD(1))
  then show ?thesis
    using i by (simp add: serve_def handle_query_def dispatch_def has_prefix_def DoWriteAnswer_def MAX_LENGTH_def users_quoted_def)
qed

lemma inserts_other_ok:
  assumes "users_db fd blocks phase j n inst" and "n + k < 2 ^ 64" and "tm_txn_map (in_txn_manager inst) q = Some t" and "j \<le> 31"
  shows "\<exists>inst'. session os ndebug (replicate k ''INSERT'') inst
      = (replicate k (Inr (''Success: 1 row inserted into '' @ users_quoted @ ''.'' @ newline)), inst')
    \<and> users_db fd blocks phase (min 31 (j + k)) (n + k) inst' \<and> tm_txn_map (in_txn_manager inst') q = Some t"
  using assms
proof (induction k arbitrary: j n inst)
  case 0
  then show ?case by simp
next
  case (Suc k)
  obtain inst1 where 1: "serve os ndebug ''INSERT'' inst = (Inr (''Success: 1 row inserted into '' @ users_quoted @ ''.'' @ newline), inst1)"
      "users_db fd blocks phase (min 31 (Suc j)) (Suc n) inst1" "tm_txn_map (in_txn_manager inst1) q = Some t"
    using insert_other_ok [OF Suc.prems(1) _ Suc.prems(3), of ndebug] Suc.prems(2) by auto
  obtain inst2 where 2: "session os ndebug (replicate k ''INSERT'') inst1
      = (replicate k (Inr (''Success: 1 row inserted into '' @ users_quoted @ ''.'' @ newline)), inst2)"
      "users_db fd blocks phase (min 31 (min 31 (Suc j) + k)) (Suc n + k) inst2" "tm_txn_map (in_txn_manager inst2) q = Some t"
    using Suc.IH [OF 1(2) _ 1(3)] Suc.prems(2) by auto
  have "min 31 (min 31 (Suc j) + k) = min 31 (j + Suc k)" by simp
  then show ?case using 1 2 by simp
qed

end

section \<open>The interrupted worker\<close>

text \<open>The server right after the table was created, and a worker that has looked at its description.\<close>

lemma created_ok:
  assumes "phase (dm_ring dm) = Idle" and "dm_fd dm = fd" and "0 < m" and "dm_next_page_id dm = 0"
    and c: "do_create (StingInstance_ctor (BufferPoolManager_ctor m dm)) = (a, inst)"
  shows "users_db fd blocks phase 0 1 inst" "one_page m inst"
    "\<exists>ti. cat_dir (in_catalog inst) ''users'' = Some ti \<and> ti_first_page_id ti = INVALID_PAGE_ID"
proof -
  have "dm_next_page_id dm \<noteq> INVALID_PAGE_ID" using assms(4) by (simp add: INVALID_PAGE_ID_def)
  then have e: "empty_db fd blocks phase 1 (StingInstance_ctor (BufferPoolManager_ctor m dm))"
    using fresh_server_state [of phase, OF assms(1-3)] by simp
  show db: "users_db fd blocks phase 0 1 inst" using do_create_ok [OF e] c by auto
  show o: "one_page m inst" by (rule zero.do_create_keeps [OF one_page_ctor [OF assms(4)] c])
  have "next_id (in_bpm inst) = 0"
    using c assms(4) by (auto simp: do_create_def StingInstance_ctor_def BufferPoolManager_ctor_def split: sum.splits prod.splits)
  then show "\<exists>ti. cat_dir (in_catalog inst) ''users'' = Some ti \<and> ti_first_page_id ti = INVALID_PAGE_ID"
    using db o by (auto simp: users_db_def one_page_def page_zero_def cat_dir_def only_users_def bind_eq_Some_conv)
qed

lemma looked_ok:
  assumes db: "users_db fd blocks phase k n inst" and n: "n + 1 < 2 ^ 64" and o: "one_page m inst"
    and ti: "cat_dir (in_catalog inst) ''users'' = Some ti" "ti_first_page_id ti = INVALID_PAGE_ID"
  shows "\<exists>inst1 t. (wstep os ndebug ^^ 3) (P_start ''INSERT'', inst) = (P_ins_new (of_nat n) (ti_id ti), inst1)
    \<and> users_db fd blocks phase k (Suc n) inst1 \<and> one_page m inst1 \<and> tm_txn_map (in_txn_manager inst1) (of_nat n) = Some t \<and> tx_state t = ACTIVE"
proof -
  have tm: "tm_inv (in_txn_manager inst)" "unat (tm_next_txn_id (in_txn_manager inst)) = n" "cat_inv (in_catalog inst)"
    using db by (simp_all add: users_db_def)
  obtain t inst1 where B: "begin_txn inst = (Inr (of_nat n), inst1)" "in_bpm inst1 = in_bpm inst"
      "in_catalog inst1 = in_catalog inst" "tm_inv (in_txn_manager inst1)"
      "unat (tm_next_txn_id (in_txn_manager inst1)) = Suc n"
      "tm_txn_map (in_txn_manager inst1) (of_nat n) = Some t" "tx_state t = ACTIVE"
    using begin_txn_ok [OF tm(1,2) n] by blast
  have "users_db fd blocks phase k (Suc n) inst1" using users_db_cong [OF db B(2,3,4)] B(5) by simp
  moreover have "one_page m inst1" using zero.begin_keeps [OF o B(1)] by simp
  ultimately show ?thesis
    using B tables.get_at [OF tm(3) ti(1)] ti by (simp add: numeral_3_eq_3 wsteps has_prefix_def)
qed

lemma one_page_fresh:
  "one_page m inst \<Longrightarrow> bp_page_table (in_bpm inst) (next_id (in_bpm inst)) = None \<and> next_id (in_bpm inst) \<noteq> INVALID_PAGE_ID"
  by (auto simp: one_page_def page_zero_def INVALID_PAGE_ID_def)

lemma one_page_users: "one_page m inst \<Longrightarrow> cat_inv (in_catalog inst) \<Longrightarrow> cat_dir (in_catalog inst) name = Some ti \<Longrightarrow> ti_id ti = 0"
  by (auto simp: one_page_def only_users_def cat_inv_def cat_dir_def bind_eq_Some_conv)

lemma target_page_id:
  assumes "target_page os p info inst = (r, inst')" and "cat_inv (in_catalog inst)" and "cat_dir (in_catalog inst) name = Some ti" and "ti_id ti = i"
    and "cat_inv (in_catalog inst')" and "cat_dir (in_catalog inst') name = Some ti'"
  shows "ti_id ti' = i"
proof -
  have "cat_table_names (in_catalog inst') = cat_table_names (in_catalog inst)"
    using assms(1) by (auto simp: target_page_def set_page_def update_first_page_def Let_def split: if_splits prod.splits sum.splits option.splits)
  then show ?thesis using assms(2-) by (auto simp: cat_dir_def cat_inv_def bind_eq_Some_conv)
qed

text \<open>A worker that read the description before the table had a page gives the table a new page, whatever the others did.\<close>

context reliable_device
begin

lemma stale_worker_ok:
  assumes db: "users_db fd blocks phase k n inst" and o: "one_page m inst"
    and t: "tm_txn_map (in_txn_manager inst) txn = Some t" "tx_state t = ACTIVE"
  shows "\<exists>inst'. reaches os ndebug (P_ins_new txn 0, inst) (P_done inserted_text, inst') \<and> users_db fd blocks phase 1 n inst'"
proof -
  have q: "quiet fd blocks phase (in_bpm inst)" and cat: "cat_inv (in_catalog inst)"
    and tm: "tm_inv (in_txn_manager inst)" "unat (tm_next_txn_id (in_txn_manager inst)) = n"
    using db by (simp_all add: users_db_def)
  obtain ti where ti: "cat_dir (in_catalog inst) ''users'' = Some ti" "ti_schema ti = Schema_ctor users_columns"
    using db by (auto simp: users_db_def)
  have id: "ti_id ti = 0" using one_page_users [OF o cat ti(1)] .
  define info where "info = ti\<lparr>ti_first_page_id := INVALID_PAGE_ID\<rparr>"
  have info: "ti_first_page_id info = INVALID_PAGE_ID" by (simp add: info_def)
  have fresh: "bp_page_table (in_bpm inst) (next_id (in_bpm inst)) = None" "next_id (in_bpm inst) \<noteq> INVALID_PAGE_ID"
    using one_page_fresh [OF o] by simp_all
  obtain pid f W inst1 ti' where T: "target_page os 0 info inst = (Inr (pid, Some f), inst1)"
      "held fd blocks phase W pid f (in_bpm inst1)" "rows_page 0 (p_data (bp_pages (in_bpm inst1) ! f))"
      "in_txn_manager inst1 = in_txn_manager inst" "cat_inv (in_catalog inst1)"
      "cat_dir (in_catalog inst1) ''users'' = Some ti'" "ti_schema ti' = ti_schema ti"
      "ti_first_page_id ti' = pid" "pid \<noteq> INVALID_PAGE_ID"
    using fresh_page_ok [OF q cat ti(1) info fresh] unfolding id by blast
  obtain inst2 inst3 t' where R: "insert_rows (Some txn) user_row (Some f) 1 inst1 = (Inr (), inst2)"
      "unpin ndebug pid True inst2 = (Inr True, inst3)" "users_db fd blocks phase 1 n inst3"
      "tm_txn_map (in_txn_manager inst3) txn = Some t'" "tx_state t' = ACTIVE"
    using insert_held_ok [of inst1 n txn t W pid f 0 ti' ndebug] tm t T ti(2) by auto
  have "tm_inv (in_txn_manager inst3)" using R(3) by (simp add: users_db_def)
  from commit_txn_ok [OF this R(4,5)] obtain inst4 where C: "commit_txn txn inst3 = (Inr (), inst4)"
      "in_bpm inst4 = in_bpm inst3" "in_catalog inst4 = in_catalog inst3" "tm_inv (in_txn_manager inst4)"
      "tm_next_txn_id (in_txn_manager inst4) = tm_next_txn_id (in_txn_manager inst3)"
    by blast
  have db4: "users_db fd blocks phase 1 n inst4" using users_db_cong [OF R(3) C(2,3,4)] C(5) R(3) by (simp add: users_db_def)
  have f: "f < length (bp_pages (in_bpm inst1))" using T(2) by (simp add: held_def)
  have "ti_id ti' = 0" using target_page_id [OF T(1) cat ti(1) id T(5,6)] .
  then have at: "table_at 0 (in_catalog inst1) = Inr ti'" using tables.get_at [OF T(5,6)] by simp
  have "reaches os ndebug (P_ins_new txn 0, inst) (P_ins_row txn 0 pid f, inst1)" using new_reaches [OF info T(1)] by simp
  moreover have "reaches os ndebug (P_ins_row txn 0 pid f, inst1) (P_ins_unpin txn pid, inst2)"
    using row_reaches [where os = os and ndebug = ndebug and pid = pid, OF f at, of txn "Inr ()" inst2] R(1) T(7) ti(2)
    by (simp add: users_schema_size flip: user_row_def)
  moreover have "reaches os ndebug (P_ins_unpin txn pid, inst2) (P_done inserted_text, inst4)"
    using tail_reaches [of os ndebug txn pid inst2] R(2) C(1) by simp
  ultimately show ?thesis using db4 reaches_trans by blast
qed

end

section \<open>Property\<close>

text \<open>(C18) Nothing spans the calls of an \<open>INSERT\<close>, so a worker can act on a description that is out of date.  Worker A looks at the
  new, still empty table and is interrupted; \<open>k\<close> other \<open>INSERT\<close> requests are served, each answered with success; worker A goes
  on, gives the table another first page and answers with success too.  The table now shows one row: the \<open>k\<close> rows
  stored before are lost, although their transactions committed.\<close>

theorem stale_insert_discards_rows:
  assumes "reliable_device os fd blocks phase wait" and "phase (dm_ring dm) = Idle" and "dm_fd dm = fd"
    and "0 < m" and "dm_next_page_id dm = 0" and k: "k < 2 ^ 64 - 4"
    and create: "do_create (StingInstance_ctor (BufferPoolManager_ctor m dm)) = (a, inst0)"
    and A_first: "(wstep os ndebug ^^ 3) (P_start ''INSERT'', inst0) = (pc, inst1)"
    and others: "session os ndebug (replicate k ''INSERT'') inst1 = (as, inst2)"
  shows "as = replicate k (Inr inserted_text)
    \<and> (\<exists>n inst3. (wstep os ndebug ^^ n) (pc, inst2) = (P_done inserted_text, inst3)
         \<and> fst (do_select os ndebug inst3) = Inr (''Success: 1 rows selected from '' @ users_quoted @ ''.'' @ newline))"
proof -
  note C = created_ok [where phase = phase, OF assms(2-5) create]
  obtain ti where ti: "cat_dir (in_catalog inst0) ''users'' = Some ti" "ti_first_page_id ti = INVALID_PAGE_ID" using C(3) by blast
  have "ti_id ti = 0" using one_page_users [OF C(2) _ ti(1)] C(1) by (auto simp: users_db_def)
  then obtain t where L: "pc = P_ins_new 1 0" "users_db fd blocks phase 0 (Suc 1) inst1" "one_page m inst1"
      "tm_txn_map (in_txn_manager inst1) 1 = Some t" "tx_state t = ACTIVE"
    using looked_ok [OF C(1) [where blocks = blocks] _ C(2) ti, of os ndebug] A_first by auto
  have S: "as = replicate k (Inr inserted_text)" "users_db fd blocks phase (min 31 k) (Suc 1 + k) inst2" "tm_txn_map (in_txn_manager inst2) 1 = Some t"
    using reliable_device.inserts_other_ok [OF assms(1) L(2) _ L(4), of k ndebug] k others by auto
  have o: "one_page m inst2" by (rule zero.session_keeps [OF L(3) others])
  obtain n inst3 where R: "(wstep os ndebug ^^ n) (pc, inst2) = (P_done inserted_text, inst3)" "users_db fd blocks phase 1 (Suc 1 + k) inst3"
    using reliable_device.stale_worker_ok [OF assms(1) S(2) o S(3) L(5), of ndebug] L(1) by (auto simp: reaches_def)
  have "decimal 1 = ''1''" by (simp add: decimal.simps char_of_def bit_0)
  then have "fst (do_select os ndebug inst3) = Inr (''Success: 1 rows selected from '' @ users_quoted @ ''.'' @ newline)"
    using reliable_device.do_select_ok [OF assms(1) R(2), of ndebug] k by auto
  then show ?thesis using S(1) R(1) by blast
qed

text \<open>Three inserts between the steps of worker A, on the simulated device.\<close>

theorem stale_insert_discards_rows_witness:
  "\<exists>a inst0 pc inst1 as inst2 n inst3. do_create (StingInstance_ctor (fresh_pool 1)) = (a, inst0)
    \<and> (wstep sim_os False ^^ 3) (P_start ''INSERT'', inst0) = (pc, inst1)
    \<and> session sim_os False (replicate 3 ''INSERT'') inst1 = (as, inst2) \<and> length as = 3
    \<and> (wstep sim_os False ^^ n) (pc, inst2) = (P_done inserted_text, inst3)
    \<and> fst (do_select sim_os False inst3) = Inr (''Success: 1 rows selected from '' @ users_quoted @ ''.'' @ newline)"
proof -
  obtain a inst0 where c: "do_create (StingInstance_ctor (fresh_pool 1)) = (a, inst0)" by fastforce
  obtain pc inst1 where f: "(wstep sim_os False ^^ 3) (P_start ''INSERT'', inst0) = (pc, inst1)" by fastforce
  obtain as inst2 where s: "session sim_os False (replicate 3 ''INSERT'') inst1 = (as, inst2)" by fastforce
  have "as = replicate 3 (Inr inserted_text)
    \<and> (\<exists>n inst3. (wstep sim_os False ^^ n) (pc, inst2) = (P_done inserted_text, inst3)
         \<and> fst (do_select sim_os False inst3) = Inr (''Success: 1 rows selected from '' @ users_quoted @ ''.'' @ newline))"
    by (rule stale_insert_discards_rows [OF reliable_sim.reliable_device_axioms _ _ _ _ _ c [unfolded fresh_pool_def] f s])
      (simp_all add: fresh_device_def)
  then show ?thesis using c f s by (metis length_replicate)
qed

end
