(* ===== verification/Shared_Pool.thy ===== *)
theory Shared_Pool
  imports Pool_Clients Server_Invariants
begin

text \<open>
  The pool as several workers use it at the same time.  \<open>shared\<close> says how many pins each page has (\<open>H\<close>) and which pages may have been
  changed by a worker that has not given them back yet (\<open>W\<close>).  Each lemma is about one call; the pool's mutex makes the calls atomic.
\<close>

section \<open>Pins\<close>

definition pins :: "'d bpm \<Rightarrow> pageid \<Rightarrow> nat" where
  "pins s pid = (case bp_page_table s pid of None \<Rightarrow> 0 | Some f \<Rightarrow> unat (p_pin_count (bp_pages s ! f)))"

definition shared :: "int \<Rightarrow> ('d \<Rightarrow> pageid \<Rightarrow> bytes) \<Rightarrow> ('d \<Rightarrow> io_phase) \<Rightarrow> (pageid \<Rightarrow> nat) \<Rightarrow> pageid set \<Rightarrow> 'd bpm \<Rightarrow> bool" where
  "shared fd blocks phase H W s \<longleftrightarrow> pool_inv s \<and> coherent fd blocks phase W s \<and> pins s = H"

lemma pinned_pins: "pinned s pid \<longleftrightarrow> 0 < pins s pid"
  by (auto simp: pinned_def pins_def unat_gt_0 split: option.splits)

lemma shared_ctor:
  assumes "phase (dm_ring dm) = Idle" and "dm_fd dm = fd"
  shows "shared fd blocks phase (\<lambda>_. 0) {} (BufferPoolManager_ctor n dm)"
  using coherent_ctor [of phase dm fd blocks n, OF assms] pool_inv_ctor [of n dm]
  by (simp add: shared_def pins_def fun_eq_iff BufferPoolManager_ctor_def)

lemma shared_widen:
  assumes "shared fd blocks phase H W s" and "W \<subseteq> W'" and "\<And>pid. pid \<in> W' \<Longrightarrow> 0 < H pid"
  shows "shared fd blocks phase H W' s"
  using assms unfolding shared_def coherent_def pinned_pins by blast

lemma shared_pinned: "shared fd blocks phase H W s \<Longrightarrow> 0 < H pid \<Longrightarrow> \<exists>f. bp_page_table s pid = Some f \<and> f < length (bp_pages s)"
  using pool_safeD(1,8) [OF pool_invD(1)] by (fastforce simp: shared_def pins_def split: option.splits)

text \<open>With fewer pinned pages than frames there is a frame to use.\<close>

lemma shared_room:
  assumes sh: "shared fd blocks phase H W s" and fin: "finite P" "{pid. 0 < H pid} \<subseteq> P" "card P < bp_pool_size s"
  shows "\<not> (bp_free s = [] \<and> bp_lru s = [])"
proof
  assume full: "bp_free s = [] \<and> bp_lru s = []"
  have inv: "pool_inv s" and H: "pins s = H" using sh by (simp_all add: shared_def)
  have p: "pinned s (p_page_id (bp_pages s ! f))" "f \<notin> set (bp_free s)" if "f < bp_pool_size s" for f
    using no_frame_iff [OF inv] full that by auto
  have "bp_page_table s (p_page_id (bp_pages s ! f)) = Some f" if "f < bp_pool_size s" for f
    using p [OF that] inv that by (auto simp: pool_inv_def frame_kept_def)
  then have "inj_on (\<lambda>f. p_page_id (bp_pages s ! f)) {..<bp_pool_size s}"
    by (metis (mono_tags, lifting) inj_onI lessThan_iff option.inject)
  moreover have "(\<lambda>f. p_page_id (bp_pages s ! f)) ` {..<bp_pool_size s} \<subseteq> P"
    using p(1) fin(2) by (auto simp: pinned_pins H)
  ultimately show False using card_inj_on_le [OF _ _ fin(1)] fin(3) by fastforce
qed

section \<open>One call\<close>

text \<open>What fetching or allocating a page leaves of the other pages.\<close>

definition others_kept :: "pageid \<Rightarrow> 'd bpm \<Rightarrow> 'd bpm \<Rightarrow> bool" where
  "others_kept pid s s' \<longleftrightarrow> bp_pool_size s' = bp_pool_size s \<and> dom (bp_page_table s') \<subseteq> insert pid (dom (bp_page_table s))
     \<and> (\<forall>q g. bp_page_table s q = Some g \<longrightarrow> 0 < pins s q \<or> q = pid \<longrightarrow> bp_page_table s' q = Some g)"

lemma taken_pins:
  assumes safe: "pool_safe s" and t: "taken s f s1"
  shows "pins s1 = pins s" "bp_page_table s q = Some g \<Longrightarrow> 0 < pins s q \<Longrightarrow> bp_page_table s1 q = Some g"
proof -
  have z: "p_pin_count (bp_pages s ! f) = 0" if "bp_page_table s q = Some f" for q
    using t that pool_safeD(10,11) [OF safe] by (auto simp: taken_def)
  have iff: "bp_page_table s1 q = Some g \<longleftrightarrow> bp_page_table s q = Some g \<and> g \<noteq> f" for q g using t by (simp add: taken_def)
  have tab: "bp_page_table s1 q = (if bp_page_table s q = Some f then None else bp_page_table s q)" for q
  proof (cases "bp_page_table s q")
    case None
    then have "bp_page_table s1 q \<noteq> Some g" for g using iff [of q g] by simp
    then have "bp_page_table s1 q = None" by auto
    then show ?thesis using None by simp
  next
    case (Some h)
    have "bp_page_table s1 q \<noteq> Some g" if "h = f" for g using iff [of q g] Some that by simp
    then have "bp_page_table s1 q = None" if "h = f" using that by auto
    then show ?thesis using iff [of q h] Some by (cases "h = f") simp_all
  qed
  have same: "bp_pages s1 = bp_pages s" using t by (simp add: taken_def)
  show "pins s1 = pins s"
    using z by (auto simp: pins_def fun_eq_iff tab same split: option.splits)
  show "bp_page_table s1 q = Some g" if "bp_page_table s q = Some g" "0 < pins s q"
    using that z by (auto simp: tab pins_def)
qed

lemma placed_pins:
  assumes safe: "pool_safe s" and t: "taken s f s1" and new: "bp_page_table s pid = None"
    and p: "p_pin_count p = 1" "p_page_id p = pid" and s': "s' = placed f p dm s1"
  shows "pins s' = (pins s)(pid := 1)" "others_kept pid s s'" "bp_page_table s' pid = Some f"
proof -
  have f: "f < length (bp_pages s1)" using t by (auto simp: taken_def dest: pool_safeD(1))
  have none: "bp_page_table s1 pid = None" using t new by (cases "bp_page_table s1 pid") (auto simp: taken_def)
  have tab: "bp_page_table s' = (bp_page_table s1)(pid \<mapsto> f)" and size: "bp_pool_size s' = bp_pool_size s"
    and pages: "bp_pages s' = (bp_pages s1)[f := p]"
    using t p(2) by (simp_all add: s' placed_def taken_def)
  have nf: "g \<noteq> f" if "bp_page_table s1 q = Some g" for q g using that t by (auto simp: taken_def)
  have "pins s' q = (if q = pid then 1 else pins s1 q)" for q
    using f p(1) by (auto simp: pins_def tab pages nth_list_update dest: nf split: option.splits)
  then show "pins s' = (pins s)(pid := 1)" using taken_pins(1) [OF safe t] by auto
  have "dom (bp_page_table s1) \<subseteq> dom (bp_page_table s)" using t by (auto simp: taken_def)
  moreover have "pid \<notin> dom (bp_page_table s)" using new by auto
  ultimately show "others_kept pid s s'"
    using taken_pins(2) [OF safe t] size by (auto simp: others_kept_def tab)
  show "bp_page_table s' pid = Some f" by (simp add: tab)
qed

context reliable_device
begin

lemma fetch_got:
  assumes c: "coherent fd blocks phase W s" and room: "\<not> (bp_free s = [] \<and> bp_lru s = []) \<or> bp_page_table s pid \<noteq> None"
  shows "\<exists>f s'. FetchPage os pid s = (Inr (Some f), s')"
proof -
  obtain r s' where call: "FetchPage os pid s = (r, s')" by fastforce
  have "\<exists>f. r = Inr (Some f)"
    using call
  proof (cases rule: FetchPage_cases)
    case (evict_error e)
    then show ?thesis using acquire_coherent [OF c] by auto
  next
    case full
    then show ?thesis using room by simp
  next
    case (read_error e f s2 dm)
    have "coherent fd blocks phase W s2" using acquire_coherent [OF c] read_error(2) by auto
    then show ?thesis
      using reads_ok [of "dm_ring (bp_disk s2)" "frame_buffers (upd_page f ResetMemory s2)" pid] read_error(3)
      by (auto simp: coherent_def ReadPage_def Let_def split: prod.splits option.splits)
  qed auto
  then show ?thesis using call by blast
qed

lemma shared_fetch:
  assumes sh: "shared fd blocks phase H W s" and fin: "finite P" "{q. 0 < H q} \<subseteq> P" "card P < bp_pool_size s"
    and bound: "H pid + 1 < 2 ^ 32"
  shows "\<exists>f s'. FetchPage os pid s = (Inr (Some f), s') \<and> shared fd blocks phase (H(pid := H pid + 1)) W s'
    \<and> bp_page_table s' pid = Some f \<and> contents blocks s' = contents blocks s \<and> others_kept pid s s' \<and> next_id s' = next_id s"
proof -
  have inv: "pool_inv s" and c: "coherent fd blocks phase W s" and H: "pins s = H" using sh by (simp_all add: shared_def)
  note safe = pool_invD(1) [OF inv]
  obtain f s' where call: "FetchPage os pid s = (Inr (Some f), s')" using fetch_got [OF c] shared_room [OF sh fin] by blast
  have nowrap: "p_pin_count (bp_pages s ! g) + 1 \<noteq> 0" if "bp_page_table s pid = Some g" for g
  proof -
    have "unat (p_pin_count (bp_pages s ! g)) = H pid" using that H by (auto simp: pins_def)
    then have "unat (p_pin_count (bp_pages s ! g) + 1) = H pid + 1" using bound by (simp add: unat_word_ariths)
    then show ?thesis by (metis add_eq_0_iff_both_eq_0 unsigned_0 zero_neq_one)
  qed
  have "pins s' = H(pid := H pid + 1) \<and> others_kept pid s s'"
    using call
  proof (cases rule: FetchPage_cases)
    case (hit g)
    have g: "g < length (bp_pages s)" using pool_safeD(1,8) [OF safe] hit(1) by auto
    have tab: "bp_page_table s' = bp_page_table s" by (simp add: hit(3))
    have other: "h = g \<longleftrightarrow> q = pid" if "bp_page_table s q = Some h" for q h
      using pool_safeD(9) [OF safe that] pool_safeD(9) [OF safe hit(1)] that hit(1) by (metis option.inject)
    have "unat (p_pin_count (bp_pages s ! g) + 1) = H pid + 1"
      using bound hit(1) H by (auto simp: pins_def unat_word_ariths)
    then have "pins s' q = (if q = pid then H pid + 1 else H q)" for q
      using other g hit(1) H by (auto simp: pins_def tab hit(3) nth_upd_page split: option.splits)
    then show ?thesis using tab by (auto simp: others_kept_def hit(3) fun_eq_iff)
  next
    case (miss g s1 d dm)
    note P = placed_pins [OF safe acquire_frame_Some [OF safe miss(2)] miss(1) _ _ miss(5)]
    have "H pid = 0" using miss(1) H by (auto simp: pins_def)
    then show ?thesis using P(1,2) H by simp
  qed auto
  then show ?thesis
    using call fetch_coherent [OF c call nowrap] FetchPage_inv [OF inv call nowrap] FetchPage_numbers [OF call]
    by (auto simp: shared_def)
qed

lemma shared_new:
  assumes sh: "shared fd blocks phase H W s" and fin: "finite P" "{q. 0 < H q} \<subseteq> P" "card P < bp_pool_size s"
    and new: "bp_page_table s (next_id s) = None" and pid: "pid = next_id s"
  shows "\<exists>f s'. NewPage os s = (Inr (Some (pid, f)), s') \<and> shared fd blocks phase (H(pid := 1)) (insert pid W) s'
    \<and> bp_page_table s' pid = Some f \<and> contents blocks s' = (contents blocks s)(pid := replicate PAGE_SIZE 0)
    \<and> others_kept pid s s' \<and> next_id s' = next_id s + 1"
proof -
  have inv: "pool_inv s" and c: "coherent fd blocks phase W s" and H: "pins s = H" using sh by (simp_all add: shared_def)
  note safe = pool_invD(1) [OF inv]
  obtain r s' where call: "NewPage os s = (r, s')" by fastforce
  have "r \<noteq> Inr None" using call NewPage_None [of os s s'] shared_room [OF sh fin] by auto
  then obtain f where r: "NewPage os s = (Inr (Some (pid, f)), s')" "coherent fd blocks phase (insert pid W) s'"
      "contents blocks s' = (contents blocks s)(pid := replicate PAGE_SIZE 0)"
    using new_coherent [OF c call new] call pid by auto
  have "pins s' = H(pid := 1) \<and> others_kept pid s s' \<and> bp_page_table s' pid = Some f"
    using r(1)
  proof (cases rule: NewPage_cases)
    case (fresh g s1)
    note T = acquire_frame_Some [OF safe fresh(1)]
    have "next_id s1 = pid" using T pid by (simp add: taken_def)
    then show ?thesis using placed_pins [OF safe T new [folded pid] _ _ fresh(3)] fresh(2) H by simp
  qed auto
  moreover have "next_id s' = next_id s + 1" using NewPage_numbers [OF r(1)] by auto
  ultimately show ?thesis using r NewPage_inv [OF inv r(1) new] by (auto simp: shared_def)
qed

lemma shared_write:
  assumes sh: "shared fd blocks phase H W s" and held: "0 < H pid" "bp_page_table s pid = Some f" and wf: "page_wf p'"
    and meta: "p_page_id p' = p_page_id (bp_pages s ! f)" "p_pin_count p' = p_pin_count (bp_pages s ! f)"
  shows "shared fd blocks phase H (insert pid W) (upd_page f (\<lambda>_. p') s)"
    "contents blocks (upd_page f (\<lambda>_. p') s) = (contents blocks s)(pid := p_data p')"
proof -
  have inv: "pool_inv s" and c: "coherent fd blocks phase W s" and H: "pins s = H" using sh by (simp_all add: shared_def)
  note safe = pool_invD(1) [OF inv]
  have f: "f < bp_pool_size s" "f < length (bp_pages s)" using pool_safeD(1,8) [OF safe] held(2) by auto
  note K = upd_page_keeps [OF safe f(1), of "\<lambda>_. p'", OF wf meta]
  have pages: "bp_pages (upd_page f (\<lambda>_. p') s) ! g = (if g = f then p' else bp_pages s ! g)" for g
    by (simp add: nth_upd_page f)
  note R = replace_coherent [OF c held(2) K(1) _ _ pages, of "insert pid W"]
  have "p_pin_count p' \<noteq> 0" using held H meta(2) by (auto simp: pins_def)
  then have "coherent fd blocks phase (insert pid W) (upd_page f (\<lambda>_. p') s)"
      "contents blocks (upd_page f (\<lambda>_. p') s) = (contents blocks s)(pid := p_data p')"
    using R by auto
  moreover have "pins (upd_page f (\<lambda>_. p') s) = H"
    using pages meta(2) by (auto simp: pins_def H [symmetric] fun_eq_iff split: option.splits)
  moreover have "pool_inv (upd_page f (\<lambda>_. p') s)" using K inv by (simp add: pool_inv_def)
  ultimately show "shared fd blocks phase H (insert pid W) (upd_page f (\<lambda>_. p') s)"
    "contents blocks (upd_page f (\<lambda>_. p') s) = (contents blocks s)(pid := p_data p')"
    by (simp_all add: shared_def)
qed

lemma shared_unpin:
  assumes sh: "shared fd blocks phase H W s" and held: "0 < H pid" "H pid < 2 ^ 31" and owed: "b \<or> pid \<notin> W \<or> H pid \<noteq> 1"
  shows "\<exists>s'. UnpinPage ndebug pid b s = (Inr True, s') \<and> shared fd blocks phase (H(pid := H pid - 1)) (if b then W - {pid} else W) s'
    \<and> contents blocks s' = contents blocks s \<and> bp_page_table s' = bp_page_table s \<and> bp_pool_size s' = bp_pool_size s \<and> next_id s' = next_id s"
proof -
  have inv: "pool_inv s" and c: "coherent fd blocks phase W s" and H: "pins s = H" using sh by (simp_all add: shared_def)
  note safe = pool_invD(1) [OF inv]
  obtain f where f: "bp_page_table s pid = Some f" "f < length (bp_pages s)" using shared_pinned [OF sh held(1)] by blast
  have u: "unat (p_pin_count (bp_pages s ! f)) = H pid" using f(1) H by (auto simp: pins_def)
  then have nz: "p_pin_count (bp_pages s ! f) \<noteq> 0" using held(1) by auto
  have pos: "0 < sint (p_pin_count (bp_pages s ! f))"
  proof -
    have "p_pin_count (bp_pages s ! f) = of_nat (H pid)" using u by (metis of_nat_unat ucast_id)
    then show ?thesis using held by (simp add: signed_of_nat signed_take_bit_int_eq_self)
  qed
  obtain r s' where call: "UnpinPage ndebug pid b s = (r, s')" by fastforce
  note U = UnpinPage_unfold [OF f refl refl, of ndebug b]
  have r: "r = Inr True" and tab: "bp_page_table s' = bp_page_table s" "bp_pool_size s' = bp_pool_size s"
    and pages: "p_pin_count (bp_pages s' ! g) = p_pin_count (bp_pages s ! g) - (if g = f then 1 else 0)" for g
    using call U pos by (auto simp: nth_upd_page f SetDirty_def)
  have other: "h = f \<longleftrightarrow> q = pid" if "bp_page_table s q = Some h" for q h
    using pool_safeD(9) [OF safe that] pool_safeD(9) [OF safe f(1)] that f(1) by (metis option.inject)
  have "unat (p_pin_count (bp_pages s ! f) - 1) = H pid - 1" using u nz by (simp add: unat_minus_one)
  then have "pins s' q = (if q = pid then H pid - 1 else H q)" for q
    using other [of q] f(1) by (cases "bp_page_table s q") (auto simp: pins_def tab pages H [symmetric])
  then have "pins s' = H(pid := H pid - 1)" by auto
  moreover have "pinned s pid" using nz f(1) by (simp add: pinned_def)
  then have "pool_step os ndebug s s'" using call r by (auto intro: pool_step.unpin)
  then have "pool_inv s'" using inv by (rule pool_step_inv)
  moreover have "p_pin_count (bp_pages s ! f) \<noteq> 1" if "H pid \<noteq> 1" using u that by auto
  then have "coherent fd blocks phase (if b then W - {pid} else W) s'" "contents blocks s' = contents blocks s"
    using unpin_coherent [OF c f(1) nz call] owed by auto
  ultimately show ?thesis using call r tab UnpinPage_numbers [OF call] by (auto simp: shared_def)
qed

end

end
