(* ===== verification/Workers.thy ===== *)
theory Workers
  imports Insert_Race Shared_Pool
begin

text \<open>
  Any number of workers, each serving one request after the other, interleaved in any way at the steps of \<open>Worker_Steps\<close>.
  The invariant \<open>crew\<close> counts pins: a page has as many pins as workers hold it.  From it follows that no interleaving
  runs into undefined behaviour: the pages workers hold stay in their frames, and the managers keep their invariants.
\<close>

section \<open>What a worker holds\<close>

fun hold_frame :: "pc \<Rightarrow> (pageid \<times> nat) option" where
  "hold_frame (P_ins_link t p pid f) = Some (pid, f)"
| "hold_frame (P_ins_format t p pid f k) = Some (pid, f)"
| "hold_frame (P_ins_row t p pid f) = Some (pid, f)"
| "hold_frame (P_ins_put t pid f row i) = Some (pid, f)"
| "hold_frame (P_ins_log t pid f rid row) = Some (pid, f)"
| "hold_frame (P_ins_lsn t pid f lsn) = Some (pid, f)"
| "hold_frame (P_sel_look t pid f slot cnt) = Some (pid, f)"
| "hold_frame (P_sel_get t pid f slot cnt g) = Some (pid, f)"
| "hold_frame _ = None"

fun hold_pid :: "pc \<Rightarrow> pageid option" where
  "hold_pid (P_ins_unpin t pid) = Some pid"
| "hold_pid (P_sel_unpin t pid again slot cnt) = Some pid"
| "hold_pid w = map_option fst (hold_frame w)"

fun writing :: "pc \<Rightarrow> bool" where
  "writing (P_sel_look t pid f slot cnt) = False"
| "writing (P_sel_get t pid f slot cnt g) = False"
| "writing (P_sel_unpin t pid again slot cnt) = False"
| "writing _ = True"

text \<open>The table a worker points to, and the page numbers it has read.\<close>

fun pc_table :: "pc \<Rightarrow> u32 option" where
  "pc_table (P_ins_read t p) = Some p"
| "pc_table (P_ins_new t p) = Some p"
| "pc_table (P_ins_link t p pid f) = Some p"
| "pc_table (P_ins_format t p pid f k) = Some p"
| "pc_table (P_ins_fetch t p pid) = Some p"
| "pc_table (P_ins_row t p pid f) = Some p"
| "pc_table (P_sel_read t p) = Some p"
| "pc_table _ = None"

fun pc_page :: "pc \<Rightarrow> pageid option" where
  "pc_page (P_ins_fetch t p pid) = Some pid"
| "pc_page (P_sel_next t pid slot cnt) = (if pid = INVALID_PAGE_ID then None else Some pid)"
| "pc_page w = hold_pid w"

text \<open>What a worker's local variables promise; a worker that ended badly promises nothing.\<close>

fun pc_local :: "pc \<Rightarrow> bool" where
  "pc_local (P_ins_put t pid f row i) = put_ok i"
| "pc_local (P_sel_get t pid f slot cnt g) = get_ok g"
| "pc_local (P_dead e) = False"
| "pc_local _ = True"

lemma put_next_holds:
  assumes "put_ok i"
  shows "hold_pid (put_next t pid f row i) = Some pid" "writing (put_next t pid f row i)" "pc_txn (put_next t pid f row i) = Some t"
    "hold_frame (put_next t pid f row i) = None \<or> hold_frame (put_next t pid f row i) = Some (pid, f)"
    "pc_local (put_next t pid f row i)" "pc_table (put_next t pid f row i) = None" "pc_page (put_next t pid f row i) = Some pid"
  by (use assms in \<open>cases "(t, pid, f, row, i)" rule: put_next.cases; simp\<close>)+

lemma get_next_holds:
  assumes "get_ok g"
  shows "hold_pid (get_next t pid f slot cnt g) = Some pid" "pc_txn (get_next t pid f slot cnt g) = Some t"
    "hold_frame (get_next t pid f slot cnt g) = None \<or> hold_frame (get_next t pid f slot cnt g) = Some (pid, f)"
    "pc_local (get_next t pid f slot cnt g)" "pc_table (get_next t pid f slot cnt g) = None" "pc_page (get_next t pid f slot cnt g) = Some pid"
  by (use assms in \<open>cases g; simp\<close>)+

definition pins_of :: "pc list \<Rightarrow> pageid \<Rightarrow> nat" where
  "pins_of ws pid = length (filter (\<lambda>w. hold_pid w = Some pid) ws)"

definition written_by :: "pc list \<Rightarrow> pageid set" where
  "written_by ws = {pid. \<exists>w \<in> set ws. hold_pid w = Some pid \<and> writing w}"

lemma filter_update:
  "i < length xs \<Longrightarrow> length (filter P (xs[i := x])) + (if P (xs ! i) then 1 else 0) = length (filter P xs) + (if P x then 1 else 0)"
proof (induction xs arbitrary: i)
  case (Cons y xs)
  then show ?case by (cases i) (fastforce split: if_splits)+
qed simp

lemma pins_of_update:
  "i < length ws \<Longrightarrow> pins_of (ws[i := w]) pid + (if hold_pid (ws ! i) = Some pid then 1 else 0) = pins_of ws pid + (if hold_pid w = Some pid then 1 else 0)"
  unfolding pins_of_def by (rule filter_update)

lemma pins_of_same: "i < length ws \<Longrightarrow> hold_pid w = hold_pid (ws ! i) \<Longrightarrow> pins_of (ws[i := w]) = pins_of ws"
  using pins_of_update [of i ws w] by (auto simp: fun_eq_iff)

lemma pins_of_take:
  assumes "i < length ws" and "hold_pid (ws ! i) = None" and "hold_pid w = Some pid"
  shows "pins_of (ws[i := w]) = (pins_of ws)(pid := pins_of ws pid + 1)"
  using pins_of_update [OF assms(1), of w] assms(2,3) by (auto simp: fun_eq_iff split: if_splits)

lemma pins_of_give:
  assumes "i < length ws" and "hold_pid (ws ! i) = Some pid" and "hold_pid w = None"
  shows "pins_of (ws[i := w]) = (pins_of ws)(pid := pins_of ws pid - 1)"
proof
  fix q
  show "pins_of (ws[i := w]) q = ((pins_of ws)(pid := pins_of ws pid - 1)) q"
    using pins_of_update [OF assms(1), of w q] assms(2,3) by (auto split: if_splits)
qed

lemma pins_of_held: "w \<in> set ws \<Longrightarrow> hold_pid w = Some pid \<Longrightarrow> 0 < pins_of ws pid"
  by (auto simp: pins_of_def length_greater_0_conv filter_empty_conv)

lemma pins_of_bound: "pins_of ws pid \<le> length ws"
  by (simp add: pins_of_def)

lemma pins_of_idle: "i < length ws \<Longrightarrow> hold_pid (ws ! i) = None \<Longrightarrow> pins_of ws pid < length ws"
  unfolding pins_of_def by (rule length_filter_less [of "ws ! i"]) simp_all

text \<open>Fewer pages are pinned than there are workers, when one of them holds none.\<close>

definition held_pages :: "pc list \<Rightarrow> pageid set" where
  "held_pages ws = (\<lambda>w. the (hold_pid w)) ` set (filter (\<lambda>w. hold_pid w \<noteq> None) ws)"

lemma held_pages_finite: "finite (held_pages ws)" "{pid. 0 < pins_of ws pid} \<subseteq> held_pages ws"
  by (force simp: held_pages_def pins_of_def filter_empty_conv)+

lemma held_pages_card:
  assumes "i < length ws" and "hold_pid (ws ! i) = None"
  shows "card (held_pages ws) < length ws"
proof -
  have "card (held_pages ws) \<le> length (filter (\<lambda>w. hold_pid w \<noteq> None) ws)"
    unfolding held_pages_def using card_image_le [of "set (filter (\<lambda>w. hold_pid w \<noteq> None) ws)" "\<lambda>w. the (hold_pid w)"]
      card_length [of "filter (\<lambda>w. hold_pid w \<noteq> None) ws"] by simp
  also have "\<dots> < length ws" using assms by (intro length_filter_less [of "ws ! i"]) simp_all
  finally show ?thesis .
qed

section \<open>The invariant\<close>

text \<open>The managers, after at most \<open>n\<close> steps: the table has the schema of the handler and a page that was allocated, if any; every
  allocated page is a table page.\<close>

definition managers_ok :: "('d \<Rightarrow> pageid \<Rightarrow> bytes) \<Rightarrow> nat \<Rightarrow> 'd sting_instance \<Rightarrow> bool" where
  "managers_ok blocks n inst \<longleftrightarrow>
     cat_inv (in_catalog inst) \<and> (cat_dir (in_catalog inst) ''users'' = None \<longrightarrow> cat_room (in_catalog inst))
     \<and> (\<forall>ti. cat_dir (in_catalog inst) ''users'' = Some ti \<longrightarrow> ti_schema ti = Schema_ctor users_columns
          \<and> (ti_first_page_id ti = INVALID_PAGE_ID \<or> unat (ti_first_page_id ti) < unat (next_id (in_bpm inst))))
     \<and> tm_inv (in_txn_manager inst) \<and> unat (tm_next_txn_id (in_txn_manager inst)) \<le> n + 1
     \<and> unat (next_id (in_bpm inst)) \<le> n \<and> (\<forall>pid \<in> dom (bp_page_table (in_bpm inst)). unat pid < unat (next_id (in_bpm inst)))
     \<and> (\<forall>pid. unat pid < unat (next_id (in_bpm inst)) \<longrightarrow> table_page (contents blocks (in_bpm inst) pid))"

text \<open>One worker: not ended by an error, its local variables in range, its page in its frame, its table the one in the catalog, its page number allocated, its transaction
  active.\<close>

definition active :: "'d sting_instance \<Rightarrow> u64 \<Rightarrow> bool" where
  "active inst txn \<longleftrightarrow> (\<exists>t. tm_txn_map (in_txn_manager inst) txn = Some t \<and> tx_state t = ACTIVE)"

definition worker_ok :: "'d sting_instance \<Rightarrow> pc \<Rightarrow> bool" where
  "worker_ok inst w \<longleftrightarrow> pc_local w
     \<and> (\<forall>pid f. hold_frame w = Some (pid, f) \<longrightarrow> bp_page_table (in_bpm inst) pid = Some f)
     \<and> (\<forall>p. pc_table w = Some p \<longrightarrow> (\<exists>ti. cat_dir (in_catalog inst) ''users'' = Some ti \<and> ti_id ti = p))
     \<and> (\<forall>pid. pc_page w = Some pid \<longrightarrow> unat pid < unat (next_id (in_bpm inst)))
     \<and> (\<forall>txn. pc_txn w = Some txn \<longrightarrow> active inst txn)"

definition crew :: "int \<Rightarrow> ('d \<Rightarrow> pageid \<Rightarrow> bytes) \<Rightarrow> ('d \<Rightarrow> io_phase) \<Rightarrow> nat \<Rightarrow> 'd sting_instance \<times> pc list \<Rightarrow> bool" where
  "crew fd blocks phase n c \<longleftrightarrow> (case c of (inst, ws) \<Rightarrow>
     shared fd blocks phase (pins_of ws) (written_by ws) (in_bpm inst)
     \<and> length ws \<le> bp_pool_size (in_bpm inst) \<and> length ws < 2 ^ 31 \<and> managers_ok blocks n inst
     \<and> (\<forall>w \<in> set ws. worker_ok inst w)
     \<and> (\<forall>i < length ws. \<forall>j < length ws. i \<noteq> j \<longrightarrow> pc_txn (ws ! i) \<noteq> None \<longrightarrow> pc_txn (ws ! i) \<noteq> pc_txn (ws ! j)))"

text \<open>What a step must leave to the other workers.\<close>

definition spares :: "(pageid \<Rightarrow> nat) \<Rightarrow> u64 option \<Rightarrow> 'd sting_instance \<Rightarrow> 'd sting_instance \<Rightarrow> bool" where
  "spares H own inst inst' \<longleftrightarrow>
     (\<forall>pid f. 0 < H pid \<longrightarrow> bp_page_table (in_bpm inst) pid = Some f \<longrightarrow> bp_page_table (in_bpm inst') pid = Some f)
     \<and> unat (next_id (in_bpm inst)) \<le> unat (next_id (in_bpm inst'))
     \<and> (\<forall>ti. cat_dir (in_catalog inst) ''users'' = Some ti \<longrightarrow> (\<exists>ti'. cat_dir (in_catalog inst') ''users'' = Some ti' \<and> ti_id ti' = ti_id ti))
     \<and> (\<forall>txn. active inst txn \<longrightarrow> own \<noteq> Some txn \<longrightarrow> active inst' txn)"

lemma worker_ok_spared:
  assumes "worker_ok inst w" and "spares H own inst inst'" and "\<And>pid. hold_pid w = Some pid \<Longrightarrow> 0 < H pid"
    and "pc_txn w = None \<or> pc_txn w \<noteq> own"
  shows "worker_ok inst' w"
proof -
  have "hold_pid w = Some pid" if "hold_frame w = Some (pid, f)" for pid f using that by (cases w) auto
  then have "bp_page_table (in_bpm inst') pid = Some f" if "hold_frame w = Some (pid, f)" for pid f
    using assms(1,2,3) that by (auto simp: worker_ok_def spares_def)
  moreover have "active inst' txn" if "pc_txn w = Some txn" for txn
    using assms(1,2,4) that by (auto simp: worker_ok_def spares_def)
  moreover have "unat pid < unat (next_id (in_bpm inst'))" if "pc_page w = Some pid" for pid
    using assms(1,2) that by (auto simp: worker_ok_def spares_def intro: less_le_trans)
  moreover have "\<exists>ti. cat_dir (in_catalog inst') ''users'' = Some ti \<and> ti_id ti = p" if "pc_table w = Some p" for p
    using assms(1,2) that unfolding worker_ok_def spares_def by blast
  ultimately show ?thesis using assms(1) by (simp add: worker_ok_def)
qed

lemma written_pinned: "pid \<in> written_by ws \<Longrightarrow> 0 < pins_of ws pid"
  using pins_of_held by (auto simp: written_by_def)

text \<open>A step of worker \<open>i\<close> keeps the invariant when it does its part.\<close>

lemma crew_update:
  assumes c: "crew fd blocks phase n (inst, ws)" and i: "i < length ws"
    and sh: "shared fd blocks phase (pins_of (ws[i := w])) W (in_bpm inst')" "W \<subseteq> written_by (ws[i := w])"
      "bp_pool_size (in_bpm inst') = bp_pool_size (in_bpm inst)"
    and ok: "managers_ok blocks (Suc n) inst'" "worker_ok inst' w"
    and others: "spares (pins_of (ws[i := w])) (pc_txn (ws ! i)) inst inst'"
    and txn: "pc_txn w = None \<or> pc_txn w = pc_txn (ws ! i) \<or> (\<exists>t. pc_txn w = Some t \<and> \<not> active inst t)"
  shows "crew fd blocks phase (Suc n) (inst', ws[i := w])"
proof -
  have wok: "worker_ok inst v" if "v \<in> set ws" for v using c that by (simp add: crew_def)
  have diff: "pc_txn (ws ! j) \<noteq> pc_txn (ws ! k)" if "j < length ws" "k < length ws" "j \<noteq> k" "pc_txn (ws ! j) \<noteq> None" for j k
    using c that by (simp add: crew_def)
  have new: "pc_txn w \<noteq> pc_txn (ws ! j)" if "j < length ws" "j \<noteq> i" "pc_txn w \<noteq> None" for j
  proof -
    have "active inst t" if "pc_txn (ws ! j) = Some t" for t using wok [of "ws ! j"] that \<open>j < length ws\<close> by (simp add: worker_ok_def)
    then show ?thesis using txn that diff [OF i that(1)] by auto
  qed
  have "worker_ok inst' (ws[i := w] ! j)" if j: "j < length ws" for j
  proof (cases "j = i")
    case True
    then show ?thesis using ok(2) i by simp
  next
    case False
    have "0 < pins_of (ws[i := w]) pid" if "hold_pid (ws ! j) = Some pid" for pid
      using that j False by (intro pins_of_held [of "ws ! j"]) (metis length_list_update nth_list_update_neq nth_mem)
    then show ?thesis
      using worker_ok_spared [OF wok [OF nth_mem [OF j]] others] False diff [OF j i False] by fastforce
  qed
  then have "\<forall>v \<in> set (ws[i := w]). worker_ok inst' v" by (metis in_set_conv_nth length_list_update)
  moreover have "shared fd blocks phase (pins_of (ws[i := w])) (written_by (ws[i := w])) (in_bpm inst')"
    using shared_widen [OF sh(1,2) written_pinned] .
  moreover have "pc_txn (ws[i := w] ! j) \<noteq> pc_txn (ws[i := w] ! k)"
    if "j < length ws" "k < length ws" "j \<noteq> k" "pc_txn (ws[i := w] ! j) \<noteq> None" for j k
    using that new [of j] new [of k] diff [of j k] i by (cases "j = i"; cases "k = i") auto
  ultimately show ?thesis using c sh(3) ok(1) by (simp add: crew_def)
qed

section \<open>Kinds of steps\<close>

lemma crewD:
  assumes "crew fd blocks phase n (inst, ws)" and "i < length ws"
  shows "shared fd blocks phase (pins_of ws) (written_by ws) (in_bpm inst)" "length ws \<le> bp_pool_size (in_bpm inst)" "length ws < 2 ^ 31"
    "managers_ok blocks n inst" "worker_ok inst (ws ! i)"
  using assms by (simp_all add: crew_def)

lemma written_update:
  assumes "i < length ws" and "pid \<in> written_by ws" and "hold_pid (ws ! i) = Some pid \<Longrightarrow> writing (ws ! i) \<Longrightarrow> hold_pid w = Some pid \<and> writing w"
  shows "pid \<in> written_by (ws[i := w])"
proof -
  obtain j where j: "j < length ws" "hold_pid (ws ! j) = Some pid" "writing (ws ! j)"
    using assms(2) by (auto simp: written_by_def in_set_conv_nth)
  show ?thesis
  proof (cases "j = i")
    case True
    then show ?thesis using assms(1,3) j set_update_memI [OF assms(1)] by (auto simp: written_by_def)
  next
    case False
    have "ws[i := w] ! j \<in> set (ws[i := w])" using j(1) by (intro nth_mem) simp
    then show ?thesis using j(2,3) False by (auto simp: written_by_def)
  qed
qed

lemma managers_mono: "managers_ok blocks n inst \<Longrightarrow> managers_ok blocks (Suc n) inst"
  by (auto simp: managers_ok_def)

lemma managers_pool:
  assumes "managers_ok blocks n inst" and "in_catalog inst' = in_catalog inst" and "in_txn_manager inst' = in_txn_manager inst"
    and "next_id (in_bpm inst') = next_id (in_bpm inst)"
    and "\<And>pid. pid \<in> dom (bp_page_table (in_bpm inst')) \<Longrightarrow> unat pid < unat (next_id (in_bpm inst))"
    and "\<And>pid. unat pid < unat (next_id (in_bpm inst)) \<Longrightarrow> table_page (contents blocks (in_bpm inst') pid)"
  shows "managers_ok blocks (Suc n) inst'"
  using assms by (auto simp: managers_ok_def)

lemma spares_pool:
  assumes "in_catalog inst' = in_catalog inst" and "in_txn_manager inst' = in_txn_manager inst"
    and "unat (next_id (in_bpm inst)) \<le> unat (next_id (in_bpm inst'))"
    and "\<And>pid f. 0 < H pid \<Longrightarrow> bp_page_table (in_bpm inst) pid = Some f \<Longrightarrow> bp_page_table (in_bpm inst') pid = Some f"
  shows "spares H own inst inst'"
  using assms by (auto simp: spares_def active_def)

text \<open>The instance stays as it is.\<close>

lemma crew_same:
  assumes c: "crew fd blocks phase n (inst, ws)" and i: "i < length ws" and w: "worker_ok inst w"
    and h: "hold_pid w = hold_pid (ws ! i)" "writing (ws ! i) \<Longrightarrow> writing w" and txn: "pc_txn w = None \<or> pc_txn w = pc_txn (ws ! i)"
  shows "crew fd blocks phase (Suc n) (inst, ws[i := w])"
proof (rule crew_update [OF c i, of _ "written_by ws"])
  show "shared fd blocks phase (pins_of (ws[i := w])) (written_by ws) (in_bpm inst)"
    using crewD(1) [OF c i] pins_of_same [OF i h(1)] by simp
  show "written_by ws \<subseteq> written_by (ws[i := w])" using written_update [OF i] h by auto
  show "managers_ok blocks (Suc n) inst" using managers_mono crewD(4) [OF c i] .
  show "spares (pins_of (ws[i := w])) (pc_txn (ws ! i)) inst inst" by (rule spares_pool) simp_all
qed (use w txn in auto)

text \<open>The worker changes the page it holds.\<close>

context reliable_device
begin

lemma crew_write:
  assumes c: "crew fd blocks phase n (inst, ws)" and i: "i < length ws" and f: "hold_frame (ws ! i) = Some (pid, f)" "writing (ws ! i)"
    and pg: "table_page (p_data pg)" "p_page_id pg = p_page_id (bp_pages (in_bpm inst) ! f)" "p_pin_count pg = p_pin_count (bp_pages (in_bpm inst) ! f)"
    and w: "worker_ok inst w" "hold_pid w = Some pid" "writing w" "pc_txn w = pc_txn (ws ! i)"
  shows "crew fd blocks phase (Suc n) (set_page f pg inst, ws[i := w])"
proof -
  let ?inst = "set_page f pg inst"
  have hp: "hold_pid (ws ! i) = Some pid" using f(1) by (cases "ws ! i") auto
  have tab: "bp_page_table (in_bpm inst) pid = Some f" using crewD(5) [OF c i] f(1) by (auto simp: worker_ok_def)
  have H: "0 < pins_of ws pid" using pins_of_held [OF nth_mem [OF i] hp] .
  note S = shared_write [OF crewD(1) [OF c i] H tab table_page_wf [OF pg(1)] pg(2,3)]
  have bpm: "in_bpm ?inst = upd_page f (\<lambda>_. pg) (in_bpm inst)" by (simp add: set_page_def)
  have same: "bp_page_table (in_bpm ?inst) = bp_page_table (in_bpm inst)" "next_id (in_bpm ?inst) = next_id (in_bpm inst)"
      "in_catalog ?inst = in_catalog inst" "in_txn_manager ?inst = in_txn_manager inst"
    by (simp_all add: set_page_def upd_page_def)
  show ?thesis
  proof (rule crew_update [OF c i, of _ "insert pid (written_by ws)"])
    show "shared fd blocks phase (pins_of (ws[i := w])) (insert pid (written_by ws)) (in_bpm ?inst)"
      using S(1) pins_of_same [OF i, of w] w(2) hp by (simp add: bpm)
    show "insert pid (written_by ws) \<subseteq> written_by (ws[i := w])"
      using written_update [OF i] w(2,3) hp set_update_memI [OF i] by (auto simp: written_by_def)
    show "managers_ok blocks (Suc n) ?inst"
      using managers_pool [OF crewD(4) [OF c i] same(3,4,2)] crewD(4) [OF c i] same S(2) pg(1) by (auto simp: managers_ok_def bpm)
    show "worker_ok ?inst w" using w(1) same by (auto simp: worker_ok_def active_def)
    show "spares (pins_of (ws[i := w])) (pc_txn (ws ! i)) inst ?inst" using same by (intro spares_pool) simp_all
  qed (use w(4) in \<open>simp_all add: bpm upd_page_def\<close>)
qed

text \<open>The worker fetches a page.\<close>

lemma crew_fetch:
  assumes c: "crew fd blocks phase n (inst, ws)" and i: "i < length ws" and none: "hold_pid (ws ! i) = None"
    and pid: "unat pid < unat (next_id (in_bpm inst))"
  shows "\<exists>f s. FetchPage os pid (in_bpm inst) = (Inr (Some f), s) \<and>
    (\<forall>w. hold_frame w = Some (pid, f) \<longrightarrow> pc_page w = Some pid \<longrightarrow> pc_txn w = pc_txn (ws ! i) \<longrightarrow> pc_table w = None \<or> pc_table w = pc_table (ws ! i) \<longrightarrow> pc_local w \<longrightarrow>
       crew fd blocks phase (Suc n) (inst\<lparr>in_bpm := s\<rparr>, ws[i := w]))"
proof -
  have room: "card (held_pages ws) < bp_pool_size (in_bpm inst)" using held_pages_card [OF i none] crewD(2) [OF c i] by simp
  have bound: "pins_of ws pid + 1 < 2 ^ 32" using pins_of_bound [of ws pid] crewD(3) [OF c i] by simp
  obtain f s where F: "FetchPage os pid (in_bpm inst) = (Inr (Some f), s)"
      "shared fd blocks phase ((pins_of ws)(pid := pins_of ws pid + 1)) (written_by ws) s" "bp_page_table s pid = Some f"
      "contents blocks s = contents blocks (in_bpm inst)" "others_kept pid (in_bpm inst) s" "next_id s = next_id (in_bpm inst)"
    using shared_fetch [OF crewD(1) [OF c i] held_pages_finite room bound] by blast
  have H: "pins (in_bpm inst) = pins_of ws" using crewD(1) [OF c i] by (simp add: shared_def)
  have dom: "unat q < unat (next_id (in_bpm inst))" if "q \<in> dom (bp_page_table s)" for q
    using that F(5) crewD(4) [OF c i] pid unfolding managers_ok_def others_kept_def by blast
  have "crew fd blocks phase (Suc n) (inst\<lparr>in_bpm := s\<rparr>, ws[i := w])"
    if w: "hold_frame w = Some (pid, f)" "pc_page w = Some pid" "pc_txn w = pc_txn (ws ! i)" "pc_table w = None \<or> pc_table w = pc_table (ws ! i)" "pc_local w" for w
  proof (rule crew_update [OF c i, of _ "written_by ws"])
    have hp: "hold_pid w = Some pid" using w(1) by (cases w) auto
    show "shared fd blocks phase (pins_of (ws[i := w])) (written_by ws) (in_bpm (inst\<lparr>in_bpm := s\<rparr>))"
      using F(2) pins_of_take [OF i none hp] by simp
    show "written_by ws \<subseteq> written_by (ws[i := w])" using written_update [OF i] none by auto
    show "managers_ok blocks (Suc n) (inst\<lparr>in_bpm := s\<rparr>)"
      using managers_pool [OF crewD(4) [OF c i], of "inst\<lparr>in_bpm := s\<rparr>"] crewD(4) [OF c i] F(4,6) dom by (simp add: managers_ok_def)
    show "worker_ok (inst\<lparr>in_bpm := s\<rparr>) w"
      using crewD(5) [OF c i] w F(3,6) pid by (auto simp: worker_ok_def active_def)
    show "spares (pins_of (ws[i := w])) (pc_txn (ws ! i)) inst (inst\<lparr>in_bpm := s\<rparr>)"
      using F(3,5,6) H pins_of_take [OF i none hp] by (intro spares_pool) (auto simp: others_kept_def split: if_splits)
  qed (use w F(5) in \<open>auto simp: others_kept_def\<close>)
  then show ?thesis using F(1) by blast
qed

text \<open>The worker gives its page back.\<close>

lemma crew_unpin:
  assumes c: "crew fd blocks phase n (inst, ws)" and i: "i < length ws" and hp: "hold_pid (ws ! i) = Some pid" and b: "b \<longleftrightarrow> writing (ws ! i)"
  shows "\<exists>inst'. unpin ndebug pid b inst = (Inr True, inst') \<and>
    (\<forall>w. hold_pid w = None \<longrightarrow> pc_page w = None \<or> pc_page w = Some pid \<longrightarrow> hold_frame w = None \<longrightarrow> pc_table w = None \<longrightarrow> pc_txn w = pc_txn (ws ! i) \<longrightarrow>
       pc_local w \<longrightarrow> crew fd blocks phase (Suc n) (inst', ws[i := w]))"
proof -
  have H: "0 < pins_of ws pid" using pins_of_held [OF nth_mem [OF i] hp] .
  have owed: "b \<or> pid \<notin> written_by ws \<or> pins_of ws pid \<noteq> 1"
  proof (rule ccontr)
    assume a: "\<not> ?thesis"
    then have "pid \<in> written_by (ws[i := P_done []])" using written_update [OF i] b by blast
    then show False using written_pinned pins_of_give [OF i hp, of "P_done []"] a by fastforce
  qed
  have bound: "pins_of ws pid < 2 ^ 31" using pins_of_bound [of ws pid] crewD(3) [OF c i] by simp
  obtain s where U: "UnpinPage ndebug pid b (in_bpm inst) = (Inr True, s)"
      "shared fd blocks phase ((pins_of ws)(pid := pins_of ws pid - 1)) (if b then written_by ws - {pid} else written_by ws) s"
      "contents blocks s = contents blocks (in_bpm inst)" "bp_page_table s = bp_page_table (in_bpm inst)"
      "bp_pool_size s = bp_pool_size (in_bpm inst)" "next_id s = next_id (in_bpm inst)"
    using shared_unpin [OF crewD(1) [OF c i] H bound owed] by blast
  have "crew fd blocks phase (Suc n) (inst\<lparr>in_bpm := s\<rparr>, ws[i := w])"
    if w: "hold_pid w = None" "pc_page w = None \<or> pc_page w = Some pid" "hold_frame w = None" "pc_table w = None" "pc_txn w = pc_txn (ws ! i)" "pc_local w" for w
  proof (rule crew_update [OF c i, of _ "if b then written_by ws - {pid} else written_by ws"])
    show "shared fd blocks phase (pins_of (ws[i := w])) (if b then written_by ws - {pid} else written_by ws) (in_bpm (inst\<lparr>in_bpm := s\<rparr>))"
      using U(2) pins_of_give [OF i hp w(1)] by simp
    show "(if b then written_by ws - {pid} else written_by ws) \<subseteq> written_by (ws[i := w])" using written_update [OF i, of _ w] hp b by auto
    show "managers_ok blocks (Suc n) (inst\<lparr>in_bpm := s\<rparr>)"
      using managers_pool [OF crewD(4) [OF c i]] crewD(4) [OF c i] U(3,4,6) by (auto simp: managers_ok_def)
    have "pc_page (ws ! i) = Some pid" using hp by (cases "ws ! i") auto
    then show "worker_ok (inst\<lparr>in_bpm := s\<rparr>) w"
      using crewD(5) [OF c i] w U(6) by (auto simp: worker_ok_def active_def)
    show "spares (pins_of (ws[i := w])) (pc_txn (ws ! i)) inst (inst\<lparr>in_bpm := s\<rparr>)"
      using U(4,6) by (intro spares_pool) simp_all
  qed (use w U(5) in auto)
  then show ?thesis using U(1) by (simp add: unpin_def)
qed

text \<open>The worker allocates a page.\<close>

lemma crew_new:
  assumes c: "crew fd blocks phase n (inst, ws)" and i: "i < length ws" and pc: "ws ! i = P_ins_new t p" and n: "n < 2 ^ 32 - 1"
  shows "\<exists>pid f s. NewPage os (in_bpm inst) = (Inr (Some (pid, f)), s) \<and> crew fd blocks phase (Suc n) (inst\<lparr>in_bpm := s\<rparr>, ws[i := P_ins_link t p pid f])"
proof -
  have none: "hold_pid (ws ! i) = None" by (simp add: pc)
  define pid where "pid = next_id (in_bpm inst)"
  have ok: "managers_ok blocks n inst" using crewD(4) [OF c i] .
  have room: "card (held_pages ws) < bp_pool_size (in_bpm inst)" using held_pages_card [OF i none] crewD(2) [OF c i] by simp
  have new: "bp_page_table (in_bpm inst) pid = None" using ok by (auto simp: managers_ok_def pid_def)
  obtain f s where F: "NewPage os (in_bpm inst) = (Inr (Some (pid, f)), s)" "shared fd blocks phase ((pins_of ws)(pid := 1)) (insert pid (written_by ws)) s"
      "bp_page_table s pid = Some f" "contents blocks s = (contents blocks (in_bpm inst))(pid := replicate PAGE_SIZE 0)"
      "others_kept pid (in_bpm inst) s" "next_id s = next_id (in_bpm inst) + 1"
    using shared_new [OF crewD(1) [OF c i] held_pages_finite room new [unfolded pid_def] pid_def] by blast
  have H: "pins (in_bpm inst) = pins_of ws" using crewD(1) [OF c i] by (simp add: shared_def)
  have H0: "pins_of ws pid = 0" using new fun_cong [OF H, of pid] by (simp add: pins_def)
  have le: "unat pid \<le> n" using ok by (simp add: managers_ok_def pid_def)
  then have nx: "unat (next_id s) = Suc (unat pid)" using n by (simp add: F(6) pid_def unat_word_ariths)
  have old: "unat q < unat pid \<or> q = pid" if "unat q < unat (next_id s)" for q
    using that nx by (auto simp: less_Suc_eq word_unat_eq_iff)
  let ?w = "P_ins_link t p pid f" and ?inst = "inst\<lparr>in_bpm := s\<rparr>"
  have take: "pins_of (ws[i := ?w]) = (pins_of ws)(pid := 1)" using pins_of_take [OF i none, of ?w pid] H0 by simp
  have "crew fd blocks phase (Suc n) (?inst, ws[i := ?w])"
  proof (rule crew_update [OF c i, of _ "insert pid (written_by ws)"])
    show "shared fd blocks phase (pins_of (ws[i := ?w])) (insert pid (written_by ws)) (in_bpm ?inst)" using F(2) take by simp
    show "insert pid (written_by ws) \<subseteq> written_by (ws[i := ?w])"
      using written_update [OF i] none set_update_memI [OF i, of ?w] by (force simp: written_by_def)
    have "unat q < unat (next_id s)" if "q \<in> dom (bp_page_table s)" for q
    proof -
      have "q = pid \<or> unat q < unat pid" using that F(5) ok unfolding managers_ok_def others_kept_def pid_def by blast
      then show ?thesis using nx by auto
    qed
    moreover have "table_page (contents blocks s q)" if "unat q < unat (next_id s)" for q
      using old [OF that] ok table_page_zero by (auto simp: F(4) managers_ok_def pid_def)
    ultimately show "managers_ok blocks (Suc n) ?inst"
      using ok le nx by (auto simp: managers_ok_def pid_def less_Suc_eq)
    show "worker_ok ?inst ?w" using crewD(5) [OF c i] F(3) nx by (auto simp: worker_ok_def active_def pc)
    show "spares (pins_of (ws[i := ?w])) (pc_txn (ws ! i)) inst ?inst"
      using F(3,5) nx H take new by (intro spares_pool) (auto simp: others_kept_def pid_def split: if_splits)
  qed (use F(5) in \<open>simp_all add: pc others_kept_def\<close>)
  then show ?thesis using F(1) by blast
qed

end

text \<open>Only the transaction manager changes.\<close>

lemma crew_txn:
  assumes c: "crew fd blocks phase n (inst, ws)" and i: "i < length ws"
    and same: "in_bpm inst' = in_bpm inst" "in_catalog inst' = in_catalog inst"
    and tm: "tm_inv (in_txn_manager inst')" "unat (tm_next_txn_id (in_txn_manager inst')) \<le> Suc (unat (tm_next_txn_id (in_txn_manager inst)))"
    and others: "\<And>txn. active inst txn \<Longrightarrow> pc_txn (ws ! i) \<noteq> Some txn \<Longrightarrow> active inst' txn"
    and w: "hold_pid w = hold_pid (ws ! i)" "hold_frame w = None \<or> hold_frame w = hold_frame (ws ! i)" "writing (ws ! i) \<Longrightarrow> writing w"
      "pc_table w = None" "pc_page w = None \<or> pc_page w = pc_page (ws ! i)" "pc_local w"
    and txn: "\<And>txn. pc_txn w = Some txn \<Longrightarrow> active inst' txn" "pc_txn w = None \<or> pc_txn w = pc_txn (ws ! i) \<or> (\<exists>t. pc_txn w = Some t \<and> \<not> active inst t)"
  shows "crew fd blocks phase (Suc n) (inst', ws[i := w])"
proof (rule crew_update [OF c i, of _ "written_by ws"])
  show "shared fd blocks phase (pins_of (ws[i := w])) (written_by ws) (in_bpm inst')"
    using crewD(1) [OF c i] pins_of_same [OF i w(1)] same by simp
  show "written_by ws \<subseteq> written_by (ws[i := w])" using written_update [OF i] w(1,3) by auto
  show "managers_ok blocks (Suc n) inst'" using crewD(4) [OF c i] same tm by (auto simp: managers_ok_def)
  show "worker_ok inst' w" using crewD(5) [OF c i] w txn(1) same by (auto simp: worker_ok_def)
  show "spares (pins_of (ws[i := w])) (pc_txn (ws ! i)) inst inst'" using same others by (auto simp: spares_def)
qed (use txn(2) same in auto)

lemma crew_begin:
  assumes c: "crew fd blocks phase n (inst, ws)" and i: "i < length ws" and pc: "ws ! i = P_start q" and n: "n < 2 ^ 32 - 1"
  shows "\<exists>txn t inst'. begin_txn inst = (Inr txn, inst') \<and> tm_txn_map (in_txn_manager inst') txn = Some t \<and>
    (\<forall>w. w = P_ins_init txn \<or> w = P_sel_init txn \<or> (\<exists>a. w = P_done a) \<longrightarrow> crew fd blocks phase (Suc n) (inst', ws[i := w]))"
proof -
  have ok: "managers_ok blocks n inst" using crewD(4) [OF c i] .
  define k where "k = unat (tm_next_txn_id (in_txn_manager inst))"
  have k: "k + 1 < 2 ^ 64" "tm_inv (in_txn_manager inst)" using ok n by (auto simp: managers_ok_def k_def)
  obtain t inst' where B: "begin_txn inst = (Inr (of_nat k), inst')" "in_bpm inst' = in_bpm inst" "in_catalog inst' = in_catalog inst"
      "tm_inv (in_txn_manager inst')" "unat (tm_next_txn_id (in_txn_manager inst')) = Suc k"
      "tm_txn_map (in_txn_manager inst') (of_nat k) = Some t" "tx_state t = ACTIVE"
    using begin_txn_ok [OF k(2) k_def [symmetric] k(1)] by blast
  have id: "of_nat k = tm_next_txn_id (in_txn_manager inst)" by (simp add: k_def)
  have fresh: "\<not> active inst (of_nat k)" using tm_inv_fresh [OF k(2)] by (simp add: active_def id)
  have "active inst' txn" if "active inst txn" for txn
  proof -
    have "txn \<noteq> tm_next_txn_id (in_txn_manager inst)" using that fresh id by auto
    then show ?thesis using that begin_other [OF B(1), of txn] by (simp add: active_def)
  qed
  moreover have "active inst' (of_nat k)" using B(6,7) by (simp add: active_def)
  ultimately have "crew fd blocks phase (Suc n) (inst', ws[i := w])" if "w = P_ins_init (of_nat k) \<or> w = P_sel_init (of_nat k) \<or> (\<exists>a. w = P_done a)" for w
    using that B(4,5) fresh by (intro crew_txn [OF c i B(2,3)]) (auto simp: pc k_def)
  then show ?thesis using B(1,6) by blast
qed

text \<open>Only the catalog changes.\<close>

lemma crew_catalog:
  assumes c: "crew fd blocks phase n (inst, ws)" and i: "i < length ws" and cat: "cat_inv cat" "cat_dir cat ''users'' = Some ti"
    and ti: "ti_schema ti = Schema_ctor users_columns" "ti_first_page_id ti = INVALID_PAGE_ID \<or> unat (ti_first_page_id ti) < unat (next_id (in_bpm inst))"
    and kept: "\<And>ti'. cat_dir (in_catalog inst) ''users'' = Some ti' \<Longrightarrow> ti_id ti' = ti_id ti"
    and w: "hold_pid w = hold_pid (ws ! i)" "hold_frame w = hold_frame (ws ! i)" "writing (ws ! i) \<Longrightarrow> writing w"
      "pc_table w = None \<or> pc_table w = pc_table (ws ! i)" "pc_page w = None \<or> pc_page w = pc_page (ws ! i)" "pc_local w" "pc_txn w = pc_txn (ws ! i)"
  shows "crew fd blocks phase (Suc n) (inst\<lparr>in_catalog := cat\<rparr>, ws[i := w])"
proof (rule crew_update [OF c i, of _ "written_by ws"])
  show "shared fd blocks phase (pins_of (ws[i := w])) (written_by ws) (in_bpm (inst\<lparr>in_catalog := cat\<rparr>))"
    using crewD(1) [OF c i] pins_of_same [OF i w(1)] by simp
  show "written_by ws \<subseteq> written_by (ws[i := w])" using written_update [OF i] w(1,3) by auto
  show "managers_ok blocks (Suc n) (inst\<lparr>in_catalog := cat\<rparr>)" using crewD(4) [OF c i] cat ti by (auto simp: managers_ok_def)
  have "ti_id ti = p" if "pc_table w = Some p" for p
  proof -
    have "pc_table (ws ! i) = Some p" using that w(4) by auto
    then obtain ti' where "cat_dir (in_catalog inst) ''users'' = Some ti'" "ti_id ti' = p" using crewD(5) [OF c i] by (auto simp: worker_ok_def)
    then show ?thesis using kept by metis
  qed
  then show "worker_ok (inst\<lparr>in_catalog := cat\<rparr>) w" using crewD(5) [OF c i] w cat(2) by (auto simp: worker_ok_def active_def)
  have "\<exists>t'. cat_dir cat ''users'' = Some t' \<and> ti_id t' = ti_id t" if "cat_dir (in_catalog inst) ''users'' = Some t" for t
    using cat(2) kept [OF that] by simp
  then show "spares (pins_of (ws[i := w])) (pc_txn (ws ! i)) inst (inst\<lparr>in_catalog := cat\<rparr>)" by (simp add: spares_def active_def)
qed (use w(7) in auto)

section \<open>Every step\<close>

lemma finish_thrown: "finish (Inl (Runtime_error m)) = P_done (''Error: '' @ m @ newline)"
  by (simp add: finish.simps)

text \<open>The step of worker \<open>i\<close> keeps the invariant.\<close>

definition kept_by_step :: "int \<Rightarrow> ('d \<Rightarrow> pageid \<Rightarrow> bytes) \<Rightarrow> ('d \<Rightarrow> io_phase) \<Rightarrow> 'd os \<Rightarrow> bool \<Rightarrow> nat \<Rightarrow> 'd sting_instance \<Rightarrow> pc list \<Rightarrow> nat \<Rightarrow> bool" where
  "kept_by_step fd blocks phase os ndebug n inst ws i \<longleftrightarrow>
     (case wstep os ndebug (ws ! i, inst) of (w, inst') \<Rightarrow> crew fd blocks phase (Suc n) (inst', ws[i := w]))"

lemma crew_done: "crew fd blocks phase n (inst, ws) \<Longrightarrow> i < length ws \<Longrightarrow> hold_pid (ws ! i) = None \<Longrightarrow> crew fd blocks phase (Suc n) (inst, ws[i := P_done a])"
  by (rule crew_same) (simp_all add: worker_ok_def)

text \<open>A worker that only reads the table description.\<close>

lemma table_known:
  assumes "crew fd blocks phase n (inst, ws)" and "i < length ws" and "cat_dir (in_catalog inst) ''users'' = Some ti"
  shows "GetTable ''users'' (in_catalog inst) = Inr (Some (ti_id ti))" "table_at (ti_id ti) (in_catalog inst) = Inr ti"
    "ti_schema ti = Schema_ctor users_columns" "ti_first_page_id ti = INVALID_PAGE_ID \<or> unat (ti_first_page_id ti) < unat (next_id (in_bpm inst))"
  using crewD(4) [OF assms(1,2)] assms(3) tables.get_at [of "in_catalog inst" "''users''" ti] by (auto simp: managers_ok_def)

lemma own_table:
  assumes "crew fd blocks phase n (inst, ws)" and "i < length ws" and "pc_table (ws ! i) = Some p"
  obtains ti where "cat_dir (in_catalog inst) ''users'' = Some ti" "ti_id ti = p" "table_at p (in_catalog inst) = Inr ti"
    "ti_schema ti = Schema_ctor users_columns" "ti_first_page_id ti = INVALID_PAGE_ID \<or> unat (ti_first_page_id ti) < unat (next_id (in_bpm inst))"
proof -
  obtain ti where "cat_dir (in_catalog inst) ''users'' = Some ti" "ti_id ti = p" using crewD(5) [OF assms(1,2)] assms(3) by (auto simp: worker_ok_def)
  then show ?thesis using table_known [OF assms(1,2)] by (intro that) auto
qed

lemma table_step:
  assumes c: "crew fd blocks phase n (inst, ws)" and i: "i < length ws" and pc: "ws ! i = P_start q" and call: "do_create inst = (r, inst')"
  shows "crew fd blocks phase (Suc n) (inst', ws[i := finish r])"
proof (cases "cat_dir (in_catalog inst) ''users''")
  case None
  have cat: "cat_inv (in_catalog inst)" "cat_room (in_catalog inst)" using crewD(4) [OF c i] None by (auto simp: managers_ok_def)
  obtain j c' where c': "CreateTable ''users'' (Schema_ctor users_columns) INVALID_PAGE_ID (in_catalog inst) = (Inr j, c')" "cat_inv c'"
      "cat_dir c' = (cat_dir (in_catalog inst))(''users'' \<mapsto> \<lparr>ti_id = j, ti_name = ''users'', ti_schema = Schema_ctor users_columns, ti_first_page_id = INVALID_PAGE_ID\<rparr>)"
    using tables.create_new [OF cat None] by blast
  have r: "\<exists>a. r = Inr a" "inst' = inst\<lparr>in_catalog := c'\<rparr>" using call c'(1) by (auto simp: do_create_def BindCreateTable_def)
  then obtain a where "r = Inr a" by blast
  moreover obtain ti where ti: "cat_dir c' ''users'' = Some ti" "ti_schema ti = Schema_ctor users_columns" "ti_first_page_id ti = INVALID_PAGE_ID"
    using c'(3) by simp
  have "crew fd blocks phase (Suc n) (inst\<lparr>in_catalog := c'\<rparr>, ws[i := P_done a])"
    using ti None by (intro crew_catalog [OF c i c'(2) ti(1)]) (simp_all add: pc)
  ultimately show ?thesis using r(2) by simp
next
  case (Some ti)
  then have "do_create inst = (Inl (Runtime_error (''Table already exists: '' @ ''users'')), inst)"
    using crewD(4) [OF c i] tables.create_dup [of "in_catalog inst" "''users''" "Schema_ctor users_columns" INVALID_PAGE_ID]
    by (auto simp: managers_ok_def do_create_def BindCreateTable_def)
  then show ?thesis using call crew_done [OF c i] by (auto simp: finish_thrown pc)
qed

lemma start_step:
  assumes c: "crew fd blocks phase n (inst, ws)" and i: "i < length ws" and pc: "ws ! i = P_start q" and n: "n < 2 ^ 32 - 1"
  shows "kept_by_step fd blocks phase os ndebug n inst ws i"
proof -
  obtain txn t inst' where B: "begin_txn inst = (Inr txn, inst')" "tm_txn_map (in_txn_manager inst') txn = Some t"
      "\<And>w. w = P_ins_init txn \<or> w = P_sel_init txn \<or> (\<exists>a. w = P_done a) \<Longrightarrow> crew fd blocks phase (Suc n) (inst', ws[i := w])"
    using crew_begin [OF c i pc n] by blast
  obtain r inst1 where d: "do_create inst = (r, inst1)" by fastforce
  show ?thesis
    using B table_step [OF c i pc d] d crew_done [OF c i] by (auto simp: kept_by_step_def pc wsteps do_begin_def)
qed

lemma init_step:
  assumes c: "crew fd blocks phase n (inst, ws)" and i: "i < length ws" and pc: "ws ! i = P_ins_init t \<or> ws ! i = P_sel_init t"
  shows "kept_by_step fd blocks phase os ndebug n inst ws i"
proof (cases "cat_dir (in_catalog inst) ''users''")
  case None
  then have "GetTable ''users'' (in_catalog inst) = Inr None" using crewD(4) [OF c i] by (intro tables.get_dir) (auto simp: managers_ok_def)
  then show ?thesis using pc crew_done [OF c i] by (auto simp: kept_by_step_def wsteps finish_thrown)
next
  case (Some ti)
  note T = table_known [OF c i Some]
  have "worker_ok inst (P_ins_read t (ti_id ti))" "worker_ok inst (P_sel_read t (ti_id ti))"
    using crewD(5) [OF c i] pc Some by (auto simp: worker_ok_def)
  then show ?thesis using pc T crew_same [OF c i] by (auto simp: kept_by_step_def wsteps)
qed

lemma read_step:
  assumes c: "crew fd blocks phase n (inst, ws)" and i: "i < length ws" and pc: "ws ! i = P_ins_read t p \<or> ws ! i = P_sel_read t p"
  shows "kept_by_step fd blocks phase os ndebug n inst ws i"
proof -
  have tab: "pc_table (ws ! i) = Some p" using pc by auto
  obtain ti where T: "cat_dir (in_catalog inst) ''users'' = Some ti" "ti_id ti = p" "table_at p (in_catalog inst) = Inr ti"
      "ti_first_page_id ti = INVALID_PAGE_ID \<or> unat (ti_first_page_id ti) < unat (next_id (in_bpm inst))"
    using own_table [OF c i tab] by blast
  have "worker_ok inst (P_ins_new t p)" "ti_first_page_id ti \<noteq> INVALID_PAGE_ID \<Longrightarrow> worker_ok inst (P_ins_fetch t p (ti_first_page_id ti))"
      "worker_ok inst (P_sel_next t (ti_first_page_id ti) 0 0)"
    if "pc_txn (ws ! i) = Some t"
    using crewD(5) [OF c i] T(1,2,4) that by (auto simp: worker_ok_def split: if_splits)
  moreover have txn: "pc_txn (ws ! i) = Some t" using pc by auto
  ultimately have W: "worker_ok inst (P_ins_new t p)" "ti_first_page_id ti \<noteq> INVALID_PAGE_ID \<Longrightarrow> worker_ok inst (P_ins_fetch t p (ti_first_page_id ti))"
      "worker_ok inst (P_sel_next t (ti_first_page_id ti) 0 0)" by blast+
  have keep: "crew fd blocks phase (Suc n) (inst, ws[i := w])" if "worker_ok inst w" "hold_pid w = None" "pc_txn w = Some t" "writing w" for w
    using pc that by (intro crew_same [OF c i that(1)]) auto
  from pc show ?thesis
  proof
    assume pc: "ws ! i = P_ins_read t p"
    show ?thesis using T(3) keep [OF W(1)] keep [OF W(2)] by (simp add: kept_by_step_def pc wsteps)
  next
    assume pc: "ws ! i = P_sel_read t p"
    show ?thesis using T(3) keep [OF W(3)] by (simp add: kept_by_step_def pc wsteps)
  qed
qed

lemma link_step:
  assumes c: "crew fd blocks phase n (inst, ws)" and i: "i < length ws" and pc: "ws ! i = P_ins_link t p pid f"
  shows "kept_by_step fd blocks phase os ndebug n inst ws i"
proof -
  obtain ti where T: "cat_dir (in_catalog inst) ''users'' = Some ti" "ti_id ti = p" "ti_schema ti = Schema_ctor users_columns"
    using own_table [OF c i, of p] pc by auto
  have cat: "cat_inv (in_catalog inst)" using crewD(4) [OF c i] by (simp add: managers_ok_def)
  note U = update_first_page_dir [OF cat T(1), of pid]
  have "unat pid < unat (next_id (in_bpm inst))" using crewD(5) [OF c i] pc by (simp add: worker_ok_def)
  then have "crew fd blocks phase (Suc n) (inst\<lparr>in_catalog := update_first_page (ti_id ti) pid (in_catalog inst)\<rparr>, ws[i := P_ins_format t p pid f 0])"
    using T by (intro crew_catalog [OF c i U]) (simp_all add: pc UpdateFirstPageId_def)
  then show ?thesis using T(2) by (simp add: kept_by_step_def pc wsteps)
qed

text \<open>The page a worker holds is a table page.\<close>

lemma held_page:
  assumes "crew fd blocks phase n (inst, ws)" and "i < length ws" and "hold_frame (ws ! i) = Some (pid, f)"
  shows "table_page (p_data (bp_pages (in_bpm inst) ! f))"
proof -
  have "hold_pid (ws ! i) = Some pid" "pc_page (ws ! i) = Some pid" using assms(3) by (cases "ws ! i"; simp)+
  then have "bp_page_table (in_bpm inst) pid = Some f" "unat pid < unat (next_id (in_bpm inst))"
    using crewD(5) [OF assms(1,2)] assms(3) by (auto simp: worker_ok_def)
  then show ?thesis using crewD(4) [OF assms(1,2)] by (force simp: managers_ok_def contents_def)
qed

lemma log_step:
  assumes c: "crew fd blocks phase n (inst, ws)" and i: "i < length ws" and pc: "ws ! i = P_ins_log t pid f rid row"
  shows "kept_by_step fd blocks phase os ndebug n inst ws i"
proof -
  obtain tx where tx: "tm_txn_map (in_txn_manager inst) t = Some tx" "tx_state tx = ACTIVE"
    using crewD(5) [OF c i] pc by (auto simp: worker_ok_def active_def)
  have tm: "tm_inv (in_txn_manager inst)" using crewD(4) [OF c i] by (simp add: managers_ok_def)
  obtain lsn inst' where l: "log_insert t (LogRecord_insert_ctor (tx_txn_id tx) (GetLSN (bp_pages (in_bpm inst) ! f)) LR_INSERT rid row) inst = (lsn, inst')"
    by fastforce
  note L = log_insert_inv [OF tm tx(1) l]
  have "active inst' txn" if "active inst txn" "txn \<noteq> t" for txn using that log_insert_other [OF l, of txn] by (simp add: active_def)
  moreover have "active inst' t" using L(5) tx(2) by (simp add: active_def AppendWriteSet_def)
  ultimately have "crew fd blocks phase (Suc n) (inst', ws[i := P_ins_lsn t pid f lsn])"
    using L by (intro crew_txn [OF c i L(2,3,1)]) (auto simp: pc)
  then show ?thesis using tx l by (simp add: kept_by_step_def pc wsteps)
qed

lemma commit_step:
  assumes c: "crew fd blocks phase n (inst, ws)" and i: "i < length ws" and pc: "ws ! i = P_commit t a"
  shows "kept_by_step fd blocks phase os ndebug n inst ws i"
proof -
  obtain tx where tx: "tm_txn_map (in_txn_manager inst) t = Some tx" "tx_state tx = ACTIVE"
    using crewD(5) [OF c i] pc by (auto simp: worker_ok_def active_def)
  have tm: "tm_inv (in_txn_manager inst)" using crewD(4) [OF c i] by (simp add: managers_ok_def)
  obtain inst' where C: "commit_txn t inst = (Inr (), inst')" "in_bpm inst' = in_bpm inst" "in_catalog inst' = in_catalog inst"
      "tm_inv (in_txn_manager inst')" "tm_next_txn_id (in_txn_manager inst') = tm_next_txn_id (in_txn_manager inst)"
    using commit_txn_ok [OF tm tx] by blast
  have "active inst' txn" if "active inst txn" "txn \<noteq> t" for txn using that commit_other [OF C(1), of txn] by (simp add: active_def)
  then have "crew fd blocks phase (Suc n) (inst', ws[i := P_done a])"
    using C(5) by (intro crew_txn [OF c i C(2,3,4)]) (auto simp: pc)
  then show ?thesis using C(1) by (simp add: kept_by_step_def pc wsteps)
qed

lemma look_step:
  assumes c: "crew fd blocks phase n (inst, ws)" and i: "i < length ws"
    and pc: "ws ! i = P_sel_look t pid f slot cnt \<or> ws ! i = P_sel_get t pid f slot cnt g"
  shows "kept_by_step fd blocks phase os ndebug n inst ws i"
proof -
  let ?p = "bp_pages (in_bpm inst) ! f"
  have h: "hold_frame (ws ! i) = Some (pid, f)" "hold_pid (ws ! i) = Some pid" "pc_txn (ws ! i) = Some t" "\<not> writing (ws ! i)" "pc_page (ws ! i) = Some pid"
    using pc by auto
  have keep: "crew fd blocks phase (Suc n) (inst, ws[i := w])"
    if "pc_local w" "hold_pid w = Some pid" "hold_frame w = None \<or> hold_frame w = Some (pid, f)" "pc_txn w = Some t" "pc_table w = None" "pc_page w = Some pid" for w
  proof (rule crew_same [OF c i])
    show "worker_ok inst w" using crewD(5) [OF c i] that h by (auto simp: worker_ok_def)
  qed (use that h in simp_all)
  from pc show ?thesis
  proof
    assume pc: "ws ! i = P_sel_look t pid f slot cnt"
    show ?thesis using keep by (simp add: kept_by_step_def pc wsteps)
  next
    assume pc: "ws ! i = P_sel_get t pid f slot cnt g"
    have "get_ok g" using crewD(5) [OF c i] pc by (simp add: worker_ok_def)
    note G = get_next_holds [OF get_access [OF held_page [OF c i h(1)] this], of t pid f slot cnt]
    show ?thesis using keep [OF G(4,1,3,2,5,6)] by (simp add: kept_by_step_def pc wsteps)
  qed
qed

text \<open>The row to insert: its size is that of the schema.\<close>

lemma row_step:
  assumes c: "crew fd blocks phase n (inst, ws)" and i: "i < length ws" and pc: "ws ! i = P_ins_row t p pid f"
  shows "kept_by_step fd blocks phase os ndebug n inst ws i"
proof -
  obtain ti where T: "table_at p (in_catalog inst) = Inr ti" "ti_schema ti = Schema_ctor users_columns" using own_table [OF c i, of p] pc by auto
  have "worker_ok inst (P_ins_put t pid f user_row (I_count user_row))" using crewD(5) [OF c i] pc by (auto simp: worker_ok_def)
  then have "crew fd blocks phase (Suc n) (inst, ws[i := P_ins_put t pid f user_row (I_count user_row)])" by (rule crew_same [OF c i]) (simp_all add: pc)
  then show ?thesis using T by (simp add: kept_by_step_def pc wsteps users_schema_size Let_def flip: user_row_def)
qed

context reliable_device
begin

text \<open>The steps that change the page.\<close>

lemma page_step:
  assumes c: "crew fd blocks phase n (inst, ws)" and i: "i < length ws"
    and pc: "ws ! i = P_ins_format t p pid f k \<or> ws ! i = P_ins_put t pid f row acc \<or> ws ! i = P_ins_lsn t pid f lsn"
  shows "kept_by_step fd blocks phase os ndebug n inst ws i"
proof -
  let ?p = "bp_pages (in_bpm inst) ! f"
  have h: "hold_frame (ws ! i) = Some (pid, f)" "writing (ws ! i)" "pc_txn (ws ! i) = Some t" "pc_page (ws ! i) = Some pid" using pc by auto
  note page = held_page [OF c i h(1)]
  have put: "crew fd blocks phase (Suc n) (set_page f pg inst, ws[i := w])"
    if "table_page (p_data pg)" "p_page_id pg = p_page_id ?p" "p_pin_count pg = p_pin_count ?p"
      "worker_ok inst w" "hold_pid w = Some pid" "writing w" "pc_txn w = Some t" for pg w
    using crew_write [OF c i h(1,2)] that h(3) by simp
  from pc show ?thesis
  proof (elim disjE)
    assume pc: "ws ! i = P_ins_format t p pid f k"
    have "worker_ok inst (P_ins_row t p pid f)" "worker_ok inst (P_ins_format t p pid f (Suc k))" using crewD(5) [OF c i] pc by (auto simp: worker_ok_def)
    then show ?thesis using put [OF format_access_ok [OF page] format_access_meta] by (simp add: kept_by_step_def pc wsteps)
  next
    assume pc: "ws ! i = P_ins_put t pid f row acc"
    obtain acc' pg where I: "istep (acc, ?p) = (acc', pg)" by fastforce
    have acc: "put_ok acc" using crewD(5) [OF c i] pc by (simp add: worker_ok_def)
    have pg: "table_page (p_data pg)" "put_ok acc'" using put_access [OF page acc I] by simp_all
    note N = put_next_holds [OF pg(2), of t pid f row]
    have "worker_ok inst (put_next t pid f row acc')" using crewD(5) [OF c i] N h by (auto simp: worker_ok_def)
    then show ?thesis using I put [OF pg(1)] istep_meta [OF I] N by (simp add: kept_by_step_def pc wsteps)
  next
    assume pc: "ws ! i = P_ins_lsn t pid f lsn"
    have "worker_ok inst (P_ins_unpin t pid)" using crewD(5) [OF c i] pc by (auto simp: worker_ok_def)
    then show ?thesis using put [OF table_page_lsn [OF page, of lsn]] by (simp add: kept_by_step_def pc wsteps header_meta)
  qed
qed

lemma fetch_step:
  assumes c: "crew fd blocks phase n (inst, ws)" and i: "i < length ws" and pc: "ws ! i = P_ins_fetch t p pid \<or> ws ! i = P_sel_next t pid slot cnt"
  shows "kept_by_step fd blocks phase os ndebug n inst ws i"
proof (cases "pc_page (ws ! i)")
  case None
  then have none: "ws ! i = P_sel_next t pid slot cnt" "pid = INVALID_PAGE_ID" using pc by (auto split: if_splits)
  have "worker_ok inst (P_commit t (selected_text cnt))" using crewD(5) [OF c i] none by (auto simp: worker_ok_def)
  then have "crew fd blocks phase (Suc n) (inst, ws[i := P_commit t (selected_text cnt)])" by (rule crew_same [OF c i]) (simp_all add: none)
  then show ?thesis using none by (simp add: kept_by_step_def wsteps)
next
  case (Some q)
  then have q: "q = pid" "ws ! i = P_sel_next t pid slot cnt \<Longrightarrow> pid \<noteq> INVALID_PAGE_ID" using pc by (auto split: if_splits)
  have h: "hold_pid (ws ! i) = None" "unat pid < unat (next_id (in_bpm inst))" using pc Some q crewD(5) [OF c i] by (auto simp: worker_ok_def)
  obtain f s where F: "FetchPage os pid (in_bpm inst) = (Inr (Some f), s)"
      "\<And>w. hold_frame w = Some (pid, f) \<Longrightarrow> pc_page w = Some pid \<Longrightarrow> pc_txn w = pc_txn (ws ! i) \<Longrightarrow> pc_table w = None \<or> pc_table w = pc_table (ws ! i)
         \<Longrightarrow> pc_local w \<Longrightarrow> crew fd blocks phase (Suc n) (inst\<lparr>in_bpm := s\<rparr>, ws[i := w])"
    using crew_fetch [OF c i h] by blast
  show ?thesis using pc q F(1) F(2) [of "P_ins_row t p pid f"] F(2) [of "P_sel_look t pid f slot cnt"] by (auto simp: kept_by_step_def wsteps)
qed

lemma unpin_step:
  assumes c: "crew fd blocks phase n (inst, ws)" and i: "i < length ws" and pc: "ws ! i = P_ins_unpin t pid \<or> ws ! i = P_sel_unpin t pid again slot cnt"
  shows "kept_by_step fd blocks phase os ndebug n inst ws i"
proof -
  have h: "hold_pid (ws ! i) = Some pid" "pc_txn (ws ! i) = Some t" using pc by auto
  obtain inst' where U: "unpin ndebug pid (writing (ws ! i)) inst = (Inr True, inst')"
      "\<And>w. hold_pid w = None \<Longrightarrow> pc_page w = None \<or> pc_page w = Some pid \<Longrightarrow> hold_frame w = None \<Longrightarrow> pc_table w = None \<Longrightarrow> pc_txn w = pc_txn (ws ! i)
         \<Longrightarrow> pc_local w \<Longrightarrow> crew fd blocks phase (Suc n) (inst', ws[i := w])"
    using crew_unpin [OF c i h(1) refl] by blast
  show ?thesis
    using pc U(1) U(2) [of "P_commit t inserted_text"] U(2) [of "P_commit t (selected_text cnt)"] U(2) [of "P_sel_next t pid slot (cnt + 1)"] h(2)
    by (auto simp: kept_by_step_def wsteps)
qed

lemma crew_step:
  assumes c: "crew fd blocks phase n (inst, ws)" and i: "i < length ws" and n: "n < 2 ^ 32 - 1"
  shows "kept_by_step fd blocks phase os ndebug n inst ws i"
proof (cases "ws ! i")
  case (P_ins_new t p)
  then show ?thesis using crew_new [OF c i P_ins_new n] by (auto simp: kept_by_step_def wsteps)
next
  case (P_done a)
  then show ?thesis using crew_done [OF c i, of a] by (simp add: kept_by_step_def wsteps)
next
  case (P_dead e)
  then show ?thesis using crewD(5) [OF c i] by (simp add: worker_ok_def)
qed (erule start_step [OF c i _ n] link_step [OF c i] log_step [OF c i] commit_step [OF c i] row_step [OF c i]
    | rule read_step [OF c i], (erule disjI1 | erule disjI2) | rule look_step [OF c i], (erule disjI1 | erule disjI2)
    | rule init_step [OF c i], (erule disjI1 | erule disjI2) | rule fetch_step [OF c i], (erule disjI1 | erule disjI2)
    | rule unpin_step [OF c i], (erule disjI1 | erule disjI2) | rule page_step [OF c i], (erule disjI1 | rule disjI2, erule disjI1 | rule disjI2, erule disjI2))+

end

section \<open>The thread pool\<close>

text \<open>The workers of \<open>Run\<close>: one of them takes its next step, or takes the next request when it has answered the last one.\<close>

inductive work :: "'d os \<Rightarrow> bool \<Rightarrow> 'd sting_instance \<times> pc list \<Rightarrow> 'd sting_instance \<times> pc list \<Rightarrow> bool" for os ndebug where
  step: "i < length ws \<Longrightarrow> wstep os ndebug (ws ! i, inst) = (w, inst') \<Longrightarrow> work os ndebug (inst, ws) (inst', ws[i := w])"
| request: "i < length ws \<Longrightarrow> ws ! i = P_done a \<Longrightarrow> work os ndebug (inst, ws) (inst, ws[i := P_start q])"

inductive_cases workE: "work os ndebug c c'"

lemma crew_idle:
  assumes "phase (dm_ring dm) = Idle" and "dm_fd dm = fd" and "dm_next_page_id dm = 0" and "k \<le> m" and "k < 2 ^ 31"
  shows "crew fd blocks phase 0 (StingInstance_ctor (BufferPoolManager_ctor m dm), replicate k (P_done a))"
proof -
  have "pins_of (replicate k (P_done a)) = (\<lambda>_. 0)" "written_by (replicate k (P_done a)) = {}" by (auto simp: pins_of_def written_by_def)
  then have "shared fd blocks phase (pins_of (replicate k (P_done a))) (written_by (replicate k (P_done a))) (BufferPoolManager_ctor m dm)"
    using shared_ctor [of phase dm fd blocks m, OF assms(1,2)] by simp
  then show ?thesis
    using assms(3-5) tm_inv_ctor [of LogManager_ctor]
    by (auto simp: crew_def managers_ok_def worker_ok_def StingInstance_ctor_def cat_inv_def cat_room_def cat_dir_def CatalogManager_ctor_def
      TransactionManager_ctor_def BufferPoolManager_ctor_def)
qed

context reliable_device
begin

lemma crew_work:
  assumes "work os ndebug (inst, ws) (inst', ws')" and c: "crew fd blocks phase n (inst, ws)" and n: "n < 2 ^ 32 - 1"
  shows "crew fd blocks phase (Suc n) (inst', ws')"
  using assms(1)
proof (cases rule: work.cases)
  case (step i w)
  then show ?thesis using crew_step [OF c step(2) n, of ndebug] by (simp add: kept_by_step_def)
next
  case (request i a q)
  then show ?thesis using crew_same [OF c request(3), of "P_start q"] by (simp add: worker_ok_def)
qed

lemma crew_works:
  assumes "(work os ndebug ^^ n) (inst0, ws0) (inst, ws)" and "crew fd blocks phase 0 (inst0, ws0)" and "n < 2 ^ 32 - 1"
  shows "crew fd blocks phase n (inst, ws)"
  using assms
proof (induction n arbitrary: inst ws)
  case (Suc n)
  then obtain inst1 ws1 where "(work os ndebug ^^ n) (inst0, ws0) (inst1, ws1)" "work os ndebug (inst1, ws1) (inst, ws)" by auto
  then show ?case using Suc.IH [of inst1 ws1] crew_work Suc.prems by simp
qed simp

end

text \<open>Any number of workers share the instance, each serves one request after the other, and their steps interleave in any order.  When
  there are at least as many frames as workers, then after any number of steps below \<open>2\<^sup>3\<^sup>2 - 1\<close>: no worker has
  run into undefined behaviour; the page a worker holds is still in the frame its pointer refers to; every page has exactly as many
  pins as workers hold it, so none is leaked or given back twice; the buffer pool and the transaction manager keep
  their invariants.\<close>

theorem workers_safe:
  assumes "reliable_device os fd blocks phase wait" and "phase (dm_ring dm) = Idle" and "dm_fd dm = fd" and "dm_next_page_id dm = 0"
    and "k \<le> m" and "k < 2 ^ 31" and "n < 2 ^ 32 - 1"
    and "(work os ndebug ^^ n) (StingInstance_ctor (BufferPoolManager_ctor m dm), replicate k (P_done [])) (inst, ws)"
  shows "length ws = k
    \<and> (\<forall>w \<in> set ws. (\<forall>e. w \<noteq> P_dead e) \<and> (\<forall>pid f. hold_frame w = Some (pid, f) \<longrightarrow> bp_page_table (in_bpm inst) pid = Some f))
    \<and> pins (in_bpm inst) = pins_of ws \<and> pool_inv (in_bpm inst) \<and> tm_inv (in_txn_manager inst)"
proof -
  have "crew fd blocks phase n (inst, ws)"
    using reliable_device.crew_works [OF assms(1,8) crew_idle [of phase, OF assms(2-6)] assms(7)] .
  moreover have "length (snd c') = length (snd c)" if "(work os ndebug ^^ j) c c'" for j c c'
    using that by (induction j arbitrary: c') (auto elim!: workE)
  then have "length ws = k" using assms(8) by fastforce
  ultimately show ?thesis by (auto simp: crew_def shared_def managers_ok_def worker_ok_def)
qed

text \<open>Two workers on the simulated device: both take a request before either is answered.\<close>

theorem workers_safe_witness:
  "\<exists>inst ws. (work sim_os False ^^ 4) (StingInstance_ctor (fresh_pool 2), replicate 2 (P_done [])) (inst, ws)
    \<and> ws = [P_done (''Success: Table '' @ users_quoted @ '' created.'' @ newline), P_ins_init 1]
    \<and> pins (in_bpm inst) = pins_of ws \<and> pool_inv (in_bpm inst) \<and> tm_inv (in_txn_manager inst)"
proof -
  let ?i = "StingInstance_ctor (fresh_pool 2)" and ?a = "''Success: Table '' @ users_quoted @ '' created.'' @ newline"
  have 1: "work sim_os False (?i, replicate 2 (P_done [])) (?i, [P_start ''CREATE TABLE'', P_done []])"
    using work.request [of 0 "replicate 2 (P_done [])" "[]" sim_os False ?i "''CREATE TABLE''"] by (simp add: numeral_2_eq_2)
  have 2: "work sim_os False (?i, [P_start ''CREATE TABLE'', P_done []]) (?i, [P_start ''CREATE TABLE'', P_start ''INSERT''])"
    using work.request [of 1 "[P_start ''CREATE TABLE'', P_done []]" "[]" sim_os False ?i "''INSERT''"] by simp
  obtain inst1 where d: "do_create ?i = (Inr ?a, inst1)" "in_txn_manager inst1 = in_txn_manager ?i"
    by (simp add: do_create_def BindCreateTable_def CreateTable_def StingInstance_ctor_def CatalogManager_ctor_def)
  have 3: "work sim_os False (?i, [P_start ''CREATE TABLE'', P_start ''INSERT'']) (inst1, [P_done ?a, P_start ''INSERT''])"
    using work.step [of 0 "[P_start ''CREATE TABLE'', P_start ''INSERT'']" sim_os False ?i "P_done ?a" inst1] d(1)
    by (simp add: wsteps has_prefix_def)
  obtain inst where b: "begin_txn inst1 = (Inr 1, inst)"
    using begin_txn_ok [of inst1 1] tm_inv_ctor [of LogManager_ctor] d(2) by (auto simp: StingInstance_ctor_def TransactionManager_ctor_def)
  have 4: "work sim_os False (inst1, [P_done ?a, P_start ''INSERT'']) (inst, [P_done ?a, P_ins_init 1])"
    using work.step [of 1 "[P_done ?a, P_start ''INSERT'']" sim_os False inst1 "P_ins_init 1" inst] b by (simp add: wsteps has_prefix_def)
  have run: "(work sim_os False ^^ 4) (?i, replicate 2 (P_done [])) (inst, [P_done ?a, P_ins_init 1])"
    using 1 2 3 4 by (auto simp: numeral_eq_Suc)
  then show ?thesis
    using workers_safe [OF reliable_sim.reliable_device_axioms _ _ _ _ _ _ run [unfolded fresh_pool_def]]
    by (auto simp: fresh_device_def)
qed

end
