(* ===== verification/Progress.thy ===== *)
theory Progress
  imports Workers
begin

text \<open>
  Every request is answered: whatever the other workers do, a worker reaches the answer after at most 13873 steps of its own.
  The measure \<open>steps_left\<close> bounds what is left of a request.  A scan reads at most 1980 slots (\<open>row_limit\<close>), seven steps each; a page
  has no room for more, even when inserts that interrupt each other store fewer rows than they count.
\<close>

section \<open>Schedules\<close>

text \<open>A schedule is a list of events: worker \<open>i\<close> takes a step, or an idle worker \<open>i\<close> gets a request.  Events of workers that do not
  exist, and requests for busy workers, change nothing.\<close>

datatype event = Step nat | Request nat string

fun act :: "'d os \<Rightarrow> bool \<Rightarrow> event \<Rightarrow> 'd sting_instance \<times> pc list \<Rightarrow> 'd sting_instance \<times> pc list" where
  "act os ndebug (Step i) (inst, ws) =
     (if i < length ws then case wstep os ndebug (ws ! i, inst) of (w, inst') \<Rightarrow> (inst', ws[i := w]) else (inst, ws))"
| "act os ndebug (Request i q) (inst, ws) =
     (if i < length ws \<and> (\<exists>a. ws ! i = P_done a) then (inst, ws[i := P_start q]) else (inst, ws))"

fun schedule :: "'d os \<Rightarrow> bool \<Rightarrow> event list \<Rightarrow> 'd sting_instance \<times> pc list \<Rightarrow> 'd sting_instance \<times> pc list" where
  "schedule os ndebug [] c = c"
| "schedule os ndebug (e # es) c = schedule os ndebug es (act os ndebug e c)"

lemma act_work: "act os ndebug e c = c \<or> work os ndebug c (act os ndebug e c)"
  by (cases "(os, ndebug, e, c)" rule: act.cases) (auto intro: work.intros split: prod.split)

section \<open>What is left of a request\<close>

fun put_left :: "ipc \<Rightarrow> nat" where
  "put_left (I_count t) = 12"
| "put_left (I_free t c) = 11"
| "put_left (I_set_free t c f) = 10"
| "put_left (I_data t c f) = 9"
| "put_left (I_slot_offset t c f) = 8"
| "put_left (I_slot_size t c f) = 7"
| "put_left (I_set_count c) = 6"
| "put_left (I_dirty c) = 5"
| "put_left (I_done r) = 5"
| "put_left (I_dead e) = 5"

fun get_left :: "gpc \<Rightarrow> nat" where
  "get_left (G_count r) = 8"
| "get_left (G_offset r) = 7"
| "get_left (G_size r off) = 6"
| "get_left (G_data off n) = 5"
| "get_left (G_done d) = 5"
| "get_left (G_dead e) = 5"

definition request_steps :: nat where
  "request_steps = 7 * (row_limit + 1) + 6"

lemma request_steps_pos [simp]: "0 < request_steps"
  by (simp add: request_steps_def)

definition scan_left :: "u32 \<Rightarrow> nat" where
  "scan_left slot = 7 * (row_limit - unat slot)"

fun steps_left :: "pc \<Rightarrow> nat" where
  "steps_left (P_start q) = request_steps"
| "steps_left (P_ins_init t) = 21"
| "steps_left (P_ins_read t p) = 20"
| "steps_left (P_ins_new t p) = 19"
| "steps_left (P_ins_link t p pid f) = 18"
| "steps_left (P_ins_format t p pid f k) = 14 + (3 - k)"
| "steps_left (P_ins_fetch t p pid) = 14"
| "steps_left (P_ins_row t p pid f) = 13"
| "steps_left (P_ins_put t pid f row i) = put_left i"
| "steps_left (P_ins_log t pid f rid row) = 4"
| "steps_left (P_ins_lsn t pid f lsn) = 3"
| "steps_left (P_ins_unpin t pid) = 2"
| "steps_left (P_sel_init t) = 7 * (row_limit + 1) + 5"
| "steps_left (P_sel_read t p) = 7 * (row_limit + 1) + 4"
| "steps_left (P_sel_next t pid slot cnt) = scan_left slot + 10"
| "steps_left (P_sel_look t pid f slot cnt) = scan_left slot + 9"
| "steps_left (P_sel_get t pid f slot cnt g) = scan_left slot + get_left g"
| "steps_left (P_sel_unpin t pid again slot cnt) = (if again then scan_left slot + 11 else 2)"
| "steps_left (P_commit t a) = 1"
| "steps_left (P_done a) = 0"
| "steps_left (P_dead e) = 0"

text \<open>A scan is at a slot of a page of rows.\<close>

fun in_page :: "pc \<Rightarrow> bool" where
  "in_page (P_sel_next t pid slot cnt) = (unat slot \<le> row_limit)"
| "in_page (P_sel_look t pid f slot cnt) = (unat slot \<le> row_limit)"
| "in_page (P_sel_get t pid f slot cnt g) = (unat slot < row_limit)"
| "in_page (P_sel_unpin t pid again slot cnt) = (unat slot \<le> row_limit)"
| "in_page _ = True"

lemma finish_end [simp]: "steps_left (finish r) = 0" "in_page (finish r)"
  by (cases r; simp add: finish.simps split: option.split)+

lemma next_slot:
  assumes "unat slot < row_limit"
  shows "unat (slot + 1) = Suc (unat slot)" "scan_left slot = scan_left (slot + 1) + 7" "unat (slot + 1) \<le> row_limit"
proof -
  show s: "unat (slot + 1) = Suc (unat slot)" using assms by (simp add: unat_word_ariths row_limit_def)
  show "scan_left slot = scan_left (slot + 1) + 7" using assms unfolding scan_left_def s by simp
  show "unat (slot + 1) \<le> row_limit" using assms unfolding s by simp
qed

lemma put_decreases: "istep (i, p) = (i', p') \<Longrightarrow> steps_left (put_next t pid f row i') < put_left i \<and> in_page (put_next t pid f row i')"
  by (cases i; cases "(t, pid, f, row, i')" rule: put_next.cases) (auto simp: Let_def split: if_splits sum.splits)

lemma get_decreases:
  assumes "unat slot < row_limit"
  shows "steps_left (get_next t pid f slot cnt (gstep p g)) < scan_left slot + get_left g \<and> in_page (get_next t pid f slot cnt (gstep p g))"
  using next_slot [OF assms] assms by (cases g) (auto simp: Let_def split: sum.splits)

lemma step_decreases:
  assumes c: "crew fd blocks phase n (inst, ws)" and i: "i < length ws" and s: "wstep os ndebug (ws ! i, inst) = (w, inst')"
    and p: "in_page (ws ! i)" and b: "0 < steps_left (ws ! i)"
  shows "steps_left w < steps_left (ws ! i) \<and> in_page w"
proof (cases "ws ! i")
  case (P_start q)
  then show ?thesis using s by (auto simp: wsteps request_steps_def row_limit_def split: if_splits sum.splits prod.splits)
next
  case (P_ins_put t pid f row acc)
  obtain acc' pg where "istep (acc, bp_pages (in_bpm inst) ! f) = (acc', pg)" by fastforce
  then show ?thesis using s P_ins_put put_decreases by (auto simp: wsteps)
next
  case (P_sel_read t p)
  then show ?thesis using s by (auto simp: wsteps scan_left_def split: sum.splits)
next
  case (P_sel_look t pid f slot cnt)
  let ?n = "GetTupleCount (bp_pages (in_bpm inst) ! f)"
  have le: "unat ?n \<le> row_limit" using table_page_count held_page [OF c i] P_sel_look by simp
  show ?thesis
  proof (cases "ucast ?n \<le> slot")
    case True
    then show ?thesis using s P_sel_look p by (auto simp: wsteps)
  next
    case False
    then have "unat slot < row_limit" using le unat_ucast_up [of ?n] by (simp add: word_le_nat_alt)
    then show ?thesis using s P_sel_look False by (auto simp: wsteps)
  qed
next
  case (P_sel_get t pid f slot cnt g)
  then show ?thesis using s p get_decreases [of slot t pid f cnt "bp_pages (in_bpm inst) ! f" g] by (auto simp: wsteps)
next
  case (P_sel_unpin t pid again slot cnt)
  then show ?thesis using s p by (auto simp: wsteps split: if_splits sum.splits prod.splits)
next
  case (P_done a)
  then show ?thesis using b by simp
next
  case (P_dead e)
  then show ?thesis using b by simp
qed (use s p b in \<open>auto simp: wsteps Let_def split: if_splits sum.splits option.splits prod.splits\<close>)

lemma no_steps_left: "steps_left w = 0 \<Longrightarrow> (\<exists>a. w = P_done a) \<or> (\<exists>e. w = P_dead e)"
proof (cases w)
  case (P_ins_put t pid f row i)
  then show "steps_left w = 0 \<Longrightarrow> ?thesis" by (cases i) simp_all
next
  case (P_sel_get t pid f slot cnt g)
  then show "steps_left w = 0 \<Longrightarrow> ?thesis" by (cases g) simp_all
qed (auto simp: request_steps_def split: if_splits)

lemma left_bounds: "put_left i \<le> 12" "get_left g \<le> 8" "scan_left slot \<le> 7 * row_limit"
proof -
  show "put_left i \<le> 12" by (cases i) simp_all
  show "get_left g \<le> 8" by (cases g) simp_all
  show "scan_left slot \<le> 7 * row_limit" by (simp add: scan_left_def)
qed

lemma steps_left_bound: "steps_left w \<le> request_steps"
proof (cases w)
  case (P_ins_put t pid f row i)
  then show ?thesis using left_bounds(1) [of i] by (simp add: request_steps_def)
next
  case (P_sel_get t pid f slot cnt g)
  then show ?thesis using left_bounds(2) [of g] left_bounds(3) [of slot] by (simp add: request_steps_def)
next
  case (P_sel_unpin t pid again slot cnt)
  then show ?thesis using left_bounds(3) [of slot] by (simp add: request_steps_def)
next
  case (P_sel_next t pid slot cnt)
  then show ?thesis using left_bounds(3) [of slot] by (simp add: request_steps_def)
next
  case (P_sel_look t pid f slot cnt)
  then show ?thesis using left_bounds(3) [of slot] by (simp add: request_steps_def)
qed (simp_all add: request_steps_def row_limit_def)

section \<open>Runs\<close>

lemma crew_wait: "crew fd blocks phase n c \<Longrightarrow> crew fd blocks phase (Suc n) c"
  by (cases c) (auto simp: crew_def managers_mono)

lemma length_act [simp]: "length (snd (act os ndebug e c)) = length (snd c)"
  by (cases "(os, ndebug, e, c)" rule: act.cases) (auto split: prod.split)

lemma length_schedule: "length (snd (schedule os ndebug es c)) = length (snd c)"
  by (induction es arbitrary: c) simp_all

lemma act_other: "e \<noteq> Step i \<Longrightarrow> \<forall>q. e \<noteq> Request i q \<Longrightarrow> snd (act os ndebug e c) ! i = snd c ! i"
  by (cases "(os, ndebug, e, c)" rule: act.cases) (auto split: prod.split)

context reliable_device
begin

lemma crew_act:
  assumes "crew fd blocks phase n c" and "n < 2 ^ 32 - 1"
  shows "crew fd blocks phase (Suc n) (act os ndebug e c)"
  using act_work [of os ndebug e c] crew_wait [OF assms(1)] crew_work [OF _ _ assms(2), of ndebug] assms(1)
  by (metis prod.collapse)

lemma act_own:
  assumes c: "crew fd blocks phase n c" and i: "i < length (snd c)" and p: "in_page (snd c ! i)"
  shows "in_page (snd (act os ndebug (Step i) c) ! i) \<and> steps_left (snd (act os ndebug (Step i) c) ! i) \<le> steps_left (snd c ! i) - 1"
proof -
  obtain inst ws where cw: "c = (inst, ws)" by fastforce
  obtain w inst' where s: "wstep os ndebug (ws ! i, inst) = (w, inst')" by fastforce
  have act: "act os ndebug (Step i) c = (inst', ws[i := w])" using i s by (simp add: cw)
  show ?thesis
  proof (cases "steps_left (ws ! i)")
    case 0
    then consider a where "ws ! i = P_done a" | e where "ws ! i = P_dead e" using no_steps_left by blast
    then have "steps_left w = 0 \<and> in_page w"
    proof cases
      case (1 a)
      then have "w = P_done a" using s by (simp add: wsteps)
      then show ?thesis by simp
    next
      case (2 e)
      then have "w = P_dead e" using s by (simp add: wsteps)
      then show ?thesis by simp
    qed
    then show ?thesis using act i by (simp add: cw)
  next
    case (Suc k)
    then show ?thesis using step_decreases [where i = i and ws = ws, OF _ _ s] c i p act by (fastforce simp: cw)
  qed
qed

lemma act_in_page:
  assumes c: "crew fd blocks phase n c" and p: "\<forall>w \<in> set (snd c). in_page w"
  shows "\<forall>w \<in> set (snd (act os ndebug e c)). in_page w"
proof -
  have "in_page (snd (act os ndebug e c) ! j)" if j: "j < length (snd c)" for j
  proof (cases e)
    case (Step i)
    then show ?thesis using act_own [OF c j, of ndebug] act_other [of e j os ndebug c] p j by (cases "i = j") auto
  next
    case (Request i q)
    then show ?thesis using p j by (cases c; cases "i = j") auto
  qed
  then show ?thesis by (metis in_set_conv_nth length_act)
qed

lemma schedule_keeps:
  "crew fd blocks phase n c \<Longrightarrow> \<forall>w \<in> set (snd c). in_page w \<Longrightarrow> n + length es < 2 ^ 32 \<Longrightarrow>
   crew fd blocks phase (n + length es) (schedule os ndebug es c) \<and> (\<forall>w \<in> set (snd (schedule os ndebug es c)). in_page w)
   \<and> length (snd (schedule os ndebug es c)) = length (snd c)"
proof (induction es arbitrary: n c)
  case (Cons e es)
  have "crew fd blocks phase (Suc n) (act os ndebug e c)" using crew_act [OF Cons.prems(1)] Cons.prems(3) by simp
  from Cons.IH [OF this act_in_page [OF Cons.prems(1,2)]] show ?case using Cons.prems(3) by simp
qed simp

text \<open>A worker that gets as many steps as it has left is done.\<close>

lemma schedule_answers:
  assumes "crew fd blocks phase n c" and "i < length (snd c)" and "in_page (snd c ! i)" and "\<forall>q. Request i q \<notin> set es"
    and "n + length es < 2 ^ 32" and "steps_left (snd c ! i) \<le> count_list es (Step i)"
  shows "\<exists>a. snd (schedule os ndebug es c) ! i = P_done a"
  using assms
proof (induction es arbitrary: n c)
  case Nil
  obtain inst ws where c: "c = (inst, ws)" by fastforce
  then have "worker_ok inst (ws ! i)" using crewD(5) Nil.prems(1,2) by simp
  then show ?case using Nil.prems(6) c no_steps_left [of "ws ! i"] by (auto simp: worker_ok_def)
next
  case (Cons e es)
  let ?c = "act os ndebug e c"
  have c: "crew fd blocks phase (Suc n) ?c" using crew_act [OF Cons.prems(1)] Cons.prems(5) by simp
  have "in_page (snd ?c ! i) \<and> steps_left (snd ?c ! i) \<le> count_list es (Step i)"
  proof (cases "e = Step i")
    case True
    then show ?thesis using act_own [OF Cons.prems(1-3), of ndebug] Cons.prems(6) by auto
  next
    case False
    have "snd ?c ! i = snd c ! i" using False Cons.prems(4) by (intro act_other) auto
    then show ?thesis using Cons.prems(3,6) False by simp
  qed
  then show ?case using Cons.IH [OF c] Cons.prems(2,4,5) by simp
qed

end

section \<open>Property\<close>

text \<open>No worker waits for another: from any moment of any schedule, a worker that takes 13873 more steps has answered its request,
  whatever the other workers do in between, how many they are and which requests they get.\<close>

theorem requests_are_answered:
  assumes "reliable_device os fd blocks phase wait" and "phase (dm_ring dm) = Idle" and "dm_fd dm = fd" and "dm_next_page_id dm = 0"
    and "k \<le> m" and "k < 2 ^ 31" and "i < k" and "length es1 + length es2 < 2 ^ 32 - 1"
    and start: "c = schedule os ndebug es1 (StingInstance_ctor (BufferPoolManager_ctor m dm), replicate k (P_done []))"
    and more: "request_steps \<le> count_list es2 (Step i)" "\<forall>q. Request i q \<notin> set es2"
  shows "\<exists>a. snd (schedule os ndebug es2 c) ! i = P_done a"
proof -
  let ?c = "(StingInstance_ctor (BufferPoolManager_ctor m dm), replicate k (P_done []))"
  have "crew fd blocks phase (0 + length es1) c \<and> (\<forall>w \<in> set (snd c). in_page w) \<and> length (snd c) = length (snd ?c)"
    unfolding start by (rule reliable_device.schedule_keeps [OF assms(1) crew_idle [of phase, OF assms(2-6)]]) (use assms(8) in simp_all)
  then have c: "crew fd blocks phase (length es1) c" "in_page (snd c ! i)" "i < length (snd c)" using assms(7) by auto
  show ?thesis
    using reliable_device.schedule_answers [OF assms(1) c(1,3,2) more(2), of ndebug] steps_left_bound [of "snd c ! i"] more(1) assms(8) by simp
qed

text \<open>Two workers on the simulated device take their steps in turn; the second has a request.\<close>

theorem requests_are_answered_witness:
  "\<exists>a. snd (schedule sim_os False (concat (replicate request_steps [Step 0, Step 1]))
      (schedule sim_os False [Request 1 ''SELECT''] (StingInstance_ctor (fresh_pool 2), replicate 2 (P_done [])))) ! 1 = P_done a"
proof -
  have count: "count_list (concat (replicate n [Step 0, Step 1])) (Step 1) = n"
      "set (concat (replicate n [Step 0, Step 1])) \<subseteq> {Step 0, Step 1}" "length (concat (replicate n [Step 0, Step 1])) = 2 * n" for n :: nat
    by (induction n) auto
  show ?thesis
    unfolding fresh_pool_def
    by (rule requests_are_answered [OF reliable_sim.reliable_device_axioms, where k = 2 and m = 2 and i = 1])
      (use count [of request_steps] in \<open>auto simp: request_steps_def row_limit_def fresh_device_def simp del: schedule.simps\<close>)
qed

end
