(* ===== verification/Server_Main.thy ===== *)
theory Server_Main
  imports End_To_End
begin

text \<open>
  Start-up, from \<^verbatim>\<open>src/main.cpp\<close>: the data file is opened, the pool of 4096 frames and the instance are
  built, and requests are served.  The requests here are those of one connection, in order; all connections and
  all threads are in \<open>Thread_Pool\<close>.  An exception during start-up ends the
  process with exit code 1.
\<close>

definition main_start :: "'d os \<Rightarrow> 'd \<Rightarrow> (error + 'd sting_instance) \<times> 'd" where
  "main_start os d =
     (case DiskManager_ctor os ''stingdb_data.db'' d of
        (Inl e, d) \<Rightarrow> (Inl e, d)
      | (Inr dm, d) \<Rightarrow> (Inr (StingInstance_ctor (BufferPoolManager_ctor 4096 dm)), d))"

definition pool_size :: "u64 \<Rightarrow> u64" where
  "pool_size hardware_threads = (if 1 < hardware_threads then hardware_threads else 4)"

text \<open>The exit code, or the answers given while the server runs.\<close>

definition main_run :: "'d os \<Rightarrow> bool \<Rightarrow> string list \<Rightarrow> 'd \<Rightarrow> int + (error + string) list" where
  "main_run os ndebug qs d =
     (case fst (main_start os d) of
        Inl e \<Rightarrow> Inl 1
      | Inr inst \<Rightarrow> Inr (fst (session os ndebug qs inst)))"

section \<open>Opening the data file\<close>

text \<open>The file descriptor the constructor ends up with: with \<open>O_DIRECT\<close>, else without.\<close>

definition opened :: "'d os \<Rightarrow> string \<Rightarrow> 'd \<Rightarrow> int \<times> 'd" where
  "opened os name d = (case os_open os d name True of (fd, d1) \<Rightarrow> if fd < 0 then os_open os d1 name False else (fd, d1))"

lemma DiskManager_ctor_opened:
  "DiskManager_ctor os name d =
     (case opened os name d of (fd, d1) \<Rightarrow>
        if fd < 0 then (Inl (Runtime_error ''DiskManager: failed to open db file''), d1)
        else case os_queue_init os d1 256 of (r, d2) \<Rightarrow>
          if r < 0 then (Inl (Runtime_error ''DiskManager: failed to initialize io_uring''), d2)
          else (Inr \<lparr>dm_file_name = name, dm_fd = fd, dm_next_page_id = 0, dm_ring = d2\<rparr>, d2))"
  by (simp add: DiskManager_ctor_def opened_def Let_def split: prod.splits)

text \<open>The program serves requests exactly when it could open its data file, with or without direct I/O,
  and set up the ring; it then answers every session as the specification says.  Otherwise the process ends
  with exit code 1.\<close>

theorem main_serves:
  assumes "opened os ''stingdb_data.db'' d = (fd, d1)" and "os_queue_init os d1 256 = (r, d2)"
    and "0 \<le> fd \<Longrightarrow> 0 \<le> r \<Longrightarrow> reliable_device os fd blocks phase wait \<and> phase d2 = Idle" and "length qs < 2 ^ 64 - 1"
  shows "main_run os ndebug qs d = (if fd < 0 \<or> r < 0 then Inl 1 else Inr (map Inr (spec_session qs None 1)))"
proof (cases "fd < 0 \<or> r < 0")
  case True
  then show ?thesis using assms(1,2) by (auto simp: main_run_def main_start_def DiskManager_ctor_opened)
next
  case False
  let ?dm = "\<lparr>dm_file_name = ''stingdb_data.db'', dm_fd = fd, dm_next_page_id = 0, dm_ring = d2\<rparr>"
  have dev: "reliable_device os fd blocks phase wait" "phase d2 = Idle" using assms(3) False by auto
  have "fst (session os ndebug qs (StingInstance_ctor (BufferPoolManager_ctor 4096 ?dm))) = map Inr (spec_session qs None 1)"
    using reliable_device.session_ok [OF dev(1) fresh_server_state [of phase ?dm fd 4096], of qs ndebug] dev(2) assms(4)
    by (simp add: INVALID_PAGE_ID_def)
  then show ?thesis
    using False assms(1,2) by (simp add: main_run_def main_start_def DiskManager_ctor_opened)
qed

text \<open>On the simulated device, and on one where the file cannot be opened.\<close>

theorem main_serves_witness:
  "main_run sim_os True [''SELECT'', ''BEGIN''] fresh_device
     = Inr [Inr (''Error: Table not found: users'' @ newline), Inr (''Success: Transaction 2 started.'' @ newline)]
   \<and> main_run (sim_os\<lparr>os_open := \<lambda>d name direct. (- 1, d)\<rparr>) True [''SELECT'', ''BEGIN''] fresh_device = Inl 1"
proof -
  have two: "decimal (Suc (Suc 0)) = ''2''"
  proof -
    have "decimal 2 = ''2''" by (simp add: decimal.simps char_of_def bit_0)
    then show ?thesis by (simp only: numeral_2_eq_2)
  qed
  have o: "opened sim_os ''stingdb_data.db'' fresh_device = (3, fresh_device)"
    "os_queue_init sim_os fresh_device 256 = (0, fresh_device)" "sim_phase fresh_device = Idle"
    by (simp_all add: opened_def sim_os_def fresh_device_def)
  have f: "opened (sim_os\<lparr>os_open := \<lambda>d name direct. (- 1, d)\<rparr>) ''stingdb_data.db'' fresh_device = (- 1, fresh_device)"
    "os_queue_init (sim_os\<lparr>os_open := \<lambda>d name direct. (- 1, d)\<rparr>) fresh_device 256 = (0, fresh_device)"
    by (simp_all add: opened_def sim_os_def)
  have "main_run sim_os True [''SELECT'', ''BEGIN''] fresh_device = Inr (map Inr (spec_session [''SELECT'', ''BEGIN''] None 1))"
    using main_serves [OF o(1,2), of sim_blocks sim_phase sd_left "[''SELECT'', ''BEGIN'']" True]
      reliable_sim.reliable_device_axioms [of 3] o(3) by simp
  moreover have "spec_session [''SELECT'', ''BEGIN''] None 1
      = [''Error: Table not found: users'' @ newline, ''Success: Transaction 2 started.'' @ newline]"
    by (simp add: classify_def has_prefix_def two)
  ultimately show ?thesis
    using main_serves [OF f, of sim_blocks sim_phase sd_left "[''SELECT'', ''BEGIN'']" True] by simp
qed

end
