(* ===== verification/Reactor.thy ===== *)
theory Reactor
  imports Server_Main
begin

text \<open>
  The handlers of the event loop: \<^verbatim>\<open>src/network/server.h\<close> and the asynchronous part of \<^verbatim>\<open>src/network/connection.h\<close>, one function per
  completion handler.  Which operation completes next, how, and on which thread its handler runs is the environment's choice
  (\<open>Thread_Pool\<close>).

  An operation that a handler does not restart is gone: with the last handler the connection object is
  destroyed and its socket closed; an acceptor that is not armed again accepts nothing more.
\<close>

section \<open>A connection\<close>

text \<open>The operation under way: a read, a write of the first bytes of the buffer, or none any more.\<close>

datatype conn_io = Reading | Writing_answer nat | Closed

record connection =
  cn_data :: string
  cn_io :: conn_io

definition DoRead :: "connection \<Rightarrow> connection" where
  "DoRead c = c\<lparr>cn_io := Reading\<rparr>"

text \<open>\<open>std::make_shared<Connection>(socket, instance)->Start()\<close>; the buffer is zero-initialised.\<close>

definition Connection_Start :: connection where
  "Connection_Start = DoRead \<lparr>cn_data = replicate MAX_LENGTH (CHR 0x00), cn_io = Closed\<rparr>"

definition write_answer :: "string \<Rightarrow> connection \<Rightarrow> connection" where
  "write_answer response c =
     (let len = min (length response) MAX_LENGTH
      in c\<lparr>cn_data := take len response @ drop len (cn_data c), cn_io := Writing_answer len\<rparr>)"

text \<open>The handler of a read: the bytes received are at the front of the buffer, \<open>None\<close> is an error.\<close>

definition on_read :: "'d os \<Rightarrow> bool \<Rightarrow> string option \<Rightarrow> connection \<Rightarrow> 'd sting_instance
    \<Rightarrow> (error + connection) \<times> 'd sting_instance" where
  "on_read os ndebug received c inst =
     (case received of
        None \<Rightarrow> (Inr (c\<lparr>cn_io := Closed\<rparr>), inst)
      | Some bs \<Rightarrow>
          let c = c\<lparr>cn_data := bs @ drop (length bs) (cn_data c)\<rparr>;
              query = take (length bs) (cn_data c)
          in case handle_query os ndebug query inst of
               (Inl e, inst) \<Rightarrow> (Inl e, inst)
             | (Inr response, inst) \<Rightarrow> (Inr (write_answer response c), inst))"

definition on_write :: "bool \<Rightarrow> connection \<Rightarrow> connection" where
  "on_write ok c = (if ok then DoRead c else c\<lparr>cn_io := Closed\<rparr>)"

text \<open>The bytes a write sends.\<close>

fun outgoing :: "connection \<Rightarrow> string" where
  "outgoing c = (case cn_io c of Writing_answer n \<Rightarrow> take n (cn_data c) | _ \<Rightarrow> [])"

declare outgoing.simps [simp del]

section \<open>The server\<close>

text \<open>\<open>sv_accepting\<close>: an \<open>async_accept\<close> is pending.\<close>

record 'd server =
  sv_conns :: "connection list"
  sv_instance :: "'d sting_instance"
  sv_thread_pool_size :: u64
  sv_accepting :: bool

definition DoAccept :: "'d server \<Rightarrow> 'd server" where
  "DoAccept s = s\<lparr>sv_accepting := True\<rparr>"

definition Server_ctor :: "u64 \<Rightarrow> 'd sting_instance \<Rightarrow> 'd server" where
  "Server_ctor thread_pool_size inst =
     DoAccept \<lparr>sv_conns = [], sv_instance = inst, sv_thread_pool_size = thread_pool_size, sv_accepting = False\<rparr>"

text \<open>The handler of \<open>DoAccept\<close>, which waits for the next connection in either case.\<close>

definition on_accept :: "bool \<Rightarrow> 'd server \<Rightarrow> 'd server" where
  "on_accept ok s = DoAccept (if ok then s\<lparr>sv_conns := sv_conns s @ [Connection_Start]\<rparr> else s)"

lemma DoAccept_simps [simp]: "sv_conns (DoAccept s) = sv_conns s" "sv_instance (DoAccept s) = sv_instance s"
  "sv_thread_pool_size (DoAccept s) = sv_thread_pool_size s" "sv_accepting (DoAccept s)"
  by (simp_all add: DoAccept_def)

text \<open>An operation is pending: \<open>io_context_.run()\<close> returns when there is none and no handler runs.\<close>

definition pending :: "'d server \<Rightarrow> bool" where
  "pending s \<longleftrightarrow> sv_accepting s \<or> (\<exists>c \<in> set (sv_conns s). cn_io c \<noteq> Closed)"

section \<open>Buffers\<close>

definition buffers_ok :: "'d server \<Rightarrow> bool" where
  "buffers_ok s \<longleftrightarrow> (\<forall>c \<in> set (sv_conns s). length (cn_data c) = MAX_LENGTH)"

lemma write_answer_simps:
  assumes "length (cn_data c) = MAX_LENGTH"
  shows "outgoing (write_answer r c) = DoWriteAnswer r" "length (cn_data (write_answer r c)) = MAX_LENGTH"
    "\<exists>n. cn_io (write_answer r c) = Writing_answer n"
  using assms by (simp_all add: write_answer_def Let_def outgoing.simps DoWriteAnswer_def)

lemma on_read_Some:
  assumes "length (cn_data c) = MAX_LENGTH" and "length bs \<le> MAX_LENGTH"
  shows "on_read os ndebug (Some bs) c inst = (Inr c', inst') \<longleftrightarrow>
    (\<exists>r. handle_query os ndebug bs inst = (Inr r, inst')
       \<and> c' = write_answer r (c\<lparr>cn_data := bs @ drop (length bs) (cn_data c)\<rparr>))"
  by (auto simp: on_read_def Let_def split: prod.splits sum.splits)

section \<open>Sessions, request by request\<close>

text \<open>What the specification knows after a sequence of requests.\<close>

fun spec_after :: "string list \<Rightarrow> nat option \<Rightarrow> nat \<Rightarrow> nat option \<times> nat" where
  "spec_after [] t n = (t, n)"
| "spec_after (q # qs) t n = (case spec_answer (classify q) t n of (a, t', n') \<Rightarrow> spec_after qs t' n')"

lemma spec_session_snoc:
  "spec_session (qs @ [q]) t n =
     spec_session qs t n @ [fst (spec_answer (classify q) (fst (spec_after qs t n)) (snd (spec_after qs t n)))]"
  by (induction qs arbitrary: t n) (simp_all split: prod.splits)

lemma spec_after_snoc:
  "spec_after (qs @ [q]) t n = snd (spec_answer (classify q) (fst (spec_after qs t n)) (snd (spec_after qs t n)))"
  by (induction qs arbitrary: t n) (simp_all split: prod.splits)

lemma spec_after_bound: "snd (spec_after qs t n) \<le> n + length qs"
proof (induction qs arbitrary: t n)
  case (Cons q qs)
  obtain a t' n' where a: "spec_answer (classify q) t n = (a, t', n')" by (cases "spec_answer (classify q) t n")
  then have "n' \<le> Suc n" by (cases "(classify q, t, n)" rule: spec_answer.cases) auto
  then show ?case using Cons.IH [of t' n'] a by simp
qed simp

end
