(* ===== verification/Thread_Pool.thy ===== *)
theory Thread_Pool
  imports Progress Reactor
begin

text \<open>
  The server with all its threads: the connections of \<open>Reactor\<close> served by the interleaved workers of \<open>Workers\<close>.  \<open>Server::Run\<close>
  (\<^verbatim>\<open>src/network/server.h\<close>) starts \<open>thread_pool_size_\<close> threads that all run handlers of completed operations.  A thread that takes a
  completed read executes the request step by step while other threads run other handlers, and ends by starting the
  write of the answer.  A thread returns from \<open>run()\<close> when no operation is pending and no handler runs.  The events say which thread
  does what; an event that cannot happen gives \<open>None\<close>.
\<close>

section \<open>Threads and connections\<close>

text \<open>\<open>th_conn\<close>: the connection whose request a thread executes, \<open>None\<close> for a thread that waits in \<open>io_context_.run()\<close>; \<open>th_pc\<close>: where it is;
  \<open>th_returned\<close>: the threads whose \<open>run()\<close> has returned.\<close>

record 'd threaded =
  th_server :: "'d server"
  th_conn :: "nat option list"
  th_pc :: "pc list"
  th_returned :: "nat list"

definition Server_Run :: "'d server \<Rightarrow> 'd threaded" where
  "Server_Run s = \<lparr>th_server = s, th_conn = replicate (unat (sv_thread_pool_size s)) None,
     th_pc = replicate (unat (sv_thread_pool_size s)) (P_done []), th_returned = []\<rparr>"

datatype th_event =
    E_accept nat bool | E_receive nat nat string | E_step nat | E_answer nat nat | E_read_failed nat nat | E_sent nat nat bool | E_return nat

definition waits :: "nat \<Rightarrow> 'd threaded \<Rightarrow> bool" where
  "waits j s \<longleftrightarrow> j < length (th_conn s) \<and> th_conn s ! j = None \<and> j \<notin> set (th_returned s)"

definition executes :: "nat \<Rightarrow> nat \<Rightarrow> 'd threaded \<Rightarrow> bool" where
  "executes j i s \<longleftrightarrow> j < length (th_conn s) \<and> th_conn s ! j = Some i"

definition conn_at :: "nat \<Rightarrow> 'd threaded \<Rightarrow> connection option" where
  "conn_at i s = (if i < length (sv_conns (th_server s)) then Some (sv_conns (th_server s) ! i) else None)"

definition set_conn :: "nat \<Rightarrow> connection \<Rightarrow> 'd server \<Rightarrow> 'd server" where
  "set_conn i c sv = sv\<lparr>sv_conns := (sv_conns sv)[i := c]\<rparr>"

definition busy :: "nat \<Rightarrow> 'd threaded \<Rightarrow> bool" where
  "busy j s \<longleftrightarrow> j < length (th_conn s) \<and> th_conn s ! j \<noteq> None"

text \<open>While its request is executed a connection has no operation under way, and while the accept handler runs the acceptor has none.\<close>

fun th_next :: "'d os \<Rightarrow> bool \<Rightarrow> th_event \<Rightarrow> 'd threaded \<Rightarrow> 'd threaded option" where
  "th_next os ndebug (E_accept j ok) s =
     (if waits j s \<and> sv_accepting (th_server s)
      then Some (s\<lparr>th_server := on_accept ok ((th_server s)\<lparr>sv_accepting := False\<rparr>)\<rparr>) else None)"
| "th_next os ndebug (E_receive j i bs) s =
     (case conn_at i s of
        None \<Rightarrow> None
      | Some c \<Rightarrow>
          if waits j s \<and> cn_io c = Reading \<and> 0 < length bs \<and> length bs \<le> MAX_LENGTH
          then let c = c\<lparr>cn_data := bs @ drop (length bs) (cn_data c), cn_io := Closed\<rparr>
               in Some (s\<lparr>th_server := set_conn i c (th_server s), th_conn := (th_conn s)[j := Some i],
                    th_pc := (th_pc s)[j := P_start (take (length bs) (cn_data c))]\<rparr>)
          else None)"
| "th_next os ndebug (E_step j) s =
     (if busy j s \<and> 0 < steps_left (th_pc s ! j)
      then case wstep os ndebug (th_pc s ! j, sv_instance (th_server s)) of
             (w, inst) \<Rightarrow> Some (s\<lparr>th_server := (th_server s)\<lparr>sv_instance := inst\<rparr>, th_pc := (th_pc s)[j := w]\<rparr>)
      else None)"
| "th_next os ndebug (E_answer j i) s =
     (case (executes j i s, conn_at i s, th_pc s ! j) of
        (True, Some c, P_done a) \<Rightarrow> Some (s\<lparr>th_server := set_conn i (write_answer a c) (th_server s), th_conn := (th_conn s)[j := None]\<rparr>)
      | _ \<Rightarrow> None)"
| "th_next os ndebug (E_read_failed j i) s =
     (case conn_at i s of
        None \<Rightarrow> None
      | Some c \<Rightarrow> if waits j s \<and> cn_io c = Reading then Some (s\<lparr>th_server := set_conn i (c\<lparr>cn_io := Closed\<rparr>) (th_server s)\<rparr>) else None)"
| "th_next os ndebug (E_sent j i ok) s =
     (case conn_at i s of
        None \<Rightarrow> None
      | Some c \<Rightarrow> (case cn_io c of
          Writing_answer n \<Rightarrow> if waits j s then Some (s\<lparr>th_server := set_conn i (on_write ok c) (th_server s)\<rparr>) else None
        | _ \<Rightarrow> None))"
| "th_next os ndebug (E_return j) s =
     (if waits j s \<and> \<not> pending (th_server s) \<and> (\<forall>k < length (th_conn s). th_conn s ! k = None)
      then Some (s\<lparr>th_returned := j # th_returned s\<rparr>) else None)"

fun th_run :: "'d os \<Rightarrow> bool \<Rightarrow> th_event list \<Rightarrow> 'd threaded \<Rightarrow> 'd threaded option" where
  "th_run os ndebug [] s = Some s"
| "th_run os ndebug (e # es) s = (case th_next os ndebug e s of None \<Rightarrow> None | Some s' \<Rightarrow> th_run os ndebug es s')"

declare th_next.simps [simp del]

lemma th_run_append:
  "th_run os ndebug (es @ fs) s = (case th_run os ndebug es s of None \<Rightarrow> None | Some s' \<Rightarrow> th_run os ndebug fs s')"
  by (induction es arbitrary: s) (simp_all split: option.split)

section \<open>The threads are workers\<close>

definition core :: "'d threaded \<Rightarrow> 'd sting_instance \<times> pc list" where
  "core s = (sv_instance (th_server s), th_pc s)"

fun work_of :: "th_event \<Rightarrow> event list" where
  "work_of (E_receive j i bs) = [Request j bs]"
| "work_of (E_step j) = [Step j]"
| "work_of _ = []"

text \<open>Connections and threads fit: a thread executes the request of a connection without a pending operation, two threads never that
  of the same connection, and a waiting thread has finished its last request.\<close>

definition shape :: "'d threaded \<Rightarrow> bool" where
  "shape s \<longleftrightarrow> length (th_pc s) = length (th_conn s) \<and> buffers_ok (th_server s)
     \<and> (\<forall>j i. executes j i s \<longrightarrow> i < length (sv_conns (th_server s)) \<and> cn_io (sv_conns (th_server s) ! i) = Closed)
     \<and> (\<forall>j k i. executes j i s \<longrightarrow> executes k i s \<longrightarrow> j = k)
     \<and> (\<forall>j. waits j s \<longrightarrow> (\<exists>a. th_pc s ! j = P_done a))"

lemmas th_defs = th_next.simps waits_def busy_def executes_def conn_at_def set_conn_def Let_def

lemma shape_start: "shape (Server_Run (Server_ctor w inst))"
  by (auto simp: shape_def Server_Run_def Server_ctor_def buffers_ok_def waits_def executes_def)

lemma buffers_set: "buffers_ok sv \<Longrightarrow> length (cn_data c) = MAX_LENGTH \<Longrightarrow> buffers_ok (set_conn i c sv)"
  using set_update_subset_insert [of "sv_conns sv" i c] by (auto simp: buffers_ok_def set_conn_def)

text \<open>A handler that leaves the threads alone and the connections that are executed without an operation.\<close>

lemma shape_same:
  assumes s: "shape s" and same: "th_conn s' = th_conn s" "set (th_returned s) \<subseteq> set (th_returned s')" "length (th_pc s') = length (th_pc s)" "\<And>j. waits j s \<Longrightarrow> th_pc s' ! j = th_pc s ! j"
    and buf: "buffers_ok (th_server s')"
    and closed: "\<And>i. i < length (sv_conns (th_server s)) \<Longrightarrow> cn_io (sv_conns (th_server s) ! i) = Closed \<Longrightarrow>
      i < length (sv_conns (th_server s')) \<and> cn_io (sv_conns (th_server s') ! i) = Closed"
  shows "shape s'"
proof -
  have e: "executes j i s' = executes j i s" "waits j s' \<Longrightarrow> waits j s" for j i using same(2) by (auto simp: executes_def waits_def same(1))
  have "\<exists>a. th_pc s' ! j = P_done a" if "waits j s'" for j using e(2) [OF that] same(4) s by (simp add: shape_def)
  then show ?thesis using s same(1,3) buf closed unfolding shape_def e(1) by metis
qed

lemma receive_shape:
  assumes s: "shape s" and g: "i < length (sv_conns (th_server s))" "waits j s" "cn_io (sv_conns (th_server s) ! i) = Reading"
    and c: "length (cn_data c) = MAX_LENGTH" "cn_io c = Closed"
    and s': "s' = s\<lparr>th_server := set_conn i c (th_server s), th_conn := (th_conn s)[j := Some i], th_pc := (th_pc s)[j := w]\<rparr>"
  shows "shape s'"
proof -
  have free: "\<not> executes k i s" for k using s g(3) by (force simp: shape_def)
  have ex: "executes k l s' \<longleftrightarrow> (if k = j then l = i else executes k l s)" for k l
    using g(2) by (auto simp: s' executes_def waits_def nth_list_update)
  have wt: "waits k s' \<longleftrightarrow> k \<noteq> j \<and> waits k s" for k using g(2) by (auto simp: s' waits_def nth_list_update)
  have "l < length (sv_conns (th_server s')) \<and> cn_io (sv_conns (th_server s') ! l) = Closed" if "if k = j then l = i else executes k l s" for k l
    using that s g(1) c(2) by (cases "l = i") (auto simp: s' set_conn_def shape_def split: if_splits)
  moreover have "k = m" if "if k = j then l = i else executes k l s" "if m = j then l = i else executes m l s" for k m l
    using that free s by (auto simp: shape_def split: if_splits)
  moreover have "\<exists>a. th_pc s' ! k = P_done a" if "k \<noteq> j \<and> waits k s" for k using that s by (auto simp: s' shape_def)
  moreover have "buffers_ok (th_server s')" "length (th_pc s') = length (th_conn s')" using s c(1) by (simp_all add: s' shape_def buffers_set)
  ultimately show ?thesis unfolding shape_def ex wt by blast
qed

lemma answer_shape:
  assumes s: "shape s" and g: "executes j i s" "th_pc s ! j = P_done a" and c: "length (cn_data c) = MAX_LENGTH"
    and s': "s' = s\<lparr>th_server := set_conn i c (th_server s), th_conn := (th_conn s)[j := None]\<rparr>"
  shows "shape s'"
proof -
  have ex: "executes k l s' \<longleftrightarrow> k \<noteq> j \<and> executes k l s" for k l using g(1) by (auto simp: s' executes_def nth_list_update)
  have wt: "k = j \<or> waits k s" if "waits k s'" for k using that by (cases "k = j") (auto simp: s' waits_def)
  have alone: "l \<noteq> i" if "k \<noteq> j" "executes k l s" for k l using that s g(1) unfolding shape_def by blast
  have "l < length (sv_conns (th_server s')) \<and> cn_io (sv_conns (th_server s') ! l) = Closed" if "k \<noteq> j \<and> executes k l s" for k l
    using that s alone [of k l] by (auto simp: s' set_conn_def shape_def)
  moreover have "k = m" if "k \<noteq> j \<and> executes k l s" "m \<noteq> j \<and> executes m l s" for k m l using that s unfolding shape_def by blast
  moreover have "\<exists>a. th_pc s' ! k = P_done a" if "waits k s'" for k using wt [OF that] s g(2) by (auto simp: s' shape_def)
  moreover have "buffers_ok (th_server s')" "length (th_pc s') = length (th_conn s')" using s c by (simp_all add: s' shape_def buffers_set)
  ultimately show ?thesis unfolding shape_def ex by blast
qed

lemma conn_atD:
  assumes "conn_at i s = Some c" and "shape s"
  shows "i < length (sv_conns (th_server s))" "c = sv_conns (th_server s) ! i" "length (cn_data c) = MAX_LENGTH"
  using assms by (auto simp: conn_at_def shape_def buffers_ok_def split: if_splits)

lemma th_next_shape:
  assumes step: "th_next os ndebug e s = Some s'" and s: "shape s"
  shows "shape s'"
proof (cases e)
  case (E_accept j ok)
  then show ?thesis using step s
    by (intro shape_same [OF s]) (auto simp: th_next.simps on_accept_def shape_def buffers_ok_def Connection_Start_def DoRead_def nth_append split: if_splits)
next
  case (E_receive j i bs)
  then show ?thesis using step conn_atD [OF _ s]
    by (auto simp: th_next.simps Let_def split: option.splits if_splits intro!: receive_shape [OF s, of i j])
next
  case (E_step j)
  then show ?thesis using step s
    by (intro shape_same [OF s]) (auto simp: th_next.simps waits_def busy_def shape_def buffers_ok_def nth_list_update split: if_splits prod.splits)
next
  case (E_answer j i)
  then show ?thesis using step conn_atD [OF _ s]
    by (auto simp: th_next.simps write_answer_simps split: option.splits bool.splits pc.splits intro!: answer_shape [OF s, of j i])
next
  case (E_read_failed j i)
  then show ?thesis using step conn_atD [OF _ s] s
    by (intro shape_same [OF s]) (auto simp: th_next.simps shape_def buffers_set split: option.splits if_splits, auto simp: set_conn_def nth_list_update)
next
  case (E_sent j i ok)
  then show ?thesis using step conn_atD [OF _ s] s
    by (intro shape_same [OF s])
      (auto simp: th_next.simps shape_def buffers_set on_write_def DoRead_def split: option.splits if_splits conn_io.splits, auto simp: set_conn_def nth_list_update)
next
  case (E_return j)
  then show ?thesis using step s by (intro shape_same [OF s]) (auto simp: th_next.simps shape_def split: if_splits)
qed

lemma th_next_core:
  assumes "th_next os ndebug e s = Some s'" and "shape s"
  shows "core s' = schedule os ndebug (work_of e) (core s)"
proof (cases e)
  case (E_receive j i bs)
  then show ?thesis using assms by (auto simp: th_defs core_def shape_def split: if_splits)
qed (use assms in \<open>auto simp: th_defs core_def shape_def on_accept_def split: if_splits prod.splits bool.splits pc.splits conn_io.splits\<close>)

lemma schedule_append: "schedule os ndebug (es @ fs) c = schedule os ndebug fs (schedule os ndebug es c)"
  by (induction es arbitrary: c) simp_all

lemma th_run_core:
  "th_run os ndebug es s = Some s' \<Longrightarrow> shape s \<Longrightarrow> shape s' \<and> core s' = schedule os ndebug (concat (map work_of es)) (core s)"
proof (induction es arbitrary: s)
  case (Cons e es)
  then obtain s1 where "th_next os ndebug e s = Some s1" "th_run os ndebug es s1 = Some s'" by (auto split: option.splits)
  then show ?case using Cons.IH [of s1] th_next_shape [of os ndebug e s s1] th_next_core [of os ndebug e s s1] Cons.prems(2)
    by (simp add: schedule_append)
qed simp

section \<open>Every state the server reaches\<close>

lemma core_start: "core (Server_Run (Server_ctor w inst)) = (inst, replicate (unat w) (P_done []))"
  by (simp add: core_def Server_Run_def Server_ctor_def)

lemma length_work_of: "length (concat (map work_of es)) \<le> length es"
proof (induction es)
  case (Cons e es)
  then show ?case by (cases e) simp_all
qed simp

definition th_ok :: "int \<Rightarrow> ('d \<Rightarrow> pageid \<Rightarrow> bytes) \<Rightarrow> ('d \<Rightarrow> io_phase) \<Rightarrow> nat \<Rightarrow> 'd threaded \<Rightarrow> bool" where
  "th_ok fd blocks phase n s \<longleftrightarrow> shape s \<and> crew fd blocks phase n (core s) \<and> (\<forall>w \<in> set (th_pc s). in_page w)"

lemma crew_waits: "crew fd blocks phase n c \<Longrightarrow> crew fd blocks phase (n + k) c"
  by (induction k) (simp_all add: crew_wait)

lemma th_ok_start:
  assumes "phase (dm_ring dm) = Idle" and "dm_fd dm = fd" and "dm_next_page_id dm = 0" and "unat w \<le> m" and "unat w < 2 ^ 31"
  shows "th_ok fd blocks phase 0 (Server_Run (Server_ctor w (StingInstance_ctor (BufferPoolManager_ctor m dm))))"
  using crew_idle [of phase, OF assms, of blocks "[]"] shape_start
  by (simp add: th_ok_def core_start) (simp add: Server_Run_def Server_ctor_def)

text \<open>A thread that executes a request can always go on.\<close>

lemma thread_goes_on:
  assumes ok: "th_ok fd blocks phase n s" and x: "executes j i s"
  shows "th_next os ndebug (E_step j) s \<noteq> None \<or> th_next os ndebug (E_answer j i) s \<noteq> None"
proof -
  have j: "j < length (th_pc s)" "conn_at i s \<noteq> None" using ok x by (auto simp: th_ok_def shape_def executes_def conn_at_def)
  have "worker_ok (sv_instance (th_server s)) (th_pc s ! j)" using ok j(1) by (simp add: th_ok_def core_def crew_def)
  then have "th_pc s ! j \<noteq> P_dead e" for e by (auto simp: worker_ok_def)
  then have "0 < steps_left (th_pc s ! j) \<or> (\<exists>a. th_pc s ! j = P_done a)" using no_steps_left [of "th_pc s ! j"] by blast
  then show ?thesis using x j(2) by (auto simp: th_next.simps busy_def executes_def split: prod.split)
qed

context reliable_device
begin

lemma th_ok_run:
  assumes ok: "th_ok fd blocks phase n s" and run: "th_run os ndebug es s = Some s'" and n: "n + length es < 2 ^ 32"
  shows "th_ok fd blocks phase (n + length es) s'" "length (th_pc s') = length (th_pc s)"
proof -
  let ?es = "concat (map work_of es)"
  have C: "shape s'" "core s' = schedule os ndebug ?es (core s)" using th_run_core [OF run] ok by (simp_all add: th_ok_def)
  obtain k where k: "length es = length ?es + k" using length_work_of [of es] by (metis le_Suc_ex)
  have K: "crew fd blocks phase (n + length ?es) (core s')" "\<forall>w \<in> set (snd (core s')). in_page w" "length (snd (core s')) = length (snd (core s))"
    using schedule_keeps [of n "core s" ?es ndebug] ok n length_work_of [of es] unfolding C(2) by (auto simp: th_ok_def core_def)
  have "crew fd blocks phase (n + length es) (core s')" using crew_waits [OF K(1), of k] unfolding k by (simp add: add.assoc)
  then show "th_ok fd blocks phase (n + length es) s'" using C(1) K(2) by (simp add: th_ok_def core_def)
  show "length (th_pc s') = length (th_pc s)" using K(3) by (simp add: core_def)
qed

lemma th_ok_next:
  assumes "th_ok fd blocks phase n s" and "th_next os ndebug e s = Some s'" and "n + 1 < 2 ^ 32"
  shows "th_ok fd blocks phase (Suc n) s'"
  using th_ok_run(1) [OF assms(1), of ndebug "[e]" s'] assms(2,3) by simp

text \<open>A thread that does not answer runs out of steps.\<close>

lemma steps_bounded:
  "th_ok fd blocks phase n s \<Longrightarrow> th_run os ndebug es s = Some s' \<Longrightarrow> \<forall>i. E_answer j i \<notin> set es \<Longrightarrow> n + length es < 2 ^ 32 \<Longrightarrow>
   count_list es (E_step j) \<le> (if busy j s then steps_left (th_pc s ! j) else request_steps)"
proof (induction es arbitrary: n s)
  case (Cons e es)
  obtain s1 where s1: "th_next os ndebug e s = Some s1" "th_run os ndebug es s1 = Some s'" using Cons.prems(2) by (auto split: option.splits)
  have IH: "count_list es (E_step j) \<le> (if busy j s1 then steps_left (th_pc s1 ! j) else request_steps)"
    using Cons.IH [OF th_ok_next [OF Cons.prems(1) s1(1)] s1(2)] Cons.prems(3,4) by simp
  have len: "length (th_pc s) = length (th_conn s)" using Cons.prems(1) by (simp add: th_ok_def shape_def)
  show ?case
  proof (cases "e = E_step j")
    case True
    obtain w inst where w: "wstep os ndebug (th_pc s ! j, sv_instance (th_server s)) = (w, inst)" by fastforce
    have j: "j < length (th_pc s)" "busy j s" "0 < steps_left (th_pc s ! j)"
        "s1 = s\<lparr>th_server := (th_server s)\<lparr>sv_instance := inst\<rparr>, th_pc := (th_pc s)[j := w]\<rparr>"
      using s1(1) True w len by (auto simp: th_next.simps busy_def split: if_splits)
    have "steps_left w < steps_left (th_pc s ! j)"
      using step_decreases [OF _ j(1) w] Cons.prems(1) j(1,3) by (auto simp: th_ok_def core_def)
    moreover have "busy j s1" "th_pc s1 ! j = w" using j by (simp_all add: busy_def)
    ultimately show ?thesis using IH True j(2) by simp
  next
    case False
    have "busy j s1 = busy j s \<and> th_pc s1 ! j = th_pc s ! j \<or> \<not> busy j s \<and> steps_left (th_pc s1 ! j) = request_steps"
      using s1(1) False Cons.prems(3) len
      by (cases e) (auto simp: th_defs busy_def nth_list_update split: if_splits option.splits prod.splits bool.splits pc.splits conn_io.splits)
    then show ?thesis using IH False by (auto split: if_splits)
  qed
qed simp

end

section \<open>One thread at a time\<close>

lemma steps_run:
  assumes "(wstep os ndebug ^^ n) (w, inst) = (v, inst')" and "j < length (th_conn s)" and "th_conn s ! j \<noteq> None"
    and "core s = (inst, ws)" and "j < length ws" and "ws ! j = w"
  shows "\<exists>k. th_run os ndebug (replicate k (E_step j)) s = Some (s\<lparr>th_server := (th_server s)\<lparr>sv_instance := inst'\<rparr>, th_pc := ws[j := v]\<rparr>)"
  using assms
proof (induction n arbitrary: w inst s ws)
  case 0
  then have "s\<lparr>th_server := (th_server s)\<lparr>sv_instance := inst'\<rparr>, th_pc := ws[j := v]\<rparr> = s"
    by (auto simp: core_def list_update_same_conv)
  then show ?case by (intro exI [of _ 0]) simp
next
  case (Suc n)
  obtain w1 inst1 where w1: "wstep os ndebug (w, inst) = (w1, inst1)" by fastforce
  then have rest: "(wstep os ndebug ^^ n) (w1, inst1) = (v, inst')" using Suc.prems(1) by (simp add: funpow_swap1)
  show ?case
  proof (cases "0 < steps_left w")
    case True
    let ?s = "s\<lparr>th_server := (th_server s)\<lparr>sv_instance := inst1\<rparr>, th_pc := ws[j := w1]\<rparr>"
    have "th_next os ndebug (E_step j) s = Some ?s" using Suc.prems(2-6) True w1 by (auto simp: th_next.simps busy_def core_def)
    moreover have "\<exists>k. th_run os ndebug (replicate k (E_step j)) ?s
        = Some (?s\<lparr>th_server := (th_server ?s)\<lparr>sv_instance := inst'\<rparr>, th_pc := (ws[j := w1])[j := v]\<rparr>)"
      using Suc.IH [OF rest, of ?s "ws[j := w1]"] Suc.prems(2,3,5) by (simp add: core_def)
    then obtain k where "th_run os ndebug (replicate k (E_step j)) ?s = Some (?s\<lparr>th_server := (th_server ?s)\<lparr>sv_instance := inst'\<rparr>, th_pc := (ws[j := w1])[j := v]\<rparr>)"
      by blast
    ultimately show ?thesis by (intro exI [of _ "Suc k"]) simp
  next
    case False
    then consider b where "w = P_done b" | e where "w = P_dead e" using no_steps_left [of w] by blast
    then have "w1 = w" "inst1 = inst" using w1 by (cases; simp add: wsteps)+
    then show ?thesis using Suc.IH [OF rest] Suc.prems by blast
  qed
qed

lemma server_state_safe: "server_state fd blocks phase t n inst \<Longrightarrow> pool_safe (in_bpm inst)"
  by (cases t) (simp_all add: empty_db_def users_db_def quiet_def coherent_def)

text \<open>A thread that received a request and is not interrupted.\<close>

lemma receive_run:
  assumes s: "shape s" and g: "waits j s" "conn_at i s = Some c" "cn_io c = Reading" "0 < length bs" "length bs \<le> MAX_LENGTH"
    and call: "(wstep os ndebug ^^ n) (P_start bs, sv_instance (th_server s)) = (v, inst')"
  shows "\<exists>k. th_run os ndebug (E_receive j i bs # replicate k (E_step j)) s
    = Some (s\<lparr>th_server := (set_conn i (c\<lparr>cn_data := bs @ drop (length bs) (cn_data c), cn_io := Closed\<rparr>) (th_server s))\<lparr>sv_instance := inst'\<rparr>,
        th_conn := (th_conn s)[j := Some i], th_pc := (th_pc s)[j := v]\<rparr>)"
proof -
  let ?c = "c\<lparr>cn_data := bs @ drop (length bs) (cn_data c), cn_io := Closed\<rparr>"
  let ?s1 = "s\<lparr>th_server := set_conn i ?c (th_server s), th_conn := (th_conn s)[j := Some i], th_pc := (th_pc s)[j := P_start bs]\<rparr>"
  have j: "j < length (th_conn s)" "j < length (th_pc s)" using s g(1) by (auto simp: shape_def waits_def)
  have 1: "th_next os ndebug (E_receive j i bs) s = Some ?s1" using g by (simp add: th_next.simps Let_def)
  obtain k where "th_run os ndebug (replicate k (E_step j)) ?s1
      = Some (?s1\<lparr>th_server := (th_server ?s1)\<lparr>sv_instance := inst'\<rparr>, th_pc := (th_pc ?s1)[j := v]\<rparr>)"
    using steps_run [OF call, of j ?s1 "th_pc ?s1"] j by (auto simp: core_def set_conn_def)
  then show ?thesis using 1 by (intro exI [of _ k]) simp
qed

lemma on_read_query:
  "on_read os ndebug (Some bs) c inst = (case handle_query os ndebug bs inst of
     (Inl e, inst) \<Rightarrow> (Inl e, inst)
   | (Inr a, inst) \<Rightarrow> (Inr (write_answer a (c\<lparr>cn_data := bs @ drop (length bs) (cn_data c)\<rparr>)), inst))"
  by (simp add: on_read_def Let_def split: prod.split sum.split)

lemma query_reaches:
  assumes "pool_safe (in_bpm inst)" and "handle_query os ndebug bs inst = (r, inst')" and "r \<noteq> Inl Nonterminating"
  shows "reaches os ndebug (P_start bs, inst) (case r of Inr a \<Rightarrow> P_done a | Inl e \<Rightarrow> P_dead e, inst')"
proof -
  obtain x inst1 where d: "dispatch os ndebug bs inst = (x, inst1)" by fastforce
  have "finish x = (case r of Inr a \<Rightarrow> P_done a | Inl e \<Rightarrow> P_dead e)" "inst1 = inst'" "x \<noteq> Inl Nonterminating"
    using assms(2,3) d by (auto simp: handle_query_def finish.simps split: sum.splits option.splits)
  then show ?thesis using dispatch_reaches [OF assms(1) d] by simp
qed

section \<open>The life of a connection\<close>

datatype life = Is_reading | Is_executed nat | Is_writing | Is_closed

fun about :: "nat \<Rightarrow> th_event \<Rightarrow> bool" where
  "about i (E_receive j k bs) = (k = i)"
| "about i (E_answer j k) = (k = i)"
| "about i (E_read_failed j k) = (k = i)"
| "about i (E_sent j k ok) = (k = i)"
| "about i _ = False"

text \<open>What may happen on a connection: the thread that received a request writes the answer, and only then is the next one received.\<close>

fun life_next :: "life \<Rightarrow> th_event \<Rightarrow> life option" where
  "life_next Is_reading (E_receive j i bs) = Some (Is_executed j)"
| "life_next Is_reading (E_read_failed j i) = Some Is_closed"
| "life_next (Is_executed j) (E_answer k i) = (if k = j then Some Is_writing else None)"
| "life_next Is_writing (E_sent j i ok) = Some (if ok then Is_reading else Is_closed)"
| "life_next _ _ = None"

fun lives :: "life \<Rightarrow> th_event list \<Rightarrow> life option" where
  "lives L [] = Some L"
| "lives L (e # es) = (case life_next L e of None \<Rightarrow> None | Some L' \<Rightarrow> lives L' es)"

fun in_life :: "nat \<Rightarrow> life \<Rightarrow> 'd threaded \<Rightarrow> bool" where
  "in_life i (Is_executed j) s = executes j i s"
| "in_life i Is_reading s = (case conn_at i s of None \<Rightarrow> True | Some c \<Rightarrow> cn_io c = Reading)"
| "in_life i Is_writing s = (case conn_at i s of None \<Rightarrow> False | Some c \<Rightarrow> \<exists>n. cn_io c = Writing_answer n)"
| "in_life i Is_closed s = ((case conn_at i s of None \<Rightarrow> False | Some c \<Rightarrow> cn_io c = Closed) \<and> (\<forall>j. \<not> executes j i s))"

text \<open>The state of a connection and of the threads determines the life.\<close>

lemma executed_conn:
  assumes "executes j i s" and "shape s"
  obtains c where "conn_at i s = Some c" and "cn_io c = Closed"
  using assms by (auto simp: shape_def conn_at_def)

lemma in_life_executed:
  assumes "executes j i s" and "shape s" and "in_life i L s"
  shows "L = Is_executed j"
proof -
  obtain c where c: "conn_at i s = Some c" "cn_io c = Closed" using executed_conn [OF assms(1,2)] .
  show ?thesis
  proof (cases L)
    case (Is_executed k)
    then have "executes k i s" using assms(3) by simp
    then have "k = j" using assms(1,2) unfolding shape_def by blast
    then show ?thesis using Is_executed by simp
  qed (use assms c in auto)
qed

lemma in_life_open:
  assumes "conn_at i s = Some c" and "shape s" and "in_life i L s" and "cn_io c \<noteq> Closed"
  shows "\<not> executes j i s" "cn_io c = Reading \<Longrightarrow> L = Is_reading" "cn_io c = Writing_answer n \<Longrightarrow> L = Is_writing"
proof -
  have free: "\<not> executes k i s" for k using assms(1,2,4) by (auto elim: executed_conn)
  show "\<not> executes j i s" by (rule free)
  show "cn_io c = Reading \<Longrightarrow> L = Is_reading" "cn_io c = Writing_answer n \<Longrightarrow> L = Is_writing"
    using assms(1,3) free by (cases L; simp)+
qed

lemma conn_at_set: "conn_at i (s\<lparr>th_server := set_conn k c (th_server s)\<rparr>) = (if conn_at i s \<noteq> None \<and> i = k then Some c else conn_at i s)"
  by (auto simp: conn_at_def set_conn_def)

lemma in_life_other:
  assumes "in_life i L s" and "conn_at i s' = conn_at i s" and "\<And>j. executes j i s' = executes j i s"
  shows "in_life i L s'"
  using assms by (cases L) auto

lemma own_life:
  assumes step: "th_next os ndebug e s = Some s'" and s: "shape s" and L: "in_life i L s" and own: "about i e"
  shows "\<exists>L'. life_next L e = Some L' \<and> in_life i L' s'"
proof (cases e)
  case (E_receive j k bs)
  then obtain c where *: "k = i" "waits j s" "conn_at i s = Some c" "cn_io c = Reading" "th_conn s' = (th_conn s)[j := Some i]"
    using own step by (auto simp: th_next.simps Let_def split: option.splits if_splits)
  then show ?thesis using E_receive in_life_open(2) [OF *(3) s L] by (simp add: executes_def waits_def)
next
  case (E_answer j k)
  then obtain c a where *: "k = i" "executes j i s" "conn_at i s = Some c"
      "s' = s\<lparr>th_server := set_conn i (write_answer a c) (th_server s), th_conn := (th_conn s)[j := None]\<rparr>"
    using own step by (auto simp: th_next.simps split: option.splits bool.splits pc.splits)
  moreover have "conn_at i s' = Some (write_answer a c)" using *(3,4) by (auto simp: conn_at_def set_conn_def split: if_splits)
  ultimately show ?thesis using E_answer in_life_executed [OF *(2) s L] by (simp add: write_answer_def Let_def)
next
  case (E_read_failed j k)
  then obtain c where *: "k = i" "conn_at i s = Some c" "cn_io c = Reading" "s' = s\<lparr>th_server := set_conn i (c\<lparr>cn_io := Closed\<rparr>) (th_server s)\<rparr>"
    using own step by (auto simp: th_next.simps split: option.splits if_splits)
  then have "L = Is_reading" "\<forall>l. \<not> executes l i s" using in_life_open [OF *(2) s L] by auto
  then show ?thesis using * E_read_failed by (simp add: conn_at_set) (simp add: executes_def)
next
  case (E_sent j k ok)
  then obtain c n where *: "k = i" "conn_at i s = Some c" "cn_io c = Writing_answer n" "s' = s\<lparr>th_server := set_conn i (on_write ok c) (th_server s)\<rparr>"
    using own step by (auto simp: th_next.simps split: option.splits if_splits conn_io.splits)
  then have "L = Is_writing" "\<forall>l. \<not> executes l i s" using in_life_open [OF *(2) s L] by auto
  then show ?thesis using * E_sent by (simp add: conn_at_set on_write_def DoRead_def) (simp add: executes_def)
qed (use own in auto)

lemma other_life:
  assumes step: "th_next os ndebug e s = Some s'" and s: "shape s" and L: "in_life i L s" and other: "\<not> about i e"
  shows "in_life i L s'"
proof -
  have ex: "executes j i s' = executes j i s" for j
    using other step
    by (cases e) (auto simp: th_defs nth_list_update split: option.splits if_splits bool.splits pc.splits conn_io.splits prod.splits)
  show ?thesis
  proof (cases "conn_at i s' = conn_at i s")
    case True
    then show ?thesis by (rule in_life_other [OF L _ ex])
  next
    case False
    then have n: "conn_at i s = None" "conn_at i s' = Some Connection_Start"
      using other step
      by (cases e; auto simp: th_defs on_accept_def nth_append split: option.splits if_splits bool.splits pc.splits conn_io.splits prod.splits)+
    then have "L = Is_reading" using L s by (cases L) (auto elim: executed_conn)
    then show ?thesis using n(2) by (simp add: Connection_Start_def DoRead_def)
  qed
qed

lemma th_run_life:
  "th_run os ndebug es s = Some s' \<Longrightarrow> shape s \<Longrightarrow> in_life i L s \<Longrightarrow> \<exists>L'. lives L (filter (about i) es) = Some L' \<and> in_life i L' s'"
proof (induction es arbitrary: s L)
  case (Cons e es)
  then obtain s1 where s1: "th_next os ndebug e s = Some s1" "th_run os ndebug es s1 = Some s'" by (auto split: option.splits)
  then show ?case using Cons.IH [OF s1(2) th_next_shape [OF s1(1) Cons.prems(2)]] own_life [OF s1(1) Cons.prems(2,3)]
      other_life [OF s1(1) Cons.prems(2,3)]
    by (cases "about i e") auto
qed simp

section \<open>Properties\<close>

text \<open>(C11) The program with all its threads, as \<open>main\<close> starts it on a reliable device: at most 4096 threads on a pool of 4096 frames.  Every access
  to a page or to the table description is taken as one indivisible step, in one order that all threads see; that some of these accesses are
  data races, and so undefined in C++ itself, is \<open>concurrent_inserts_race\<close> in \<open>Data_Race\<close>, and is not what is excluded here.  Whatever connections come and
  whichever thread runs which handler, in any order and interleaved at any step, for less than \<open>2\<^sup>3\<^sup>2\<close> events: no step of a
  thread leaves a page, uses a null pointer, fails an \<open>assert\<close> or throws out of the handler; no two threads execute requests of the same connection; pages that threads hold stay in their frames and every
  page has as many pins as threads hold it; pool and transaction manager keep their invariants, connections their buffers.\<close>

theorem threads_serve_safely:
  assumes "main_start os d0 = (Inr inst, d)" and "reliable_device os fd blocks phase wait" and "phase d = Idle"
    and "opened os ''stingdb_data.db'' d0 = (fd, d1)" and "unat (pool_size hardware_threads) \<le> 4096"
    and "th_run os ndebug es (Server_Run (Server_ctor (pool_size hardware_threads) inst)) = Some s" and "length es < 2 ^ 32"
  shows "(\<forall>w \<in> set (th_pc s). (\<forall>e. w \<noteq> P_dead e)
       \<and> (\<forall>pid f. hold_frame w = Some (pid, f) \<longrightarrow> bp_page_table (in_bpm (sv_instance (th_server s))) pid = Some f))
    \<and> (\<forall>j k i. executes j i s \<longrightarrow> executes k i s \<longrightarrow> j = k)
    \<and> pins (in_bpm (sv_instance (th_server s))) = pins_of (th_pc s)
    \<and> pool_inv (in_bpm (sv_instance (th_server s))) \<and> tm_inv (in_txn_manager (sv_instance (th_server s))) \<and> buffers_ok (th_server s)"
proof -
  obtain dm where dm: "inst = StingInstance_ctor (BufferPoolManager_ctor 4096 dm)" "dm_ring dm = d" "dm_fd dm = fd" "dm_next_page_id dm = 0"
    using assms(1,4) by (auto simp: main_start_def DiskManager_ctor_opened split: prod.splits if_splits sum.splits)
  have st: "th_ok fd blocks phase 0 (Server_Run (Server_ctor (pool_size hardware_threads) inst))"
    unfolding dm(1) by (rule th_ok_start) (use assms(3,5) dm in simp_all)
  have "th_ok fd blocks phase (length es) s"
    using reliable_device.th_ok_run(1) [OF assms(2) st assms(6)] assms(7) by simp
  then show ?thesis by (auto simp: th_ok_def shape_def core_def crew_def shared_def managers_ok_def worker_ok_def)
qed

text \<open>(C12) Every request is answered, on a reliable device and with indivisible accesses as in \<open>threads_serve_safely\<close>: at any moment a thread that executes a request can take its next step or write its answer, and within
  any run in which it takes more than 13873 steps (\<open>request_steps\<close>) it writes an answer, whatever other threads and connections do.\<close>

theorem threads_answer:
  assumes "reliable_device os fd blocks phase wait" and "phase (dm_ring dm) = Idle" and "dm_fd dm = fd" and "dm_next_page_id dm = 0"
    and "unat n \<le> m" and "unat n < 2 ^ 31" and "length es1 + length es2 < 2 ^ 32"
    and run: "th_run os ndebug es1 (Server_Run (Server_ctor n (StingInstance_ctor (BufferPoolManager_ctor m dm)))) = Some s"
  shows "(\<forall>j i. executes j i s \<longrightarrow> th_next os ndebug (E_step j) s \<noteq> None \<or> th_next os ndebug (E_answer j i) s \<noteq> None)
    \<and> (th_run os ndebug es2 s \<noteq> None \<longrightarrow> request_steps < count_list es2 (E_step j) \<longrightarrow> (\<exists>i. E_answer j i \<in> set es2))"
proof (intro conjI allI impI)
  have st: "th_ok fd blocks phase 0 (Server_Run (Server_ctor n (StingInstance_ctor (BufferPoolManager_ctor m dm))))"
    by (rule th_ok_start) (use assms(2-6) in simp_all)
  have ok: "th_ok fd blocks phase (length es1) s"
    using reliable_device.th_ok_run(1) [OF assms(1) st run] assms(7) by simp
  show "th_next os ndebug (E_step j) s \<noteq> None \<or> th_next os ndebug (E_answer j i) s \<noteq> None" if "executes j i s" for j i
    using thread_goes_on [OF ok that] .
  show "\<exists>i. E_answer j i \<in> set es2" if r: "th_run os ndebug es2 s \<noteq> None" and many: "request_steps < count_list es2 (E_step j)"
  proof (rule ccontr)
    assume no: "\<nexists>i. E_answer j i \<in> set es2"
    obtain s' where "th_run os ndebug es2 s = Some s'" using r by blast
    then have le: "count_list es2 (E_step j) \<le> (if busy j s then steps_left (th_pc s ! j) else request_steps)"
      using reliable_device.steps_bounded [OF assms(1) ok] no assms(7) by blast
    have "in_page (th_pc s ! j)" if "busy j s" using that ok by (simp add: busy_def th_ok_def shape_def)
    then show False using le many steps_left_bound [of "th_pc s ! j"] by (auto split: if_splits)
  qed
qed

text \<open>(C14) The read handler of a connection is the work of one thread: in every reachable state of the server whose pool is well-formed
  (\<open>pool_safe\<close>), on any device, if the handler ends, a waiting thread that takes a
  request and is not interrupted either ends with the connection, its pending write and the instance that \<open>on_read\<close> gives, and waits
  again, or stops with the error \<open>on_read\<close> gives (with its instance, unless the error is undefined behaviour); no other thread and no other connection is touched.  A read that
  failed ends the connection, as \<open>on_read\<close> does.\<close>

theorem one_thread_is_the_handler:
  assumes run: "th_run os ndebug es (Server_Run (Server_ctor w inst0)) = Some s"
    and "waits j s" and "conn_at i s = Some c" and "cn_io c = Reading" and "0 < length bs" and "length bs \<le> MAX_LENGTH"
    and safe: "pool_safe (in_bpm (sv_instance (th_server s)))"
    and read: "on_read os ndebug (Some bs) c (sv_instance (th_server s)) = (r, inst')" "r \<noteq> Inl Nonterminating"
  shows "(case r of
      Inr c' \<Rightarrow> \<exists>k s'. th_run os ndebug (E_receive j i bs # replicate k (E_step j) @ [E_answer j i]) s = Some s'
        \<and> th_server s' = (set_conn i c' (th_server s))\<lparr>sv_instance := inst'\<rparr> \<and> th_conn s' = th_conn s \<and> waits j s'
        \<and> (\<forall>l. l \<noteq> j \<longrightarrow> th_pc s' ! l = th_pc s ! l)
    | Inl e \<Rightarrow> \<exists>k s'. th_run os ndebug (E_receive j i bs # replicate k (E_step j)) s = Some s' \<and> th_pc s' ! j = P_dead e
        \<and> (e \<noteq> Undefined \<longrightarrow> sv_instance (th_server s') = inst') \<and> (\<forall>l. l \<noteq> j \<longrightarrow> th_pc s' ! l = th_pc s ! l))
    \<and> (case on_read os ndebug None c (sv_instance (th_server s)) of (x, inst'') \<Rightarrow> \<exists>c''. x = Inr c'' \<and>
        th_next os ndebug (E_read_failed j i) s = Some (s\<lparr>th_server := (set_conn i c'' (th_server s))\<lparr>sv_instance := inst''\<rparr>\<rparr>))"
proof -
  have s: "shape s" using th_run_core [OF run shape_start] by simp
  have j: "j < length (th_conn s)" "j < length (th_pc s)" "th_conn s ! j = None" "j \<notin> set (th_returned s)" using s assms(2) by (auto simp: shape_def waits_def)
  have i: "i < length (sv_conns (th_server s))" using conn_atD [OF assms(3) s] by simp
  let ?c = "c\<lparr>cn_data := bs @ drop (length bs) (cn_data c)\<rparr>"
  obtain x inst1 where h: "handle_query os ndebug bs (sv_instance (th_server s)) = (x, inst1)" by fastforce
  have x: "inst1 = inst'" "r = map_sum id (\<lambda>a. write_answer a ?c) x" "x \<noteq> Inl Nonterminating"
    using read h by (auto simp: on_read_query split: sum.splits)
  obtain n inst2 where n: "(wstep os ndebug ^^ n) (P_start bs, sv_instance (th_server s)) = (case x of Inr a \<Rightarrow> P_done a | Inl e \<Rightarrow> P_dead e, inst2)"
      "(case x of Inr a \<Rightarrow> P_done a | Inl e \<Rightarrow> P_dead e) = P_dead Undefined \<or> inst2 = inst'"
    using query_reaches [OF safe h x(3)] x(1) by (auto simp: reaches_def)
  obtain k where k: "th_run os ndebug (E_receive j i bs # replicate k (E_step j)) s
      = Some (s\<lparr>th_server := (set_conn i (?c\<lparr>cn_io := Closed\<rparr>) (th_server s))\<lparr>sv_instance := inst2\<rparr>,
          th_conn := (th_conn s)[j := Some i], th_pc := (th_pc s)[j := case x of Inr a \<Rightarrow> P_done a | Inl e \<Rightarrow> P_dead e]\<rparr>)"
    (is "_ = Some ?s2")
    using receive_run [OF s assms(2-6) n(1)] by auto
  have failed: "th_next os ndebug (E_read_failed j i) s = Some (s\<lparr>th_server := set_conn i (c\<lparr>cn_io := Closed\<rparr>) (th_server s)\<rparr>)"
    using assms(2-4) by (simp add: th_next.simps)
  show ?thesis
  proof (cases x)
    case (Inl e)
    then show ?thesis using k n(2) x(2) j failed by (fastforce simp: on_read_def set_conn_def)
  next
    case (Inr a)
    let ?c' = "write_answer a ?c"
    have w: "write_answer a (?c\<lparr>cn_io := Closed\<rparr>) = ?c'" by (simp add: write_answer_def Let_def)
    have 2: "inst2 = inst'" "r = Inr ?c'" using n(2) Inr x(2) by simp_all
    let ?s3 = "?s2\<lparr>th_server := set_conn i ?c' (th_server ?s2), th_conn := (th_conn ?s2)[j := None]\<rparr>"
    have 3: "th_next os ndebug (E_answer j i) ?s2 = Some ?s3"
      using j i Inr w by (simp add: th_next.simps conn_at_def executes_def set_conn_def)
    have R: "th_run os ndebug (E_receive j i bs # replicate k (E_step j) @ [E_answer j i]) s = Some ?s3"
      using k 3 th_run_append [of os ndebug "E_receive j i bs # replicate k (E_step j)" "[E_answer j i]" s] by simp
    have S: "th_server ?s3 = (set_conn i ?c' (th_server s))\<lparr>sv_instance := inst'\<rparr>" "th_conn ?s3 = th_conn s" "waits j ?s3"
        "\<forall>l. l \<noteq> j \<longrightarrow> th_pc ?s3 ! l = th_pc s ! l"
      using 2(1) j by (simp_all add: list_update_same_conv set_conn_def waits_def)
    have "\<exists>k s'. th_run os ndebug (E_receive j i bs # replicate k (E_step j) @ [E_answer j i]) s = Some s'
        \<and> th_server s' = (set_conn i ?c' (th_server s))\<lparr>sv_instance := inst'\<rparr> \<and> th_conn s' = th_conn s \<and> waits j s'
        \<and> (\<forall>l. l \<noteq> j \<longrightarrow> th_pc s' ! l = th_pc s ! l)"
      by (intro exI conjI) (rule R, rule S(1), rule S(2), rule S(3), rule S(4))
    then show ?thesis unfolding 2(2) sum.case using failed by (simp add: on_read_def set_conn_def)
  qed
qed

text \<open>(C8) On every connection, however the threads interleave and on any device: a request is received only when the answer to the one before
  has been sent, its answer is written by the thread that received it, and after a failed read or write nothing more happens.  The
  connection is in the state this order leads to.\<close>

theorem threads_follow_protocol:
  assumes "th_run os ndebug es (Server_Run (Server_ctor w inst)) = Some s"
  shows "\<exists>L. lives Is_reading (filter (about i) es) = Some L \<and> in_life i L s"
  using th_run_life [OF assms shape_start] by (simp add: Server_Run_def Server_ctor_def conn_at_def)

section \<open>Examples\<close>

text \<open>Two threads have received a request each, of two connections, and both have taken a step.\<close>

definition two_requests :: "th_event list" where
  "two_requests = [E_accept 0 True, E_accept 1 True, E_receive 1 0 ''INSERT'', E_receive 0 1 ''SELECT'', E_step 0, E_step 1]"

lemma two_requests_run:
  assumes "1 < unat w"
  shows "\<exists>s. th_run os ndebug two_requests (Server_Run (Server_ctor w inst)) = Some s \<and> executes 1 0 s \<and> executes 0 1 s"
proof -
  obtain k where k: "unat w = Suc (Suc k)" using assms by (metis One_nat_def less_imp_Suc_add add_Suc_right add_0 plus_1_eq_Suc)
  then show ?thesis
    by (simp add: two_requests_def th_defs Server_Run_def Server_ctor_def on_accept_def Connection_Start_def DoRead_def MAX_LENGTH_def split: prod.split)
qed

text \<open>A connection whose client sends unknown statements, as many as it likes, all executed by thread 0.\<close>

definition cycle :: "th_event list" where
  "cycle = [E_receive 0 0 ''DROP'', E_step 0, E_answer 0 0, E_sent 0 0 True]"

definition ready :: "'d threaded \<Rightarrow> bool" where
  "ready s \<longleftrightarrow> waits 0 s \<and> th_pc s \<noteq> [] \<and> (\<exists>c cs. sv_conns (th_server s) = c # cs \<and> cn_io c = Reading)"

lemma cycle_run: "ready s \<Longrightarrow> \<exists>s'. th_run os ndebug cycle s = Some s' \<and> ready s'"
  by (cases "th_pc s"; cases "th_conn s")
    (auto simp: ready_def cycle_def th_defs wsteps has_prefix_def MAX_LENGTH_def write_answer_def on_write_def DoRead_def)

lemma cycles_run: "ready s \<Longrightarrow> \<exists>s'. th_run os ndebug (concat (replicate n cycle)) s = Some s' \<and> ready s'"
proof (induction n arbitrary: s)
  case (Suc n)
  obtain s1 where "th_run os ndebug cycle s = Some s1" "ready s1" using cycle_run [OF Suc.prems] by blast
  then show ?case using Suc.IH [of s1] by (simp add: th_run_append)
qed simp

theorem threads_serve_safely_witness:
  "\<exists>inst d s. main_start sim_os fresh_device = (Inr inst, d)
     \<and> th_run sim_os False two_requests (Server_Run (Server_ctor (pool_size 8) inst)) = Some s \<and> executes 1 0 s \<and> executes 0 1 s
     \<and> pins (in_bpm (sv_instance (th_server s))) = pins_of (th_pc s)"
proof -
  have o: "opened sim_os ''stingdb_data.db'' fresh_device = (3, fresh_device)" "os_queue_init sim_os fresh_device 256 = (0, fresh_device)"
      "sim_phase fresh_device = Idle"
    by (simp_all add: opened_def sim_os_def fresh_device_def)
  then obtain inst where i: "main_start sim_os fresh_device = (Inr inst, fresh_device)"
    by (simp add: main_start_def DiskManager_ctor_opened)
  have p: "unat (pool_size 8) = 8" by (simp add: pool_size_def)
  obtain s where s: "th_run sim_os False two_requests (Server_Run (Server_ctor (pool_size 8) inst)) = Some s" "executes 1 0 s" "executes 0 1 s"
    using two_requests_run [of "pool_size 8" sim_os False inst] p by auto
  have "pins (in_bpm (sv_instance (th_server s))) = pins_of (th_pc s)"
    using threads_serve_safely [OF i reliable_sim.reliable_device_axioms o(3,1) _ s(1)] p by (simp add: two_requests_def)
  then show ?thesis using i s by blast
qed

theorem threads_answer_witness:
  "\<exists>s s'. th_run sim_os False [E_accept 0 True] (Server_Run (Server_ctor 2 (StingInstance_ctor (fresh_pool 2)))) = Some s
     \<and> th_run sim_os False (concat (replicate (Suc request_steps) cycle)) s = Some s' \<and> (\<exists>i. E_answer 0 i \<in> set (concat (replicate (Suc request_steps) cycle)))"
proof -
  let ?s0 = "Server_Run (Server_ctor 2 (StingInstance_ctor (fresh_pool 2)))"
  obtain s where s: "th_run sim_os False [E_accept 0 True] ?s0 = Some s" "ready s"
    by (simp add: th_defs Server_Run_def Server_ctor_def on_accept_def Connection_Start_def DoRead_def ready_def)
  obtain s' where s': "th_run sim_os False (concat (replicate (Suc request_steps) cycle)) s = Some s'" using cycles_run [OF s(2)] by blast
  have count: "count_list (concat (replicate n cycle)) (E_step 0) = n" "length (concat (replicate n cycle)) = 4 * n" for n
    by (induction n) (simp_all add: cycle_def)
  have "\<exists>i. E_answer 0 i \<in> set (concat (replicate (Suc request_steps) cycle))"
    using threads_answer [where j = 0 and ?es2.0 = "concat (replicate (Suc request_steps) cycle)", OF reliable_sim.reliable_device_axioms _ _ _ _ _ _ s(1) [unfolded fresh_pool_def]]
      s' count [of "Suc request_steps"] by (simp add: fresh_device_def request_steps_def row_limit_def del: set_concat concat.simps replicate.simps)
  then show ?thesis using s(1) s' by blast
qed

theorem one_thread_is_the_handler_witness:
  "\<exists>s k s' c'. th_run sim_os False [E_accept 0 True] (Server_Run (Server_ctor 2 (StingInstance_ctor (fresh_pool 2)))) = Some s
     \<and> th_run sim_os False (E_receive 1 0 ''DROP'' # replicate k (E_step 1) @ [E_answer 1 0]) s = Some s' \<and> waits 1 s'
     \<and> sv_conns (th_server s') = [c'] \<and> outgoing c' = ''Error: Unsupported statement. Try CREATE TABLE or BEGIN.'' @ newline"
proof -
  let ?s0 = "Server_Run (Server_ctor 2 (StingInstance_ctor (fresh_pool 2)))" and ?a = "''Error: Unsupported statement. Try CREATE TABLE or BEGIN.'' @ newline"
  obtain s where s: "th_run sim_os False [E_accept 0 True] ?s0 = Some s" "waits 1 s" "conn_at 0 s = Some Connection_Start"
      "sv_conns (th_server s) = [Connection_Start]" "sv_instance (th_server s) = StingInstance_ctor (fresh_pool 2)"
    by (simp add: th_defs Server_Run_def Server_ctor_def on_accept_def)
  have io: "cn_io Connection_Start = Reading" "length (cn_data Connection_Start) = MAX_LENGTH" by (simp_all add: Connection_Start_def DoRead_def)
  have safe: "pool_safe (in_bpm (sv_instance (th_server s)))"
    using pool_invD(1) [OF pool_inv_ctor] s(5) by (simp add: StingInstance_ctor_def fresh_pool_def)
  let ?c = "write_answer ?a (Connection_Start\<lparr>cn_data := ''DROP'' @ drop (length ''DROP'') (cn_data Connection_Start)\<rparr>)"
  have "on_read sim_os False (Some ''DROP'') Connection_Start (sv_instance (th_server s)) = (Inr ?c, sv_instance (th_server s))"
    by (simp add: on_read_query handle_query_def dispatch_def has_prefix_def)
  from one_thread_is_the_handler [OF s(1-3) io(1) _ _ safe this]
  obtain k s' where "th_run sim_os False (E_receive 1 0 ''DROP'' # replicate k (E_step 1) @ [E_answer 1 0]) s = Some s'" "waits 1 s'"
      "th_server s' = (set_conn 0 ?c (th_server s))\<lparr>sv_instance := sv_instance (th_server s)\<rparr>"
    by (auto simp: MAX_LENGTH_def)
  moreover have "outgoing ?c = ?a"
    using write_answer_simps(1) [of "Connection_Start\<lparr>cn_data := ''DROP'' @ drop (length ''DROP'') (cn_data Connection_Start)\<rparr>" ?a] io(2)
    by (simp add: MAX_LENGTH_def DoWriteAnswer_def)
  ultimately show ?thesis using s(1,4) by (intro exI conjI) (auto simp: set_conn_def)
qed

theorem threads_follow_protocol_witness:
  "\<exists>s. th_run sim_os False two_requests (Server_Run (Server_ctor 2 (StingInstance_ctor (fresh_pool 2)))) = Some s
    \<and> lives Is_reading (filter (about 0) two_requests) = Some (Is_executed 1) \<and> in_life 0 (Is_executed 1) s"
proof -
  obtain s where s: "th_run sim_os False two_requests (Server_Run (Server_ctor 2 (StingInstance_ctor (fresh_pool 2)))) = Some s"
    using two_requests_run [of 2 sim_os False] by auto
  then show ?thesis using threads_follow_protocol [OF s, of 0] by (simp add: two_requests_def)
qed

end
