(* ===== verification/Crew_Runs.thy ===== *)
theory Crew_Runs
  imports Thread_Pool
begin

text \<open>
  Properties of the server with all its threads that hold in every reachable state.  The locale \<open>crew_property\<close> states what a
  property of the instance and the threads must survive, a step of a thread and a new request; it then holds after every run of
  events.  The two lemmas before it say what a step does to the table description and to the pages of the pool.
\<close>

section \<open>What a step does to the table\<close>

definition users :: "'d sting_instance \<Rightarrow> table_info option" where
  "users inst = cat_dir (in_catalog inst) ''users''"

abbreviation created_text :: string where
  "created_text \<equiv> ''Success: Table '' @ users_quoted @ '' created.'' @ newline"

lemma txn_users [simp]: "begin_txn inst = (r, inst') \<Longrightarrow> in_bpm inst' = in_bpm inst \<and> in_catalog inst' = in_catalog inst"
  "commit_txn txn inst = (u, inst') \<Longrightarrow> in_bpm inst' = in_bpm inst \<and> in_catalog inst' = in_catalog inst"
  "log_insert txn rec inst = (lsn, inst') \<Longrightarrow> in_bpm inst' = in_bpm inst \<and> in_catalog inst' = in_catalog inst"
  "do_begin inst = (a, inst') \<Longrightarrow> in_bpm inst' = in_bpm inst \<and> in_catalog inst' = in_catalog inst"
  by (auto simp: begin_txn_def commit_txn_def log_insert_def do_begin_def Let_def split: prod.splits sum.splits option.splits)

lemma crew_create_step:
  assumes c: "crew fd blocks phase n (inst, ws)" and i: "i < length ws" and d: "do_create inst = (r, inst')"
  shows "in_bpm inst' = in_bpm inst \<and> in_txn_manager inst' = in_txn_manager inst
    \<and> (case users inst of None \<Rightarrow> r = Inr created_text \<and> (\<exists>ti. users inst' = Some ti \<and> ti_first_page_id ti = INVALID_PAGE_ID)
       | Some ti \<Rightarrow> r = Inl (Runtime_error (''Table already exists: '' @ ''users'')) \<and> inst' = inst)"
proof (cases "users inst")
  case None
  then have cat: "cat_inv (in_catalog inst)" "cat_room (in_catalog inst)" "cat_dir (in_catalog inst) ''users'' = None"
    using crewD(4) [OF c i] by (auto simp: managers_ok_def users_def)
  obtain j c' where "CreateTable ''users'' (Schema_ctor users_columns) INVALID_PAGE_ID (in_catalog inst) = (Inr j, c')"
      "cat_dir c' = (cat_dir (in_catalog inst))(''users'' \<mapsto> \<lparr>ti_id = j, ti_name = ''users'', ti_schema = Schema_ctor users_columns, ti_first_page_id = INVALID_PAGE_ID\<rparr>)"
    using tables.create_new [OF cat] by blast
  then show ?thesis using d None by (auto simp: do_create_def BindCreateTable_def users_def)
next
  case (Some ti)
  then show ?thesis
    using d crewD(4) [OF c i] tables.create_dup [of "in_catalog inst" "''users''" "Schema_ctor users_columns" INVALID_PAGE_ID]
    by (auto simp: managers_ok_def do_create_def BindCreateTable_def users_def)
qed

text \<open>Whether the table exists, and has a first page.\<close>

lemma step_users:
  assumes c: "crew fd blocks phase n (inst, ws)" and i: "i < length ws" and n: "n < 2 ^ 32 - 1" and s: "wstep os ndebug (ws ! i, inst) = (w, inst')"
    and dev: "reliable_device os fd blocks phase wait"
  shows "users inst' = users inst \<and> (\<forall>t p pid f. ws ! i \<noteq> P_ins_link t p pid f)
    \<or> (\<exists>q ti. ws ! i = P_start q \<and> has_prefix ''CREATE TABLE'' q \<and> users inst = None \<and> users inst' = Some ti \<and> ti_first_page_id ti = INVALID_PAGE_ID)
    \<or> (\<exists>t p pid f ti. ws ! i = P_ins_link t p pid f \<and> users inst = Some ti \<and> users inst' = Some (UpdateFirstPageId pid ti))"
proof (cases "ws ! i")
  case (P_start q)
  then show ?thesis
  proof (cases "has_prefix ''CREATE TABLE'' q")
    case True
    obtain r inst1 where d: "do_create inst = (r, inst1)" by fastforce
    have "inst' = inst1" using s d True by (simp add: P_start wsteps)
    then show ?thesis using crew_create_step [OF c i d] P_start True by (auto split: option.splits)
  next
    case False
    then show ?thesis using s P_start by (auto simp: wsteps users_def split: if_splits prod.splits sum.splits)
  qed
next
  case (P_ins_link t p pid f)
  obtain ti where T: "cat_dir (in_catalog inst) ''users'' = Some ti" "ti_id ti = p" using own_table [OF c i, of p] P_ins_link by auto
  have cat: "cat_inv (in_catalog inst)" using crewD(4) [OF c i] by (simp add: managers_ok_def)
  show ?thesis using s T update_first_page_dir(2) [OF cat T(1), of pid] P_ins_link by (auto simp: wsteps users_def)
next
  case (P_ins_new t p)
  then show ?thesis using s reliable_device.crew_new [OF dev c i P_ins_new n] by (auto simp: wsteps users_def)
qed (use s in \<open>auto simp: wsteps users_def set_page_def unpin_def Let_def split: if_splits prod.splits sum.splits option.splits\<close>)

section \<open>What a step does to the pool\<close>

text \<open>A step that neither loads nor allocates a page.\<close>

definition same_pages :: "'d bpm \<Rightarrow> 'd bpm \<Rightarrow> bool" where
  "same_pages s s' \<longleftrightarrow> bp_disk s' = bp_disk s \<and> bp_page_table s' = bp_page_table s \<and> bp_free s' = bp_free s \<and> bp_pool_size s' = bp_pool_size s"

lemma same_pages_simps [simp]: "same_pages s s" "same_pages (in_bpm inst) (in_bpm (set_page f pg inst))"
  "FetchPage os pid s = (r, s') \<Longrightarrow> bp_page_table s pid \<noteq> None \<Longrightarrow> same_pages s s'"
  "UnpinPage ndebug pid b s = (u, s') \<Longrightarrow> same_pages s s'"
  by (auto simp: same_pages_def set_page_def upd_page_def FetchPage_def UnpinPage_def Let_def split: option.splits if_splits)

lemma step_pages:
  assumes c: "crew fd blocks phase n (inst, ws)" and i: "i < length ws" and s: "wstep os ndebug (ws ! i, inst) = (w, inst')"
    and new: "\<And>t p. ws ! i \<noteq> P_ins_new t p" and page: "\<And>pid. pc_page (ws ! i) = Some pid \<Longrightarrow> bp_page_table (in_bpm inst) pid \<noteq> None"
  shows "same_pages (in_bpm inst) (in_bpm inst')"
proof (cases "ws ! i")
  case (P_start q)
  obtain r inst1 where d: "do_create inst = (r, inst1)" by fastforce
  show ?thesis using s crew_create_step [OF c i d] d by (auto simp: P_start wsteps split: if_splits prod.splits sum.splits)
next
  case (P_ins_new t p)
  then show ?thesis using new by blast
next
  case (P_sel_next t pid slot cnt)
  then show ?thesis using s page by (cases "pid = INVALID_PAGE_ID") (auto simp: wsteps split: prod.splits sum.splits option.splits)
next
  case (P_ins_fetch t p pid)
  then show ?thesis using s page by (auto simp: wsteps split: prod.splits sum.splits option.splits)
qed (use s in \<open>auto simp: wsteps unpin_def Let_def split: if_splits prod.splits sum.splits option.splits\<close>)

section \<open>Properties of all reachable states\<close>

locale crew_property = reliable_device os fd blocks phase wait
  for os :: "'d os" and fd blocks phase wait +
  fixes Q :: "'d sting_instance \<times> pc list \<Rightarrow> bool"
  assumes step: "crew fd blocks phase n (inst, ws) \<Longrightarrow> Q (inst, ws) \<Longrightarrow> i < length ws \<Longrightarrow> n < 2 ^ 32 - 1 \<Longrightarrow> wstep os ndebug (ws ! i, inst) = (w, inst') \<Longrightarrow>
      Q (inst', ws[i := w])"
    and request: "Q (inst, ws) \<Longrightarrow> i < length ws \<Longrightarrow> ws ! i = P_done a \<Longrightarrow> Q (inst, ws[i := P_start q])"
begin

lemma act_keeps: "crew fd blocks phase n c \<Longrightarrow> Q c \<Longrightarrow> n < 2 ^ 32 - 1 \<Longrightarrow> Q (act os ndebug e c)"
  by (cases "(os, ndebug, e, c)" rule: act.cases) (auto intro: step request split: prod.split)

lemma schedule_keeps_Q: "crew fd blocks phase n c \<Longrightarrow> Q c \<Longrightarrow> n + length es < 2 ^ 32 \<Longrightarrow> Q (schedule os ndebug es c)"
proof (induction es arbitrary: n c)
  case (Cons e es)
  then show ?case using crew_act [OF Cons.prems(1), of ndebug e] act_keeps [OF Cons.prems(1,2), of ndebug e] by simp
qed simp

lemma run_keeps:
  assumes "th_ok fd blocks phase n s" and "Q (core s)" and "th_run os ndebug es s = Some s'" and "n + length es < 2 ^ 32"
  shows "Q (core s')"
proof -
  have "n + length (concat (map work_of es)) < 2 ^ 32" using length_work_of [of es] assms(4) by simp
  then show ?thesis
    using th_run_core [OF assms(3)] schedule_keeps_Q [of n "core s"] assms(1,2) by (simp add: th_ok_def)
qed

end

end
