(* ===== verification/Never_Written.thy ===== *)
theory Never_Written
  imports Crew_Runs
begin

text \<open>
  No thread of the server ever reads or writes the file.  Every \<open>INSERT\<close> that finds the table without a page allocates one, so at most
  as many pages are allocated as there are threads; with at least that many frames no page is ever evicted or read back, and
  nothing but eviction and shutdown writes.  \<^verbatim>\<open>main.cpp\<close> has 4096 frames and no way to shut down.
\<close>

section \<open>The invariant\<close>

fun allocates :: "pc \<Rightarrow> bool" where
  "allocates (P_ins_new t p) = True"
| "allocates _ = False"

fun links :: "pc \<Rightarrow> bool" where
  "links (P_ins_link t p pid f) = True"
| "links _ = False"

definition linked :: "'d sting_instance \<Rightarrow> bool" where
  "linked inst \<longleftrightarrow> (\<exists>ti. users inst = Some ti \<and> ti_first_page_id ti \<noteq> INVALID_PAGE_ID)"

text \<open>Every page number handed out is resident and has taken its frame from the free list; the pages that are allocated and those that
  are about to be are not more than the threads.  While the table has no page, each allocated page belongs to a thread that is about
  to make it the first.\<close>

definition unwritten :: "'d \<Rightarrow> 'd sting_instance \<times> pc list \<Rightarrow> bool" where
  "unwritten d c \<longleftrightarrow> (case c of (inst, ws) \<Rightarrow>
     dm_ring (bp_disk (in_bpm inst)) = d
     \<and> (\<forall>pid. unat pid < unat (next_id (in_bpm inst)) \<longrightarrow> bp_page_table (in_bpm inst) pid \<noteq> None)
     \<and> length (bp_free (in_bpm inst)) + unat (next_id (in_bpm inst)) = bp_pool_size (in_bpm inst)
     \<and> unat (next_id (in_bpm inst)) + length (filter allocates ws) \<le> length ws
     \<and> (linked inst \<or> unat (next_id (in_bpm inst)) \<le> length (filter links ws)))"

lemma finish_allocates [simp]: "finish r \<noteq> P_ins_new t p"
  by (cases r) (simp_all add: finish.simps split: option.split)

lemma page_allocates [simp]: "put_next txn pid f row i \<noteq> P_ins_new t p" "get_next txn pid f slot cnt g \<noteq> P_ins_new t p"
  by (cases "(txn, pid, f, row, i)" rule: put_next.cases; simp) (cases g; simp)

lemma step_allocates:
  assumes "wstep os ndebug (v, inst) = (P_ins_new t p, inst')"
  shows "v = P_ins_read t p" "inst' = inst" "\<exists>ti. table_at p (in_catalog inst) = Inr ti \<and> ti_first_page_id ti = INVALID_PAGE_ID"
proof -
  have "v = P_ins_read t p \<and> inst' = inst \<and> (\<exists>ti. table_at p (in_catalog inst) = Inr ti \<and> ti_first_page_id ti = INVALID_PAGE_ID)"
    using assms by (cases v) (simp_all add: wsteps Let_def split: if_splits prod.splits sum.splits option.splits)
  then show "v = P_ins_read t p" "inst' = inst" "\<exists>ti. table_at p (in_catalog inst) = Inr ti \<and> ti_first_page_id ti = INVALID_PAGE_ID"
    by simp_all
qed

lemma filter_disjoint:
  assumes "i < length ws" and "\<not> P (ws ! i)" and "\<not> R (ws ! i)" and "\<And>w. P w \<Longrightarrow> \<not> R w"
  shows "length (filter P ws) + length (filter R ws) < length ws"
proof -
  have "length (filter P ws) + length (filter R ws) = length (filter (\<lambda>w. P w \<or> R w) ws)"
    using assms(4) by (induction ws) auto
  also have "\<dots> < length ws" using assms(1-3) by (intro length_filter_less [of "ws ! i"]) simp_all
  finally show ?thesis .
qed

lemma unwritten_other:
  assumes u: "unwritten d (inst, ws)" and i: "i < length ws" and p: "same_pages (in_bpm inst) (in_bpm inst')"
    and w: "\<not> allocates w" and l: "linked inst \<Longrightarrow> linked inst'" "links (ws ! i) \<Longrightarrow> linked inst'"
  shows "unwritten d (inst', ws[i := w])"
  using u p w l filter_update [OF i, of allocates w] filter_update [OF i, of links w]
  by (fastforce simp: unwritten_def same_pages_def split: if_splits)

context reliable_device
begin

lemma unwritten_new:
  assumes c: "crew fd blocks phase n (inst, ws)" and u: "unwritten d (inst, ws)" and i: "i < length ws" and n: "n < 2 ^ 32 - 1"
    and pc: "ws ! i = P_ins_new t p" and s: "wstep os ndebug (ws ! i, inst) = (w, inst')"
  shows "unwritten d (inst', ws[i := w])"
proof -
  have "0 < length (filter allocates ws)" using i nth_mem [OF i] pc by (force simp: length_greater_0_conv filter_empty_conv)
  then have "unat (next_id (in_bpm inst)) < bp_pool_size (in_bpm inst)" using u crewD(2) [OF c i] unfolding unwritten_def prod.case by linarith
  then obtain f fs where free: "bp_free (in_bpm inst) = f # fs" using u by (cases "bp_free (in_bpm inst)") (auto simp: unwritten_def)
  have le: "unat (next_id (in_bpm inst)) \<le> n" using crewD(4) [OF c i] by (simp add: managers_ok_def)
  then have nx: "unat (next_id (in_bpm inst) + 1) = Suc (unat (next_id (in_bpm inst)))" using n by (simp add: unat_word_ariths)
  obtain b where b: "w = P_ins_link t p (next_id (in_bpm inst)) f" "inst' = inst\<lparr>in_bpm := b\<rparr>" "dm_ring (bp_disk b) = dm_ring (bp_disk (in_bpm inst))"
      "next_id b = next_id (in_bpm inst) + 1" "bp_page_table b = (bp_page_table (in_bpm inst))(next_id (in_bpm inst) \<mapsto> f)"
      "bp_free b = fs" "bp_pool_size b = bp_pool_size (in_bpm inst)"
    using s free by (auto simp: pc wsteps NewPage_def acquire_frame_def AllocatePage_def Let_def upd_page_def)
  have "bp_page_table b pid \<noteq> None" if "unat pid < unat (next_id b)" for pid
    using that u by (auto simp: b(4,5) nx less_Suc_eq word_unat_eq_iff unwritten_def)
  moreover have "linked inst' = linked inst" by (simp add: b(2) linked_def users_def)
  ultimately show ?thesis
    using u b free nx filter_update [OF i, of allocates w] filter_update [OF i, of links w] pc
    by (simp add: unwritten_def)
qed

lemma unwritten_step:
  assumes c: "crew fd blocks phase n (inst, ws)" and u: "unwritten d (inst, ws)" and i: "i < length ws" and n: "n < 2 ^ 32 - 1"
    and s: "wstep os ndebug (ws ! i, inst) = (w, inst')"
  shows "unwritten d (inst', ws[i := w])"
proof (cases "allocates (ws ! i)")
  case True
  then obtain t p where "ws ! i = P_ins_new t p" by (cases "ws ! i") auto
  then show ?thesis using unwritten_new [OF c u i n _ s] by blast
next
  case False
  have res: "bp_page_table (in_bpm inst) pid \<noteq> None" if "pc_page (ws ! i) = Some pid" for pid
    using that crewD(5) [OF c i] u by (auto simp: worker_ok_def unwritten_def)
  have pages: "same_pages (in_bpm inst) (in_bpm inst')" using False by (intro step_pages [OF c i s _ res]) auto
  have l: "linked inst'" if "linked inst \<or> links (ws ! i)"
  proof -
    have "pid \<noteq> INVALID_PAGE_ID" if "ws ! i = P_ins_link t p pid f" for t p pid f
    proof -
      have "unat pid < unat (next_id (in_bpm inst))" using crewD(5) [OF c i] that by (simp add: worker_ok_def)
      then have "unat pid < n" using crewD(4) [OF c i] by (simp add: managers_ok_def)
      then show ?thesis using n by (auto simp: INVALID_PAGE_ID_def)
    qed
    then show ?thesis
      using step_users [OF c i n s reliable_device_axioms] that s by (cases "ws ! i") (auto simp: linked_def UpdateFirstPageId_def)
  qed
  show ?thesis
  proof (cases "allocates w")
    case no: False
    then show ?thesis using l by (intro unwritten_other [OF u i pages]) auto
  next
    case True
    then obtain t p where w: "w = P_ins_new t p" by (cases w) auto
    note read = step_allocates [OF s [unfolded w]]
    obtain ti where "users inst = Some ti" "table_at p (in_catalog inst) = Inr ti"
      using own_table [OF c i, of p] read(1) by (auto simp: users_def)
    then have "\<not> linked inst" using read(3) by (auto simp: linked_def)
    moreover have "length (filter allocates ws) + length (filter links ws) < length ws"
    proof (rule filter_disjoint [OF i])
      show "\<not> links v" if "allocates v" for v using that by (cases v) simp_all
    qed (simp_all add: read)
    ultimately show ?thesis
      using u read w filter_update [OF i, of allocates w] filter_update [OF i, of links w] by (auto simp: unwritten_def)
  qed
qed

end

sublocale reliable_device \<subseteq> written: crew_property os fd blocks phase wait "unwritten d" for d
proof
  show "unwritten d (inst', ws[i := w])"
    if "crew fd blocks phase n (inst, ws)" "unwritten d (inst, ws)" "i < length ws" "n < 2 ^ 32 - 1" "wstep os ndebug (ws ! i, inst) = (w, inst')"
    for n inst ws i ndebug w inst'
    using unwritten_step that by blast
  show "unwritten d (inst, ws[i := P_start q])" if "unwritten d (inst, ws)" "i < length ws" "ws ! i = P_done a" for inst ws i a q
    using that by (intro unwritten_other) simp_all
qed

context reliable_device
begin

lemmas run_unwritten = written.run_keeps

end

section \<open>The program\<close>

text \<open>\<open>main\<close> up to the event loop: the exit code when start-up throws, else the server with all its threads.  Whether the port can be bound is
  up to Boost.Asio, \<open>hardware_threads\<close> up to the machine.\<close>

definition main_threads :: "'d os \<Rightarrow> bool \<Rightarrow> u64 \<Rightarrow> 'd \<Rightarrow> int + 'd threaded" where
  "main_threads os port_bound hardware_threads d =
     (case fst (main_start os d) of
        Inl e \<Rightarrow> Inl 1
      | Inr inst \<Rightarrow> if port_bound then Inr (Server_Run (Server_ctor (pool_size hardware_threads) inst)) else Inl 1)"

text \<open>The device after start-up.\<close>

definition ring_of :: "'d threaded \<Rightarrow> 'd" where
  "ring_of s = dm_ring (bp_disk (in_bpm (sv_instance (th_server s))))"

lemma main_threads_start:
  assumes "main_threads os port_bound hardware_threads d0 = Inr s0" and "opened os ''stingdb_data.db'' d0 = (fd, d1)"
    and "phase (ring_of s0) = Idle" and "unat (pool_size hardware_threads) \<le> 4096"
  shows "th_ok fd blocks phase 0 s0" "unwritten (ring_of s0) (core s0)" "length (th_pc s0) = unat (pool_size hardware_threads)"
proof -
  obtain dm where s0: "s0 = Server_Run (Server_ctor (pool_size hardware_threads) (StingInstance_ctor (BufferPoolManager_ctor 4096 dm)))"
      "dm_fd dm = fd" "dm_next_page_id dm = 0"
    using assms(1,2) by (auto simp: main_threads_def main_start_def DiskManager_ctor_opened split: prod.splits if_splits sum.splits)
  then have r: "ring_of s0 = dm_ring dm" by (simp add: ring_of_def Server_Run_def Server_ctor_def StingInstance_ctor_def BufferPoolManager_ctor_def)
  show "th_ok fd blocks phase 0 s0" unfolding s0(1) by (rule th_ok_start) (use s0(2,3) r assms(3,4) in simp_all)
  have none: "filter allocates (replicate k (P_done [])) = []" for k by simp
  show "unwritten (ring_of s0) (core s0)"
    unfolding r unfolding s0(1) core_start using s0(3) by (simp add: unwritten_def StingInstance_ctor_def BufferPoolManager_ctor_def)
  show "length (th_pc s0) = unat (pool_size hardware_threads)" by (simp add: s0(1) Server_Run_def Server_ctor_def)
qed

lemma pool_size_pos: "0 < unat (pool_size n)"
proof -
  have "pool_size n \<noteq> 0" by (auto simp: pool_size_def)
  then show ?thesis by (simp add: unat_gt_0)
qed

section \<open>Properties\<close>

text \<open>(C13) The file is never written, nor read: whatever connections come, whatever they request and however the threads interleave, the
  device is at every moment as it was when the server began to listen.  Nothing that a client was told to be committed
  is ever on it.\<close>

theorem main_never_writes:
  assumes "main_threads os port_bound hardware_threads d0 = Inr s0" and "opened os ''stingdb_data.db'' d0 = (fd, d1)"
    and "reliable_device os fd blocks phase wait" and "phase (ring_of s0) = Idle" and "unat (pool_size hardware_threads) \<le> 4096"
    and "th_run os ndebug es s0 = Some s" and "length es < 2 ^ 32"
  shows "ring_of s = ring_of s0"
proof -
  note S = main_threads_start [where phase = phase, OF assms(1,2,4,5)]
  have "unwritten (ring_of s0) (core s)"
    using reliable_device.run_unwritten [OF assms(3) S(1,2) assms(6)] assms(7) by simp
  then show ?thesis by (simp add: unwritten_def core_def ring_of_def)
qed

text \<open>Threads return from \<open>io_context_.run()\<close> only when nothing is pending; the acceptor always is, except while its handler runs.\<close>

definition listening :: "'d threaded \<Rightarrow> bool" where
  "listening s \<longleftrightarrow> sv_accepting (th_server s) \<and> th_returned s = []"

lemma listening_start: "listening (Server_Run (Server_ctor w inst))"
  by (simp add: listening_def Server_Run_def Server_ctor_def)

lemma listening_next:
  assumes "th_next os ndebug e s = Some s'" and "listening s"
  shows "listening s'"
  using assms
  by (cases e)
    (auto simp: listening_def th_defs pending_def on_accept_def split: option.splits if_splits prod.splits bool.splits pc.splits conn_io.splits)

lemma listening_run: "th_run os ndebug es s = Some s' \<Longrightarrow> listening s \<Longrightarrow> listening s'"
  by (induction es arbitrary: s) (auto split: option.splits dest: listening_next)

text \<open>(C32) \<open>main\<close> exits with code 1 when start-up fails; otherwise it never returns, and the destructors that would write the pages never run: there is
  at least one thread to join, no thread ever returns from \<open>io_context_.run()\<close>, and in every state some thread can
  accept a connection, take a step or write its answer.\<close>

theorem main_never_returns:
  assumes "opened os ''stingdb_data.db'' d0 = (fd, d1)" and "os_queue_init os d1 256 = (r, d2)"
    and dev: "0 \<le> fd \<Longrightarrow> 0 \<le> r \<Longrightarrow> reliable_device os fd blocks phase wait \<and> phase d2 = Idle" and "unat (pool_size hardware_threads) \<le> 4096"
  shows "if fd < 0 \<or> r < 0 \<or> \<not> port_bound then main_threads os port_bound hardware_threads d0 = Inl 1
    else \<exists>s0. main_threads os port_bound hardware_threads d0 = Inr s0
      \<and> (\<forall>es s. th_run os ndebug es s0 = Some s \<longrightarrow>
           0 < length (th_conn s) \<and> th_returned s = [] \<and> (\<forall>j. th_next os ndebug (E_return j) s = None)
           \<and> (length es < 2 ^ 32 \<longrightarrow> (\<exists>e. th_next os ndebug e s \<noteq> None)))"
proof (cases "fd < 0 \<or> r < 0 \<or> \<not> port_bound")
  case True
  then show ?thesis using assms(1,2) by (auto simp: main_threads_def main_start_def DiskManager_ctor_opened split: sum.split)
next
  case False
  then obtain s0 where s0: "main_threads os port_bound hardware_threads d0 = Inr s0" "ring_of s0 = d2"
    using assms(1,2)
    by (simp add: main_threads_def main_start_def DiskManager_ctor_opened ring_of_def Server_Run_def Server_ctor_def StingInstance_ctor_def BufferPoolManager_ctor_def)
  have L0: "listening s0" using s0(1) listening_start by (auto simp: main_threads_def split: sum.splits if_splits)
  have dv: "reliable_device os fd blocks phase wait" "phase (ring_of s0) = Idle" using dev False s0(2) by auto
  note S = main_threads_start [where phase = phase, OF s0(1) assms(1) dv(2) assms(4)]
  have "0 < length (th_conn s) \<and> th_returned s = [] \<and> (\<forall>j. th_next os ndebug (E_return j) s = None)
      \<and> (length es < 2 ^ 32 \<longrightarrow> (\<exists>e. th_next os ndebug e s \<noteq> None))"
    if run: "th_run os ndebug es s0 = Some s" for es s
  proof (intro conjI impI allI)
    have L: "listening s" using listening_run [OF run L0] .
    then show "th_returned s = []" by (simp add: listening_def)
    show "th_next os ndebug (E_return j) s = None" for j using L by (simp add: th_next.simps listening_def pending_def)
    have sh: "shape s0" using S(1) [where blocks = blocks] by (simp add: th_ok_def)
    have len: "length (th_pc s') = length (snd (core s'))" for s' :: "'d threaded" by (simp add: core_def)
    have "shape s" "core s = schedule os ndebug (concat (map work_of es)) (core s0)" using th_run_core [OF run sh] by simp_all
    then have "shape s" "length (th_pc s) = length (th_pc s0)" unfolding len by (simp_all add: length_schedule)
    then show n: "0 < length (th_conn s)" using S(3) pool_size_pos [of hardware_threads] by (simp add: shape_def)
    assume len: "length es < 2 ^ 32"
    have ok: "th_ok fd blocks phase (length es) s" using reliable_device.th_ok_run(1) [OF dv(1) S(1) run] len by simp
    show "\<exists>e. th_next os ndebug e s \<noteq> None"
    proof (cases "waits 0 s")
      case True
      then have "th_next os ndebug (E_accept 0 True) s \<noteq> None" using L by (simp add: th_next.simps listening_def)
      then show ?thesis by blast
    next
      case False
      then obtain i where "executes 0 i s" using n L by (auto simp: waits_def executes_def listening_def)
      then show ?thesis using thread_goes_on [OF ok] by blast
    qed
  qed
  then show ?thesis using False s0(1) by auto
qed

text \<open>Two requests under way on the simulated device.\<close>

lemma main_sim: "opened sim_os ''stingdb_data.db'' fresh_device = (3, fresh_device)" "os_queue_init sim_os fresh_device 256 = (0, fresh_device)"
    "sim_phase fresh_device = Idle" "unat (pool_size 8) = 8"
  by (simp_all add: opened_def sim_os_def fresh_device_def pool_size_def)

theorem main_never_writes_witness:
  "\<exists>s0 s. main_threads sim_os True 8 fresh_device = Inr s0 \<and> th_run sim_os False two_requests s0 = Some s \<and> executes 1 0 s \<and> ring_of s = fresh_device"
proof -
  obtain s0 where s0: "main_threads sim_os True 8 fresh_device = Inr s0" "ring_of s0 = fresh_device"
    using main_sim
    by (simp add: main_threads_def main_start_def DiskManager_ctor_opened ring_of_def Server_Run_def Server_ctor_def StingInstance_ctor_def BufferPoolManager_ctor_def)
  obtain s where s: "th_run sim_os False two_requests s0 = Some s" "executes 1 0 s"
    using s0(1) two_requests_run [of "pool_size 8" sim_os False] main_sim(4) by (auto simp: main_threads_def split: sum.splits if_splits)
  have "ring_of s = ring_of s0"
    using main_never_writes [OF s0(1) main_sim(1) reliable_sim.reliable_device_axioms _ _ s(1)] main_sim(3,4) s0(2)
    by (simp add: two_requests_def)
  then show ?thesis using s0 s by auto
qed

theorem main_never_returns_witness:
  "(\<exists>s0. main_threads sim_os True 8 fresh_device = Inr s0
      \<and> (\<forall>es s. th_run sim_os False es s0 = Some s \<longrightarrow> 0 < length (th_conn s) \<and> th_returned s = [] \<and> th_next sim_os False (E_return 0) s = None))
   \<and> main_threads sim_os False 8 fresh_device = Inl 1"
proof -
  have dv: "reliable_device sim_os 3 sim_blocks sim_phase sd_left \<and> sim_phase fresh_device = Idle"
    using reliable_sim.reliable_device_axioms main_sim(3) by blast
  have n: "unat (pool_size 8) \<le> 4096" by (simp add: main_sim(4))
  show ?thesis
    using main_never_returns [OF main_sim(1,2) dv n, where port_bound = True and ndebug = False]
      main_never_returns [OF main_sim(1,2) dv n, where port_bound = False and ndebug = False] by auto
qed

end
