(* ===== verification/Overlap.thy ===== *)
theory Overlap
  imports Crew_Runs
begin

text \<open>
  What clients are told when requests overlap.  \<open>INSERT\<close> and \<open>SELECT\<close> are not atomic, so the answers need not be those of one order of
  the requests (\<open>Insert_Race\<close>).  What remains true: every answer is one the specification gives to that request in some state, with the
  table present when it was created before the request came in and absent only when it was still absent at the end; the
  creation of the table is acknowledged once, and no two transactions are announced with the same number.
\<close>

section \<open>What clients see\<close>

text \<open>The requests of a run that were received and answered in it, with the bytes sent; \<open>qs\<close> are the requests under way, by thread.\<close>

fun asked :: "th_event \<Rightarrow> (nat \<rightharpoonup> string) \<Rightarrow> (nat \<rightharpoonup> string)" where
  "asked (E_receive j i bs) qs = qs(j \<mapsto> bs)"
| "asked (E_answer j i) qs = qs(j := None)"
| "asked e qs = qs"

fun told :: "th_event \<Rightarrow> (nat \<rightharpoonup> string) \<Rightarrow> 'd threaded \<Rightarrow> (string \<times> string) list" where
  "told (E_answer j i) qs s = (case qs j of None \<Rightarrow> [] | Some q \<Rightarrow> [(q, outgoing (sv_conns (th_server s) ! i))])"
| "told e qs s = []"

fun history :: "'d os \<Rightarrow> bool \<Rightarrow> (nat \<rightharpoonup> string) \<Rightarrow> th_event list \<Rightarrow> 'd threaded \<Rightarrow> (string \<times> string) list" where
  "history os ndebug qs [] s = []"
| "history os ndebug qs (e # es) s =
     (case th_next os ndebug e s of None \<Rightarrow> [] | Some s' \<Rightarrow> told e qs s' @ history os ndebug (asked e qs) es s')"

section \<open>Answers of the specification\<close>

text \<open>\<open>present\<close>: the table existed when the request came in.\<close>

definition possible :: "bool \<Rightarrow> nat \<Rightarrow> 'd sting_instance \<Rightarrow> string \<Rightarrow> string \<Rightarrow> bool" where
  "possible present n inst q a \<longleftrightarrow> (\<exists>t m. a = fst (spec_answer (classify q) t m) \<and> m \<le> n \<and> (\<forall>k. t = Some k \<longrightarrow> k \<le> row_limit)
     \<and> (present \<longrightarrow> t \<noteq> None) \<and> (t \<noteq> None \<longrightarrow> users inst \<noteq> None))"

lemma possibleI:
  "a = fst (spec_answer (classify q) t m) \<Longrightarrow> m \<le> n \<Longrightarrow> (\<And>k. t = Some k \<Longrightarrow> k \<le> row_limit) \<Longrightarrow> (present \<Longrightarrow> t \<noteq> None) \<Longrightarrow> (t \<noteq> None \<Longrightarrow> users inst \<noteq> None) \<Longrightarrow>
   possible present n inst q a"
  unfolding possible_def by blast

lemma possible_mono:
  assumes "possible present n inst q a" and "n \<le> n'" and "users inst \<noteq> None \<Longrightarrow> users inst' \<noteq> None"
  shows "possible present n' inst' q a"
proof -
  obtain t m where "a = fst (spec_answer (classify q) t m)" "m \<le> n" "\<And>k. t = Some k \<Longrightarrow> k \<le> row_limit" "present \<Longrightarrow> t \<noteq> None" "t \<noteq> None \<Longrightarrow> users inst \<noteq> None"
    using assms(1) unfolding possible_def by blast
  then show ?thesis using assms(2,3) by (intro possibleI [of a q t m]) auto
qed

lemma possible_short:
  assumes "possible present n inst q a" and "n < 2 ^ 64"
  shows "DoWriteAnswer a = a"
proof -
  obtain t m where a: "a = fst (spec_answer (classify q) t m)" "m \<le> n" "\<And>k. t = Some k \<Longrightarrow> k \<le> row_limit" using assms(1) by (auto simp: possible_def)
  obtain a' t' m' where "spec_answer (classify q) t m = (a', t', m')" by (metis prod_cases3)
  have small: "k < 2 ^ 64" if "t = Some k" for k using a(3) [OF that] by (simp add: row_limit_def)
  show ?thesis using \<open>spec_answer _ _ _ = _\<close> spec_answer_short [of "classify q" t m a' t' m'] a(1,2) assms(2) small by simp
qed

text \<open>Where the execution of request \<open>q\<close> can be, and the answer it has by then.\<close>

fun fits :: "bool \<Rightarrow> nat \<Rightarrow> 'd sting_instance \<Rightarrow> string \<Rightarrow> pc \<Rightarrow> bool" where
  "fits present n inst q (P_start q') = (q' = q)"
| "fits present n inst q (P_ins_init t) = (classify q = R_insert)"
| "fits present n inst q (P_sel_init t) = (classify q = R_select)"
| "fits present n inst q (P_sel_read t p) = (classify q = R_select \<and> users inst \<noteq> None)"
| "fits present n inst q (P_sel_next t pid slot cnt) = (classify q = R_select \<and> users inst \<noteq> None \<and> cnt = slot)"
| "fits present n inst q (P_sel_look t pid f slot cnt) = (classify q = R_select \<and> users inst \<noteq> None \<and> cnt = slot)"
| "fits present n inst q (P_sel_get t pid f slot cnt g) = (classify q = R_select \<and> users inst \<noteq> None \<and> cnt = slot)"
| "fits present n inst q (P_sel_unpin t pid again slot cnt) =
     (classify q = R_select \<and> users inst \<noteq> None \<and> (if again then cnt + 1 else cnt) = slot)"
| "fits present n inst q (P_commit t a) = possible present n inst q a"
| "fits present n inst q (P_done a) = possible present n inst q a"
| "fits present n inst q (P_dead e) = True"
| "fits present n inst q w = (classify q = R_insert \<and> users inst \<noteq> None)"

lemma fits_mono:
  assumes "fits present n inst q w" and "n \<le> n'" and "users inst \<noteq> None \<Longrightarrow> users inst' \<noteq> None"
  shows "fits present n' inst' q w"
  using assms possible_mono [OF _ assms(2,3)] by (cases w) (auto split: if_splits)

lemma inserted_possible: "classify q = R_insert \<Longrightarrow> users inst \<noteq> None \<Longrightarrow> possible present n inst q inserted_text"
  by (rule possibleI [where t = "Some 0" and m = 0]) simp_all

lemma selected_possible:
  assumes "classify q = R_select" and "users inst \<noteq> None" and "unat (cnt :: i32) \<le> row_limit"
  shows "possible present n inst q (selected_text cnt)"
proof (rule possibleI [where t = "Some (unat cnt)" and m = 0])
  have "sint (of_nat k :: i32) = int k" if "k \<le> row_limit" for k using that by (simp add: row_limit_def signed_of_nat signed_take_bit_int_eq_self)
  from this [of "unat cnt"] have "sint cnt = int (unat cnt)" using assms(3) by simp
  then show "selected_text cnt = fst (spec_answer (classify q) (Some (unat cnt)) 0)" using assms(1) by (simp add: to_string_def)
qed (use assms in simp_all)

section \<open>A step keeps the answer possible\<close>

text \<open>Between the start of a request and its end no error can happen.\<close>

fun inner :: "pc \<Rightarrow> bool" where
  "inner (P_start q) = False"
| "inner (P_ins_init t) = False"
| "inner (P_sel_init t) = False"
| "inner (P_commit t a) = False"
| "inner (P_done a) = False"
| "inner (P_dead e) = False"
| "inner _ = True"

context reliable_device
begin

lemma inner_step:
  assumes c: "crew fd blocks phase n (inst, ws)" and i: "i < length ws" and n: "n < 2 ^ 32 - 1" and v: "inner (ws ! i)"
    and s: "wstep os ndebug (ws ! i, inst) = (w, inst')"
  shows "w \<noteq> P_done a"
proof (cases "ws ! i")
  case (P_ins_read t p)
  obtain ti where "table_at p (in_catalog inst) = Inr ti" using own_table [OF c i, of p] P_ins_read by auto
  then show ?thesis using s P_ins_read by (auto simp: wsteps split: if_splits)
next
  case (P_sel_read t p)
  obtain ti where "table_at p (in_catalog inst) = Inr ti" using own_table [OF c i, of p] P_sel_read by auto
  then show ?thesis using s P_sel_read by (auto simp: wsteps)
next
  case (P_ins_new t p)
  then show ?thesis using s crew_new [OF c i P_ins_new n] by (auto simp: wsteps)
next
  case (P_ins_fetch t p pid)
  then have "hold_pid (ws ! i) = None" "unat pid < unat (next_id (in_bpm inst))" using crewD(5) [OF c i] by (auto simp: worker_ok_def)
  then show ?thesis using s P_ins_fetch crew_fetch [OF c i, of pid] by (auto simp: wsteps)
next
  case (P_ins_row t p pid f)
  obtain ti where T: "table_at p (in_catalog inst) = Inr ti" "ti_schema ti = Schema_ctor users_columns" using own_table [OF c i, of p] P_ins_row by auto
  then show ?thesis using s P_ins_row by (auto simp: wsteps Let_def)
next
  case (P_ins_put t pid f row acc)
  obtain acc' pg where I: "istep (acc, bp_pages (in_bpm inst) ! f) = (acc', pg)" by fastforce
  have "put_ok acc" using crewD(5) [OF c i] P_ins_put by (simp add: worker_ok_def)
  then have "put_ok acc'" using put_access [OF held_page [OF c i] _ I] P_ins_put by simp
  then have "pc_txn (put_next t pid f row acc') = Some t" by (rule put_next_holds)
  then show ?thesis using s P_ins_put I by (auto simp: wsteps)
next
  case (P_ins_log t pid f rid row)
  then have "tm_txn_map (in_txn_manager inst) t \<noteq> None" using crewD(5) [OF c i] by (auto simp: worker_ok_def active_def)
  then show ?thesis using s P_ins_log by (auto simp: wsteps split: prod.splits)
next
  case (P_ins_unpin t pid)
  then show ?thesis using s crew_unpin [OF c i, of pid True ndebug] by (auto simp: wsteps)
next
  case (P_sel_next t pid slot cnt)
  show ?thesis
  proof (cases "pid = INVALID_PAGE_ID")
    case False
    then have "hold_pid (ws ! i) = None" "unat pid < unat (next_id (in_bpm inst))" using crewD(5) [OF c i] P_sel_next by (auto simp: worker_ok_def)
    then show ?thesis using s P_sel_next crew_fetch [OF c i, of pid] False by (auto simp: wsteps)
  qed (use s P_sel_next in \<open>auto simp: wsteps\<close>)
next
  case (P_sel_look t pid f slot cnt)
  then show ?thesis using s by (auto simp: wsteps split: if_splits)
next
  case (P_sel_get t pid f slot cnt g)
  let ?g = "gstep (bp_pages (in_bpm inst) ! f) g"
  have "get_ok g" using crewD(5) [OF c i] P_sel_get by (simp add: worker_ok_def)
  then have "get_ok ?g" using get_access [OF held_page [OF c i]] P_sel_get by simp
  then have "pc_txn (get_next t pid f slot cnt ?g) = Some t" by (rule get_next_holds)
  then show ?thesis using s P_sel_get by (auto simp: wsteps)
next
  case (P_sel_unpin t pid again slot cnt)
  then show ?thesis using s crew_unpin [OF c i, of pid False ndebug] by (auto simp: wsteps split: if_splits)
qed (use v s in \<open>auto simp: wsteps split: if_splits\<close>)

lemma users_stay:
  assumes "crew fd blocks phase n (inst, ws)" and "i < length ws" and "n < 2 ^ 32 - 1" and "wstep os ndebug (ws ! i, inst) = (w, inst')"
  shows "users inst \<noteq> None \<Longrightarrow> users inst' \<noteq> None"
  using step_users [OF assms reliable_device_axioms] by auto

lemma finish_fits:
  assumes "\<And>a. finish r \<noteq> P_done a"
  shows "fits present n inst q (finish r)"
proof -
  have "(\<exists>a. finish r = P_done a) \<or> (\<exists>e. finish r = P_dead e)" by (cases r) (auto simp: finish.simps split: option.splits)
  then obtain e where "finish r = P_dead e" using assms by blast
  then show ?thesis by simp
qed

lemma put_fits:
  assumes "classify q = R_insert" and "users inst \<noteq> None" and "\<And>a. put_next t pid f row i \<noteq> P_done a"
  shows "fits present n inst q (put_next t pid f row i)"
  using assms by (cases "(t, pid, f, row, i)" rule: put_next.cases) (auto intro!: finish_fits)

lemma get_fits:
  assumes "classify q = R_select" and "users inst \<noteq> None" and "\<And>a. get_next t pid f slot cnt g \<noteq> P_done a" and "cnt = slot"
  shows "fits present n inst q (get_next t pid f slot cnt g)"
  using assms by (cases g) (auto intro!: finish_fits)

lemma inner_fits:
  assumes c: "crew fd blocks phase n (inst, ws)" and i: "i < length ws" and n: "n < 2 ^ 32 - 1" and s: "wstep os ndebug (ws ! i, inst) = (w, inst')"
    and f: "fits present m inst q (ws ! i)" and pg: "in_page (ws ! i)" and v: "inner (ws ! i)"
  shows "fits present m inst' q w"
proof -
  note w = inner_step [OF c i n v s]
  have u: "users inst' \<noteq> None" using users_stay [OF c i n s] f v by (cases "ws ! i") auto
  note p = inserted_possible [OF _ u] selected_possible [OF _ u]
  show ?thesis
  proof (cases "ws ! i")
    case (P_start x)
    then show ?thesis using v by simp
  next
    case (P_done x)
    then show ?thesis using v by simp
  next
    case (P_dead x)
    then show ?thesis using v by simp
  next
    case (P_ins_put t pid f row acc)
    then show ?thesis using f s w u put_fits [of q inst' t pid f row] by (auto simp: wsteps split: prod.splits)
  next
    case (P_sel_get t pid f slot cnt g)
    then show ?thesis using f s w u get_fits [of q inst' t pid f slot cnt] by (auto simp: wsteps)
  qed (use f s w u p pg v in \<open>auto simp: wsteps Let_def intro: finish_fits split: if_splits prod.splits sum.splits option.splits\<close>)
qed

text \<open>Transactions begin with the next number and commit without an error.\<close>

lemma begin_number:
  assumes c: "crew fd blocks phase n (inst, ws)" and i: "i < length ws" and n: "n < 2 ^ 32 - 1"
  obtains txn t inst' where "begin_txn inst = (Inr txn, inst')" "users inst' = users inst"
    "unat (tm_next_txn_id (in_txn_manager inst')) = Suc (unat (tm_next_txn_id (in_txn_manager inst)))"
    "tm_txn_map (in_txn_manager inst') txn = Some t" "unat (tx_txn_id t) = unat (tm_next_txn_id (in_txn_manager inst))"
    "unat (tm_next_txn_id (in_txn_manager inst)) \<le> Suc n"
proof -
  let ?k = "unat (tm_next_txn_id (in_txn_manager inst))"
  have k: "tm_inv (in_txn_manager inst)" "?k \<le> Suc n" "?k + 1 < 2 ^ 64" using crewD(4) [OF c i] n by (auto simp: managers_ok_def)
  obtain t inst' where "begin_txn inst = (Inr (of_nat ?k), inst')" "in_catalog inst' = in_catalog inst" "tm_txn_map (in_txn_manager inst') (of_nat ?k) = Some t"
      "unat (tm_next_txn_id (in_txn_manager inst')) = Suc ?k" "tx_txn_id t = of_nat ?k"
    using begin_txn_ok [OF k(1) refl k(3)] by blast
  then show ?thesis using that [of "of_nat ?k" inst' t] k(2) by (simp add: users_def)
qed

lemma commit_ok:
  assumes c: "crew fd blocks phase n (inst, ws)" and i: "i < length ws" and pc: "ws ! i = P_commit t a"
  obtains inst' where "commit_txn t inst = (Inr (), inst')" "users inst' = users inst" "tm_next_txn_id (in_txn_manager inst') = tm_next_txn_id (in_txn_manager inst)"
proof -
  obtain tx where "tm_txn_map (in_txn_manager inst) t = Some tx" "tx_state tx = ACTIVE" using crewD(5) [OF c i] pc by (auto simp: worker_ok_def active_def)
  moreover have "tm_inv (in_txn_manager inst)" using crewD(4) [OF c i] by (simp add: managers_ok_def)
  ultimately obtain inst' where "commit_txn t inst = (Inr (), inst')" "in_catalog inst' = in_catalog inst"
      "tm_next_txn_id (in_txn_manager inst') = tm_next_txn_id (in_txn_manager inst)"
    using commit_txn_ok by blast
  then show ?thesis using that by (simp add: users_def)
qed

lemma start_fits:
  assumes c: "crew fd blocks phase n (inst, ws)" and i: "i < length ws" and n: "n < 2 ^ 32 - 1" and s: "wstep os ndebug (ws ! i, inst) = (w, inst')"
    and p: "present \<Longrightarrow> users inst \<noteq> None" and pc: "ws ! i = P_start q"
  shows "fits present (Suc n) inst' q w"
proof -
  obtain r inst1 where d: "do_create inst = (r, inst1)" by fastforce
  note D = crew_create_step [OF c i d]
  obtain txn t inst2 where B: "begin_txn inst = (Inr txn, inst2)" "users inst2 = users inst" "tm_txn_map (in_txn_manager inst2) txn = Some t"
      "unat (tx_txn_id t) \<le> Suc n"
    using begin_number [OF c i n] by metis
  consider (create) "classify q = R_create" | (insert) "classify q = R_insert" | (select) "classify q = R_select" | (starts) "classify q = R_begin"
    | (other) "classify q = R_other" by (cases "classify q") auto
  then show ?thesis
  proof cases
    case create
    then have w: "w = finish r" "inst' = inst1" using s pc d by (auto simp: wsteps classify_def split: if_splits)
    show ?thesis
    proof (cases "users inst")
      case None
      then show ?thesis using D w p create by (auto intro!: possibleI [where t = None and m = 0])
    next
      case (Some ti)
      then show ?thesis using D w create by (auto simp: finish_thrown intro!: possibleI [where t = "Some 0" and m = 0])
    qed
  next
    case insert
    then show ?thesis using s pc B(1) by (auto simp: wsteps classify_def split: if_splits)
  next
    case select
    then show ?thesis using s pc B(1) by (auto simp: wsteps classify_def split: if_splits)
  next
    case starts
    then have "w = P_done (''Success: Transaction '' @ decimal (unat (tx_txn_id t)) @ '' started.'' @ newline)" "inst' = inst2"
      using s pc B by (auto simp: wsteps classify_def do_begin_def split: if_splits)
    then show ?thesis using starts B(2,4) p
      by (auto intro!: possibleI [where t = "map_option (\<lambda>_. 0) (users inst)" and m = "unat (tx_txn_id t)"] simp: option.map_disc_iff)
  next
    case other
    then show ?thesis using s pc p
      by (auto simp: wsteps classify_def split: if_splits
        intro!: possibleI [where t = "map_option (\<lambda>_. 0) (users inst)" and m = 0])
  qed
qed

lemma fits_step:
  assumes c: "crew fd blocks phase n (inst, ws)" and i: "i < length ws" and n: "n < 2 ^ 32 - 1" and s: "wstep os ndebug (ws ! i, inst) = (w, inst')"
    and f: "fits present (Suc n) inst q (ws ! i)" and pg: "in_page (ws ! i)" and p: "present \<Longrightarrow> users inst \<noteq> None"
  shows "fits present (Suc n) inst' q w"
proof (cases "ws ! i")
  case (P_start x)
  then show ?thesis using start_fits [OF c i n s p] f by simp
next
  case (P_commit t a)
  obtain inst1 where "commit_txn t inst = (Inr (), inst1)" "users inst1 = users inst" using commit_ok [OF c i P_commit] by metis
  then show ?thesis using s f P_commit possible_mono [of present "Suc n" inst q a "Suc n" inst'] by (auto simp: wsteps)
next
  case (P_ins_init t)
  have inv: "cat_inv (in_catalog inst)" using crewD(4) [OF c i] by (simp add: managers_ok_def)
  show ?thesis
  proof (cases "users inst")
    case None
    then have "GetTable ''users'' (in_catalog inst) = Inr None" using tables.get_dir [OF inv] by (simp add: users_def)
    then show ?thesis using s f p P_ins_init None by (auto simp: wsteps finish_thrown intro!: possibleI [where t = None and m = 0])
  next
    case (Some ti)
    then show ?thesis using s f P_ins_init table_known(1) [OF c i, of ti] by (auto simp: wsteps users_def)
  qed
next
  case (P_sel_init t)
  have inv: "cat_inv (in_catalog inst)" using crewD(4) [OF c i] by (simp add: managers_ok_def)
  show ?thesis
  proof (cases "users inst")
    case None
    then have "GetTable ''users'' (in_catalog inst) = Inr None" using tables.get_dir [OF inv] by (simp add: users_def)
    then show ?thesis using s f p P_sel_init None by (auto simp: wsteps finish_thrown intro!: possibleI [where t = None and m = 0])
  next
    case (Some ti)
    then show ?thesis using s f P_sel_init table_known(1,2) [OF c i, of ti] by (auto simp: wsteps users_def)
  qed
next
  case (P_done a)
  then show ?thesis using s f by (simp add: wsteps)
next
  case (P_dead e)
  then show ?thesis using s f by (simp add: wsteps)
qed (rule inner_fits [OF c i n s f pg], simp)+

end

section \<open>All requests of a run\<close>

abbreviation inst_of :: "'d threaded \<Rightarrow> 'd sting_instance" where
  "inst_of s \<equiv> sv_instance (th_server s)"

definition tracks :: "int \<Rightarrow> ('d \<Rightarrow> pageid \<Rightarrow> bytes) \<Rightarrow> ('d \<Rightarrow> io_phase) \<Rightarrow> bool \<Rightarrow> nat \<Rightarrow> (nat \<rightharpoonup> string) \<Rightarrow> 'd threaded \<Rightarrow> bool" where
  "tracks fd blocks phase present n qs s \<longleftrightarrow> th_ok fd blocks phase n s \<and> (present \<longrightarrow> users (inst_of s) \<noteq> None)
     \<and> (\<forall>j q. qs j = Some q \<longrightarrow> busy j s \<and> fits present (Suc n) (inst_of s) q (th_pc s ! j))"

lemma answer_sent:
  assumes "th_next os ndebug (E_answer j i) s = Some s'" and "shape s"
  obtains a where "th_pc s ! j = P_done a" "outgoing (sv_conns (th_server s') ! i) = DoWriteAnswer a"
    "inst_of s' = inst_of s" "th_pc s' = th_pc s" "th_conn s' = (th_conn s)[j := None]" "busy j s"
proof -
  obtain a c where a: "conn_at i s = Some c" "th_pc s ! j = P_done a" "executes j i s"
      "s' = s\<lparr>th_server := set_conn i (write_answer a c) (th_server s), th_conn := (th_conn s)[j := None]\<rparr>"
    using assms(1) by (auto simp: th_next.simps split: option.splits bool.splits pc.splits)
  show ?thesis
    using that [of a] a conn_atD [OF a(1) assms(2)] write_answer_simps(1) [of c a] by (simp add: set_conn_def executes_def busy_def)
qed

lemma quiet_event:
  assumes "th_next os ndebug e s = Some s'" and "\<And>j. e \<noteq> E_step j" and "\<And>j i bs. e \<noteq> E_receive j i bs" and "\<And>j i. e \<noteq> E_answer j i"
  shows "inst_of s' = inst_of s" "th_pc s' = th_pc s" "th_conn s' = th_conn s"
  using assms by (cases e; auto simp: th_defs on_accept_def split: if_splits option.splits conn_io.splits)+

context reliable_device
begin

lemma tracks_next:
  assumes t: "tracks fd blocks phase present n qs s" and e: "th_next os ndebug e s = Some s'" and n: "n + 1 < 2 ^ 32"
  shows "tracks fd blocks phase present (Suc n) (asked e qs) s'"
proof -
  have ok: "th_ok fd blocks phase n s" "th_ok fd blocks phase (Suc n) s'" using t th_ok_next [OF _ e n] by (simp_all add: tracks_def)
  have f: "busy j s" "fits present (Suc n) (inst_of s) q (th_pc s ! j)" if "qs j = Some q" for j q using t that by (auto simp: tracks_def)
  have p: "present \<Longrightarrow> users (inst_of s) \<noteq> None" using t by (simp add: tracks_def)
  have keep: "fits present (Suc (Suc n)) (inst_of s') q w"
    if "fits present (Suc n) (inst_of s) q w" "users (inst_of s) \<noteq> None \<Longrightarrow> users (inst_of s') \<noteq> None" for q w
    by (rule fits_mono [OF that(1) _ that(2)]) simp
  have len: "length (th_pc s) = length (th_conn s)" using ok(1) by (simp add: th_ok_def shape_def)
  show ?thesis
  proof (cases e)
    case (E_step j)
    obtain w inst where w: "wstep os ndebug (th_pc s ! j, inst_of s) = (w, inst)" by fastforce
    have s': "busy j s" "s' = s\<lparr>th_server := (th_server s)\<lparr>sv_instance := inst\<rparr>, th_pc := (th_pc s)[j := w]\<rparr>"
      using e E_step w by (auto simp: th_next.simps split: if_splits)
    then have j: "j < length (th_pc s)" using len by (simp add: busy_def)
    have c: "crew fd blocks phase n (inst_of s, th_pc s)" "in_page (th_pc s ! j)" using ok(1) j by (auto simp: th_ok_def core_def)
    have stay: "users (inst_of s) \<noteq> None \<Longrightarrow> users (inst_of s') \<noteq> None" using users_stay [OF c(1) j _ w] n s'(2) by simp
    have "fits present (Suc (Suc n)) (inst_of s') q (th_pc s' ! k)" if q: "qs k = Some q" for k q
    proof (cases "k = j")
      case True
      have "fits present (Suc n) inst q w" using fits_step [OF c(1) j _ w _ c(2) p] f(2) [OF q] n True by simp
      then show ?thesis using fits_mono [of present "Suc n" inst q w "Suc (Suc n)"] True s'(2) j by simp
    next
      case False
      then show ?thesis using keep [OF f(2) [OF q] stay] s'(2) by simp
    qed
    then show ?thesis using ok(2) E_step f(1) p stay s'(2) by (auto simp: tracks_def busy_def)
  next
    case (E_receive j i bs)
    then have s': "inst_of s' = inst_of s" "th_pc s' = (th_pc s)[j := P_start bs]" "th_conn s' = (th_conn s)[j := Some i]" "j < length (th_conn s)"
      using e by (auto simp: th_next.simps waits_def set_conn_def Let_def split: option.splits if_splits)
    then show ?thesis using ok(2) E_receive f p keep len by (auto simp: tracks_def busy_def nth_list_update)
  next
    case (E_answer j i)
    obtain a where "inst_of s' = inst_of s" "th_pc s' = th_pc s" "th_conn s' = (th_conn s)[j := None]"
      using answer_sent [OF e [unfolded E_answer]] ok(1) by (metis th_ok_def)
    then show ?thesis using ok(2) E_answer f p keep by (auto simp: tracks_def busy_def nth_list_update)
  qed (use quiet_event [OF e] ok(2) f p keep in \<open>auto simp: tracks_def busy_def\<close>)
qed

lemma told_possible:
  assumes t: "tracks fd blocks phase present n qs s" and e: "th_next os ndebug e s = Some s'" and n: "n + 1 < 2 ^ 32"
    and qa: "(q, a) \<in> set (told e qs s')"
  shows "possible present (Suc n) (inst_of s') q a"
proof -
  obtain j i where ji: "e = E_answer j i" "qs j = Some q" "a = outgoing (sv_conns (th_server s') ! i)"
    using qa by (cases e) (auto split: option.splits)
  have sh: "shape s" using t by (simp add: tracks_def th_ok_def)
  obtain b where b: "th_pc s ! j = P_done b" "a = DoWriteAnswer b" "inst_of s' = inst_of s"
    using answer_sent [OF e [unfolded ji(1)] sh] ji(3) by metis
  have "fits present (Suc n) (inst_of s) q (th_pc s ! j)" using t ji(2) unfolding tracks_def by blast
  then have "possible present (Suc n) (inst_of s) q b" by (simp add: b(1))
  then show ?thesis using possible_short [of present "Suc n" "inst_of s" q b] b(2,3) n by simp
qed

lemma users_run: "th_ok fd blocks phase n s \<Longrightarrow> th_run os ndebug es s = Some s' \<Longrightarrow> n + length es < 2 ^ 32 \<Longrightarrow>
    users (inst_of s) \<noteq> None \<Longrightarrow> users (inst_of s') \<noteq> None"
proof (induction es arbitrary: n s)
  case (Cons e es)
  obtain s1 where s1: "th_next os ndebug e s = Some s1" "th_run os ndebug es s1 = Some s'" using Cons.prems(2) by (auto split: option.splits)
  have "tracks fd blocks phase True n (\<lambda>_. None) s" using Cons.prems(1,4) by (simp add: tracks_def)
  then have "tracks fd blocks phase True (Suc n) (asked e (\<lambda>_. None)) s1" using tracks_next [OF _ s1(1)] Cons.prems(3) by simp
  then have t1: "th_ok fd blocks phase (Suc n) s1" "users (inst_of s1) \<noteq> None" by (simp_all add: tracks_def)
  show ?case by (rule Cons.IH [OF t1(1) s1(2) _ t1(2)]) (use Cons.prems(3) in simp)
qed simp

lemma history_possible:
  "tracks fd blocks phase present n qs s \<Longrightarrow> th_run os ndebug es s = Some s' \<Longrightarrow> n + length es < 2 ^ 32 \<Longrightarrow>
   (q, a) \<in> set (history os ndebug qs es s) \<Longrightarrow> possible present (n + length es) (inst_of s') q a"
proof (induction es arbitrary: n qs s)
  case (Cons e es)
  obtain s1 where s1: "th_next os ndebug e s = Some s1" "th_run os ndebug es s1 = Some s'" using Cons.prems(2) by (auto split: option.splits)
  have t1: "tracks fd blocks phase present (Suc n) (asked e qs) s1" using tracks_next [OF Cons.prems(1) s1(1)] Cons.prems(3) by simp
  consider "(q, a) \<in> set (told e qs s1)" | "(q, a) \<in> set (history os ndebug (asked e qs) es s1)" using Cons.prems(4) s1(1) by auto
  then show ?case
  proof cases
    case 1
    have ok: "th_ok fd blocks phase (Suc n) s1" using t1 by (simp add: tracks_def)
    have stay: "users (inst_of s1) \<noteq> None \<Longrightarrow> users (inst_of s') \<noteq> None"
      by (rule users_run [OF ok s1(2)]) (use Cons.prems(3) in simp_all)
    show ?thesis
      by (rule possible_mono [OF told_possible [OF Cons.prems(1) s1(1) _ 1] _ stay]) (use Cons.prems(3) in simp_all)
  next
    case 2
    then show ?thesis using Cons.IH [OF t1 s1(2)] Cons.prems(3) by simp
  qed
qed simp

end

section \<open>Property\<close>

text \<open>(C9) Requests overlap in any way, on a reliable device, with at most as many threads as frames and indivisible accesses as in
  \<open>threads_serve_safely\<close>.  After a first part of a run, take the requests that come in and are answered in a second part.  The bytes
  sent for each are an answer that the specification gives to this request in some state: with the table present if it existed when
  the second part began, absent if it does not exist when it ends, at most 1980 rows (\<open>row_limit\<close>; overlapping inserts can count more rows than
  the 31 that fit), and a transaction number that is not larger than the number of events.\<close>

theorem overlapping_answers:
  assumes "reliable_device os fd blocks phase wait" and "phase (dm_ring dm) = Idle" and "dm_fd dm = fd" and "dm_next_page_id dm = 0"
    and "unat n \<le> m" and "unat n < 2 ^ 31" and "length es1 + length es2 < 2 ^ 32"
    and run1: "th_run os ndebug es1 (Server_Run (Server_ctor n (StingInstance_ctor (BufferPoolManager_ctor m dm)))) = Some s1"
    and run2: "th_run os ndebug es2 s1 = Some s2" and qa: "(q, a) \<in> set (history os ndebug (\<lambda>_. None) es2 s1)"
  shows "\<exists>t k. a = fst (spec_answer (classify q) t k) \<and> k \<le> length es1 + length es2 \<and> (\<forall>r. t = Some r \<longrightarrow> r \<le> row_limit)
    \<and> (users (inst_of s1) \<noteq> None \<longrightarrow> t \<noteq> None) \<and> (users (inst_of s2) = None \<longrightarrow> t = None)"
proof -
  have st: "th_ok fd blocks phase 0 (Server_Run (Server_ctor n (StingInstance_ctor (BufferPoolManager_ctor m dm))))"
    by (rule th_ok_start) (use assms(2-6) in simp_all)
  have "th_ok fd blocks phase (length es1) s1" using reliable_device.th_ok_run(1) [OF assms(1) st run1] assms(7) by simp
  then have t: "tracks fd blocks phase (users (inst_of s1) \<noteq> None) (length es1) (\<lambda>_. None) s1" by (simp add: tracks_def)
  have "possible (users (inst_of s1) \<noteq> None) (length es1 + length es2) (inst_of s2) q a"
    by (rule reliable_device.history_possible [OF assms(1) t run2 assms(7) qa])
  then show ?thesis unfolding possible_def by metis
qed

text \<open>A statement that is not known, on the simulated device.\<close>

theorem overlapping_answers_witness:
  "\<exists>s1 s2. th_run sim_os False [E_accept 0 True] (Server_Run (Server_ctor 2 (StingInstance_ctor (fresh_pool 2)))) = Some s1
     \<and> th_run sim_os False cycle s1 = Some s2
     \<and> (\<exists>t k. ''Error: Unsupported statement. Try CREATE TABLE or BEGIN.'' @ newline = fst (spec_answer (classify ''DROP'') t k) \<and> k \<le> 5)"
proof -
  let ?s0 = "Server_Run (Server_ctor 2 (StingInstance_ctor (fresh_pool 2)))" and ?a = "''Error: Unsupported statement. Try CREATE TABLE or BEGIN.'' @ newline"
  obtain s1 where s1: "th_run sim_os False [E_accept 0 True] ?s0 = Some s1" "ready s1"
    by (simp add: th_defs Server_Run_def Server_ctor_def on_accept_def Connection_Start_def DoRead_def ready_def)
  obtain s2 where s2: "th_run sim_os False cycle s1 = Some s2" using cycle_run [OF s1(2)] by blast
  have len: "length (cn_data c) = MAX_LENGTH" if "sv_conns (th_server s1) = c # cs" for c cs
    using th_run_core [OF s1(1) shape_start] that by (simp add: shape_def buffers_ok_def)
  have "(''DROP'', ?a) \<in> set (history sim_os False (\<lambda>_. None) cycle s1)"
    using s1(2) len
    by (cases "th_pc s1"; cases "th_conn s1")
      (auto simp: ready_def cycle_def th_defs wsteps has_prefix_def MAX_LENGTH_def write_answer_def outgoing.simps)
  then have "\<exists>t k. ?a = fst (spec_answer (classify ''DROP'') t k) \<and> k \<le> length [E_accept 0 True] + length cycle"
    using overlapping_answers [OF reliable_sim.reliable_device_axioms _ _ _ _ _ _ s1(1) [unfolded fresh_pool_def] s2]
    by (fastforce simp: fresh_device_def cycle_def)
  moreover have "length [E_accept 0 True] + length cycle = 5" by (simp add: cycle_def)
  ultimately show ?thesis using s1(1) s2 by metis
qed

end
