(* ===== verification/Told_Once.thy ===== *)
theory Told_Once
  imports Overlap "HOL-Library.Multiset"
begin

text \<open>
  What is told only once: that the table was created, and the number of a transaction.  The answers sent and those that threads are
  about to send are counted together; a step adds one of these answers only when it creates the table or takes the next number.
\<close>

section \<open>The answers of \<open>BEGIN\<close> differ\<close>

definition begun :: "nat \<Rightarrow> string" where
  "begun m = ''Success: Transaction '' @ decimal m @ '' started.'' @ newline"

lemma decimal_value: "foldl (\<lambda>v c. 10 * v + (of_char c - 48)) 0 (decimal n) = n"
proof (induction n rule: decimal.induct)
  case (1 n)
  have digit: "(of_char (char_of (48 + d) :: char) :: nat) = 48 + d" if "d < 10" for d :: nat using that by simp
  show ?case
  proof (cases "n < 10")
    case True
    then show ?thesis using digit [of n] by (simp add: decimal.simps [of n])
  next
    case False
    then show ?thesis using 1 [OF False] digit [of "n mod 10"] by (simp add: decimal.simps [of n])
  qed
qed

lemma decimal_inject: "decimal n = decimal m \<longleftrightarrow> n = m"
  by (metis decimal_value)

lemma begun_inject [simp]: "begun n = begun m \<longleftrightarrow> n = m"
  by (simp add: begun_def decimal_inject)

text \<open>No other answer looks like them.\<close>

definition plain :: "string \<Rightarrow> bool" where
  "plain a \<longleftrightarrow> a \<noteq> created_text \<and> (\<forall>m. a \<noteq> begun m)"

lemma decimal_start: "\<exists>c cs. decimal n = c # cs \<and> c \<noteq> CHR ''T''"
proof (induction n rule: decimal.induct)
  case (1 n)
  have "char_of (48 + d) \<noteq> CHR ''T''" if "d < 10" for d :: nat
  proof
    assume "char_of (48 + d) = CHR ''T''"
    then have "(of_char (char_of (48 + d) :: char) :: nat) = of_char (CHR ''T'')" by (rule arg_cong)
    then show False using that by simp
  qed
  then show ?case using 1 by (cases "n < 10") (auto simp: decimal.simps [of n])
qed

lemma to_string_start: "\<exists>c cs. to_string i = c # cs \<and> c \<noteq> CHR ''T''"
  using decimal_start by (simp add: to_string_def)

lemma plain_texts:
  "plain inserted_text" "plain (selected_text cnt)" "\<not> plain created_text" "\<not> plain (begun m)" "created_text \<noteq> begun m" "begun m \<noteq> created_text"
  using to_string_start [of "sint cnt"] by (auto simp: plain_def begun_def)

lemmas plain_simps [simp] = plain_texts [simplified]

lemma plain_error [simp]: "plain (CHR ''E'' # x)"
  by (simp add: plain_def begun_def)

section \<open>Which step gives which answer\<close>

text \<open>A thread that commits is about to give the answer of an \<open>INSERT\<close> or a \<open>SELECT\<close>.\<close>

fun commits_plain :: "pc \<Rightarrow> bool" where
  "commits_plain (P_commit t a) = plain a"
| "commits_plain _ = True"

lemma finish_commits [simp]: "commits_plain (finish r)"
  by (cases r) (simp_all add: finish.simps split: option.split)

lemma page_commits [simp]: "commits_plain (put_next t pid f row i)" "commits_plain (get_next t pid f slot cnt g)"
  by (cases "(t, pid, f, row, i)" rule: put_next.cases; simp) (cases g; simp)

lemma step_commits: "wstep os ndebug (v, inst) = (w, inst') \<Longrightarrow> commits_plain v \<Longrightarrow> commits_plain w"
  by (cases v) (auto simp: wsteps Let_def split: if_splits prod.splits sum.splits option.splits)

sublocale reliable_device \<subseteq> commits: crew_property os fd blocks phase wait "\<lambda>(inst, ws). \<forall>w \<in> set ws. commits_plain w"
proof
  show "case (inst', ws[i := w]) of (inst, ws) \<Rightarrow> \<forall>w \<in> set ws. commits_plain w"
    if "case (inst, ws) of (inst, ws) \<Rightarrow> \<forall>w \<in> set ws. commits_plain w" "i < length ws" "wstep os ndebug (ws ! i, inst) = (w, inst')"
    for inst ws i ndebug w inst'
    using that step_commits [OF that(3)] set_update_subset_insert [of ws i w] by auto
  show "case (inst, ws[i := P_start q]) of (inst, ws) \<Rightarrow> \<forall>w \<in> set ws. commits_plain w"
    if "case (inst, ws) of (inst, ws) \<Rightarrow> \<forall>w \<in> set ws. commits_plain w" for inst ws i q
    using that set_update_subset_insert [of ws i "P_start q"] by auto
qed

abbreviation next_txn :: "'d sting_instance \<Rightarrow> nat" where
  "next_txn inst \<equiv> unat (tm_next_txn_id (in_txn_manager inst))"

text \<open>An answer that may be given once is given by the step that creates the table or takes the number.\<close>

definition told_first :: "'d sting_instance \<Rightarrow> 'd sting_instance \<Rightarrow> string \<Rightarrow> bool" where
  "told_first inst inst' a \<longleftrightarrow> plain a \<or> a = created_text \<and> users inst = None \<and> users inst' \<noteq> None
     \<or> a = begun (next_txn inst) \<and> next_txn inst' = Suc (next_txn inst)"

context reliable_device
begin

lemma unpin_next: "unpin ndebug pid b inst = (r, inst') \<Longrightarrow> in_txn_manager inst' = in_txn_manager inst"
  unfolding unpin_def by (cases "UnpinPage ndebug pid b (in_bpm inst)") auto

lemma log_insert_next: "log_insert txn rec inst = (lsn, inst') \<Longrightarrow> tm_next_txn_id (in_txn_manager inst') = tm_next_txn_id (in_txn_manager inst)"
  unfolding log_insert_def Let_def by (cases "AppendLogRecord rec (tm_log (in_txn_manager inst))") auto

lemma inner_next:
  assumes "wstep os ndebug (v, inst) = (w, inst')" and "inner v"
  shows "tm_next_txn_id (in_txn_manager inst') = tm_next_txn_id (in_txn_manager inst)"
proof (cases v)
  case (P_ins_unpin t pid)
  then show ?thesis using assms(1) by (auto simp: wsteps split: prod.splits sum.splits dest: unpin_next)
next
  case (P_sel_unpin t pid again slot cnt)
  then show ?thesis using assms(1) by (auto simp: wsteps split: prod.splits sum.splits if_splits dest: unpin_next)
next
  case (P_ins_log t pid f rid row)
  then show ?thesis using assms(1) by (auto simp: wsteps split: prod.splits option.splits dest: log_insert_next)
qed (use assms in \<open>auto simp: wsteps Let_def set_page_def split: if_splits prod.splits sum.splits option.splits\<close>)

lemma start_tells:
  assumes c: "crew fd blocks phase n (inst, ws)" and i: "i < length ws" and n: "n < 2 ^ 32 - 1" and s: "wstep os ndebug (ws ! i, inst) = (w, inst')"
    and pc: "ws ! i = P_start q"
  shows "next_txn inst \<le> next_txn inst' \<and> (\<forall>a. w = P_done a \<longrightarrow> told_first inst inst' a)"
proof -
  obtain r inst1 where d: "do_create inst = (r, inst1)" by fastforce
  note D = crew_create_step [OF c i d]
  obtain txn t inst2 where B: "begin_txn inst = (Inr txn, inst2)" "next_txn inst2 = Suc (next_txn inst)"
      "tm_txn_map (in_txn_manager inst2) txn = Some t" "unat (tx_txn_id t) = next_txn inst"
    using begin_number [OF c i n] by metis
  consider (create) "has_prefix ''CREATE TABLE'' q"
    | (begins) "\<not> has_prefix ''CREATE TABLE'' q" "\<not> has_prefix ''INSERT'' q" "\<not> has_prefix ''SELECT'' q" "has_prefix ''BEGIN'' q"
    | (other) "\<not> has_prefix ''CREATE TABLE'' q" "has_prefix ''INSERT'' q \<or> has_prefix ''SELECT'' q \<or> \<not> has_prefix ''BEGIN'' q" by blast
  then show ?thesis
  proof cases
    case create
    then have "w = finish r" "inst' = inst1" using s pc d by (auto simp: wsteps)
    then show ?thesis using D by (cases "users inst") (auto simp: finish_thrown told_first_def)
  next
    case begins
    then have "w = P_done (begun (next_txn inst))" "inst' = inst2" using s pc B by (auto simp: wsteps do_begin_def begun_def)
    then show ?thesis using B(2) by (simp add: told_first_def)
  next
    case other
    have "plain (''Error: Unsupported statement. Try CREATE TABLE or BEGIN.'' @ newline)" by (simp add: plain_def begun_def)
    then show ?thesis using other s pc B by (auto simp: wsteps told_first_def split: if_splits)
  qed
qed

lemma step_tells:
  assumes c: "crew fd blocks phase n (inst, ws)" and i: "i < length ws" and n: "n < 2 ^ 32 - 1" and s: "wstep os ndebug (ws ! i, inst) = (w, inst')"
    and busy: "0 < steps_left (ws ! i)" and com: "commits_plain (ws ! i)"
  shows "next_txn inst \<le> next_txn inst' \<and> (\<forall>a. w = P_done a \<longrightarrow> told_first inst inst' a)"
proof (cases "ws ! i")
  case (P_start q)
  then show ?thesis using start_tells [OF c i n s] by blast
next
  case (P_ins_init t)
  then have "inst' = inst" using s by (auto simp: wsteps split: sum.splits option.splits)
  moreover have "plain a" if "w = P_done a" for a
    using s that P_ins_init by (auto simp: wsteps finish.simps split: sum.splits option.splits)
  ultimately show ?thesis by (simp add: told_first_def)
next
  case (P_sel_init t)
  then have "inst' = inst" using s by (auto simp: wsteps split: sum.splits option.splits)
  moreover have "plain a" if "w = P_done a" for a
    using s that P_sel_init by (auto simp: wsteps finish.simps split: sum.splits option.splits)
  ultimately show ?thesis by (simp add: told_first_def)
next
  case (P_commit t a)
  obtain inst1 where "commit_txn t inst = (Inr (), inst1)" "next_txn inst1 = next_txn inst" using commit_ok [OF c i P_commit] by metis
  then show ?thesis using s P_commit com by (auto simp: wsteps told_first_def)
next
  case (P_done a)
  then show ?thesis using busy by simp
next
  case (P_dead e)
  then show ?thesis using busy by simp
qed (use inner_step [OF c i n _ s] inner_next [OF s] in simp_all)

end

section \<open>Counting\<close>

fun sends :: "nat option \<Rightarrow> pc \<Rightarrow> string multiset" where
  "sends (Some i) (P_done a) = {#a#}"
| "sends _ _ = {#}"

text \<open>The answers that threads have ready.\<close>

definition ready_answers :: "'d threaded \<Rightarrow> string multiset" where
  "ready_answers s = sum_list (map2 sends (th_conn s) (th_pc s))"

lemma ready_update:
  assumes "length (th_pc s) = length (th_conn s)" and "j < length (th_conn s)" and "th_conn s' = (th_conn s)[j := c]" and "th_pc s' = (th_pc s)[j := w]"
  shows "ready_answers s' + sends (th_conn s ! j) (th_pc s ! j) = ready_answers s + sends c w"
proof -
  have "map2 sends (th_conn s') (th_pc s') = (map2 sends (th_conn s) (th_pc s))[j := sends c w]"
    using assms by (intro nth_equalityI) (auto simp: nth_list_update)
  then show ?thesis
    using sum_list_replaced [of j "map2 sends (th_conn s) (th_pc s)" "sends c w"] assms(1,2) by (simp add: ready_answers_def)
qed

text \<open>\<open>T\<close>: the answers sent so far.\<close>

definition told_once :: "string multiset \<Rightarrow> 'd sting_instance \<Rightarrow> bool" where
  "told_once T inst \<longleftrightarrow> count T created_text \<le> (if users inst = None then 0 else 1)
     \<and> (\<forall>m. count T (begun m) \<le> (if m < next_txn inst then 1 else 0))"

lemma told_once_sub: "told_once T inst \<Longrightarrow> T' \<subseteq># T \<Longrightarrow> told_once T' inst"
  unfolding told_once_def by (meson mset_subset_eq_count order_trans)

lemma told_once_step:
  assumes o: "told_once T inst" and u: "users inst \<noteq> None \<Longrightarrow> users inst' \<noteq> None" and n: "next_txn inst \<le> next_txn inst'"
    and X: "X = {#} \<or> (\<exists>a. X = {#a#} \<and> told_first inst inst' a)"
  shows "told_once (T + X) inst'"
proof -
  have T: "count T created_text \<le> (if users inst = None then 0 else 1)" "count T (begun m) \<le> (if m < next_txn inst then 1 else 0)" for m
    using o by (simp_all add: told_once_def)
  have keep: "count T created_text \<le> (if users inst' = None then 0 else 1)" "count T (begun m) \<le> (if m < next_txn inst' then 1 else 0)" for m
    using T(1) T(2) [of m] u n by (auto split: if_splits)
  from X show ?thesis
  proof (elim disjE exE conjE)
    assume "X = {#}"
    then show ?thesis using keep by (simp add: told_once_def)
  next
    fix a assume a: "X = {#a#}" "told_first inst inst' a"
    then consider "plain a" | "a = created_text" "users inst = None" "users inst' \<noteq> None" | "a = begun (next_txn inst)" "next_txn inst' = Suc (next_txn inst)"
      unfolding told_first_def by metis
    then show ?thesis
    proof cases
      case 1
      then have "a \<noteq> created_text" "a \<noteq> begun m" for m by (simp_all add: plain_def)
      then show ?thesis using keep a(1) unfolding told_once_def by (simp add: eq_commute)
    next
      case 2
      then show ?thesis using T(1) keep a(1) unfolding told_once_def by (auto simp: plain_texts)
    next
      case 3
      have "count (T + X) (begun m) \<le> (if m < next_txn inst' then 1 else 0)" for m
        using T(2) [of m] 3 a(1) by (cases "m = next_txn inst") auto
      then show ?thesis using keep 3(1) a(1) unfolding told_once_def by (auto simp: plain_texts)
    qed
  qed
qed

context reliable_device
begin

lemma told_next:
  assumes t: "tracks fd blocks phase present n qs s" and com: "\<forall>w \<in> set (th_pc s). commits_plain w"
    and e: "th_next os ndebug e s = Some s'" and n: "n + 1 < 2 ^ 32" and o: "told_once (T + ready_answers s) (inst_of s)"
  shows "told_once (T + mset (map snd (told e qs s')) + ready_answers s') (inst_of s')"
proof -
  have ok: "th_ok fd blocks phase n s" using t by (simp add: tracks_def)
  then have sh: "shape s" and len: "length (th_pc s) = length (th_conn s)" by (simp_all add: th_ok_def shape_def)
  show ?thesis
  proof (cases e)
    case (E_step j)
    obtain w inst where w: "wstep os ndebug (th_pc s ! j, inst_of s) = (w, inst)" by fastforce
    have s': "busy j s" "0 < steps_left (th_pc s ! j)" "s' = s\<lparr>th_server := (th_server s)\<lparr>sv_instance := inst\<rparr>, th_pc := (th_pc s)[j := w]\<rparr>"
      using e E_step w by (auto simp: th_next.simps split: if_splits)
    then have j: "j < length (th_pc s)" using len by (simp add: busy_def)
    have c: "crew fd blocks phase n (inst_of s, th_pc s)" "commits_plain (th_pc s ! j)" using ok j com by (auto simp: th_ok_def core_def)
    have S: "next_txn (inst_of s) \<le> next_txn inst \<and> (\<forall>a. w = P_done a \<longrightarrow> told_first (inst_of s) inst a)"
      using step_tells [OF c(1) j _ w s'(2) c(2)] n by simp
    have "sends (th_conn s ! j) (th_pc s ! j) = {#}" using s'(2) by (cases "(th_conn s ! j, th_pc s ! j)" rule: sends.cases) auto
    then have r: "ready_answers s' = ready_answers s + sends (th_conn s ! j) w"
      using ready_update [OF len, of j s' "th_conn s ! j" w] s'(3) j len by simp
    have "sends (th_conn s ! j) w = {#} \<or> (\<exists>a. sends (th_conn s ! j) w = {#a#} \<and> told_first (inst_of s) inst a)"
      using S by (cases "(th_conn s ! j, w)" rule: sends.cases) auto
    then have "told_once (T + ready_answers s + sends (th_conn s ! j) w) inst"
      using S users_stay [OF c(1) j _ w] n by (intro told_once_step [OF o]) auto
    then show ?thesis using E_step r s'(3) by (simp add: ac_simps)
  next
    case (E_receive j i bs)
    then have s': "inst_of s' = inst_of s" "th_pc s' = (th_pc s)[j := P_start bs]" "th_conn s' = (th_conn s)[j := Some i]" "j < length (th_conn s)" "th_conn s ! j = None"
      using e by (auto simp: th_next.simps waits_def set_conn_def Let_def split: option.splits if_splits)
    then show ?thesis using o E_receive ready_update [OF len s'(4,3,2)] by simp
  next
    case (E_answer j i)
    obtain a where a: "th_pc s ! j = P_done a" "outgoing (sv_conns (th_server s') ! i) = DoWriteAnswer a"
        "inst_of s' = inst_of s" "th_pc s' = th_pc s" "th_conn s' = (th_conn s)[j := None]" "busy j s"
      using answer_sent [OF e [unfolded E_answer] sh] by metis
    then have j: "j < length (th_conn s)" "sends (th_conn s ! j) (th_pc s ! j) = {#a#}" by (auto simp: busy_def)
    then have r: "ready_answers s' + {#a#} = ready_answers s" using ready_update [OF len j(1) a(5), of "th_pc s ! j"] a(4) by simp
    have "mset (map snd (told e qs s')) \<subseteq># {#a#}"
    proof (cases "qs j")
      case (Some q)
      then have "fits present (Suc n) (inst_of s) q (th_pc s ! j)" using t unfolding tracks_def by blast
      then have "DoWriteAnswer a = a" using possible_short [of present "Suc n" "inst_of s" q a] a(1) n by simp
      then show ?thesis using E_answer Some a(2) by simp
    qed (simp add: E_answer)
    then have "T + mset (map snd (told e qs s')) + ready_answers s' \<subseteq># T + ready_answers s"
      unfolding r [symmetric] by (simp add: add.commute add.left_commute subset_mset.add_mono)
    then show ?thesis using told_once_sub [OF o] a(3) by simp
  qed (use quiet_event [OF e] o in \<open>auto simp: ready_answers_def\<close>)
qed

lemma told_run:
  "tracks fd blocks phase present n qs s \<Longrightarrow> \<forall>w \<in> set (th_pc s). commits_plain w \<Longrightarrow> th_run os ndebug es s = Some s' \<Longrightarrow> n + length es < 2 ^ 32 \<Longrightarrow>
   told_once (T + ready_answers s) (inst_of s) \<Longrightarrow> told_once (T + mset (map snd (history os ndebug qs es s)) + ready_answers s') (inst_of s')"
proof (induction es arbitrary: n qs s T)
  case (Cons e es)
  obtain s1 where s1: "th_next os ndebug e s = Some s1" "th_run os ndebug es s1 = Some s'" using Cons.prems(3) by (auto split: option.splits)
  have t1: "tracks fd blocks phase present (Suc n) (asked e qs) s1" using tracks_next [OF Cons.prems(1) s1(1)] Cons.prems(4) by simp
  have com: "\<forall>w \<in> set (th_pc s1). commits_plain w"
    using commits.run_keeps [of n s ndebug "[e]" s1] Cons.prems(1,2,4) s1(1) by (simp add: tracks_def core_def)
  have "told_once (T + mset (map snd (told e qs s1)) + ready_answers s1) (inst_of s1)"
    using told_next [OF Cons.prems(1,2) s1(1) _ Cons.prems(5)] Cons.prems(4) by simp
  from Cons.IH [OF t1 com s1(2) _ this] show ?case using Cons.prems(4) s1(1) by (simp add: add.assoc)
qed simp

end

section \<open>Property\<close>

text \<open>(C38) However the requests overlap: among all answers sent in a run of the server from its start, the creation of the table is reported
  at most once, and no transaction number is reported twice.\<close>

theorem told_only_once:
  assumes "reliable_device os fd blocks phase wait" and "phase (dm_ring dm) = Idle" and "dm_fd dm = fd" and "dm_next_page_id dm = 0"
    and "unat n \<le> m" and "unat n < 2 ^ 31" and "length es < 2 ^ 32"
    and start: "s0 = Server_Run (Server_ctor n (StingInstance_ctor (BufferPoolManager_ctor m dm)))" and run: "th_run os ndebug es s0 = Some s"
  shows "count_list (map snd (history os ndebug (\<lambda>_. None) es s0)) created_text \<le> 1
    \<and> count_list (map snd (history os ndebug (\<lambda>_. None) es s0)) (begun k) \<le> 1"
proof -
  have ok: "th_ok fd blocks phase 0 s0" unfolding start by (rule th_ok_start) (use assms(2-6) in simp_all)
  then have t: "tracks fd blocks phase False 0 (\<lambda>_. None) s0" by (simp add: tracks_def)
  have com: "\<forall>w \<in> set (th_pc s0). commits_plain w" by (simp add: start Server_Run_def Server_ctor_def)
  have "sum_list (replicate k {#}) = {#}" for k :: nat by (induction k) simp_all
  then have "ready_answers s0 = {#}" by (simp add: start ready_answers_def Server_Run_def Server_ctor_def zip_replicate)
  then have "told_once ({#} + ready_answers s0) (inst_of s0)" by (simp add: told_once_def)
  from reliable_device.told_run [OF assms(1) t com run _ this] assms(7)
  have "told_once ({#} + mset (map snd (history os ndebug (\<lambda>_. None) es s0)) + ready_answers s) (inst_of s)" by simp
  then have "told_once (mset (map snd (history os ndebug (\<lambda>_. None) es s0))) (inst_of s)" by (rule told_once_sub) simp
  moreover have "(if b then 0 else 1) \<le> (1 :: nat)" "(if b then 1 else 0) \<le> (1 :: nat)" for b by simp_all
  ultimately show ?thesis unfolding told_once_def count_mset count_list_eq_length_filter by (meson order_trans)
qed

text \<open>Two threads create the table at the same time.\<close>

definition two_creations :: "th_event list" where
  "two_creations = [E_accept 0 True, E_accept 1 True, E_receive 0 0 ''CREATE TABLE'', E_receive 1 1 ''CREATE TABLE'', E_step 1, E_step 0, E_answer 0 0, E_answer 1 1]"

theorem told_only_once_witness:
  "\<exists>s. th_run sim_os False two_creations (Server_Run (Server_ctor 2 (StingInstance_ctor (fresh_pool 2)))) = Some s
    \<and> count_list (map snd (history sim_os False (\<lambda>_. None) two_creations (Server_Run (Server_ctor 2 (StingInstance_ctor (fresh_pool 2)))))) created_text \<le> 1
    \<and> length (history sim_os False (\<lambda>_. None) two_creations (Server_Run (Server_ctor 2 (StingInstance_ctor (fresh_pool 2))))) = 2"
proof -
  have two: "replicate 2 x = [x, x]" for x :: 'x by (simp add: numeral_2_eq_2)
  obtain s where s: "th_run sim_os False two_creations (Server_Run (Server_ctor 2 (StingInstance_ctor (fresh_pool 2)))) = Some s"
    by (simp add: two_creations_def th_defs Server_Run_def Server_ctor_def on_accept_def Connection_Start_def DoRead_def MAX_LENGTH_def two
        wsteps has_prefix_def do_create_def BindCreateTable_def CreateTable_def StingInstance_ctor_def CatalogManager_ctor_def finish_thrown)
  have "length (history sim_os False (\<lambda>_. None) two_creations (Server_Run (Server_ctor 2 (StingInstance_ctor (fresh_pool 2))))) = 2"
    by (simp add: two_creations_def th_defs Server_Run_def Server_ctor_def on_accept_def Connection_Start_def DoRead_def MAX_LENGTH_def two
        wsteps has_prefix_def do_create_def BindCreateTable_def CreateTable_def StingInstance_ctor_def CatalogManager_ctor_def finish_thrown)
  then show ?thesis
    using s told_only_once [OF reliable_sim.reliable_device_axioms _ _ _ _ _ _ refl s [unfolded fresh_pool_def], where k = 0]
    by (auto simp: fresh_device_def two_creations_def fresh_pool_def)
qed

end
