(* ===== verification/Serial_Requests.thy ===== *)
theory Serial_Requests
  imports Overlap
begin

text \<open>
  Requests that do not overlap.  Whatever connections they come on and whichever threads execute them, step by step, while other
  threads accept connections, send answers and lose connections: when a request is received only after the one before
  has been answered, the clients together see the sequential database of the specification.
\<close>

section \<open>Runs without overlap\<close>

text \<open>\<open>apart b es\<close>: no request is received while one is executed; \<open>b\<close> tells whether one is at the start.\<close>

fun apart :: "bool \<Rightarrow> th_event list \<Rightarrow> bool" where
  "apart b [] = True"
| "apart b (E_receive j i bs # es) = (\<not> b \<and> apart True es)"
| "apart b (E_answer j i # es) = apart False es"
| "apart b (e # es) = apart b es"

fun in_request :: "bool \<Rightarrow> th_event \<Rightarrow> bool" where
  "in_request b (E_receive j i bs) = True"
| "in_request b (E_answer j i) = False"
| "in_request b e = b"

lemma apart_Cons: "apart b (e # es) \<longleftrightarrow> (\<forall>j i bs. e = E_receive j i bs \<longrightarrow> \<not> b) \<and> apart (in_request b e) es"
  by (cases e) simp_all

text \<open>The only thread that executes a request: it has taken some steps from a state of the specification.\<close>

definition executing :: "'d os \<Rightarrow> bool \<Rightarrow> int \<Rightarrow> ('d \<Rightarrow> pageid \<Rightarrow> bytes) \<Rightarrow> ('d \<Rightarrow> io_phase) \<Rightarrow> nat option \<Rightarrow> nat \<Rightarrow> (nat \<rightharpoonup> string) \<Rightarrow> 'd threaded \<Rightarrow> bool" where
  "executing os ndebug fd blocks phase t n qs s \<longleftrightarrow> (\<exists>j q inst0 k. busy j s \<and> (\<forall>l. busy l s \<longrightarrow> l = j) \<and> qs j = Some q
     \<and> server_state fd blocks phase t n inst0 \<and> (wstep os ndebug ^^ k) (P_start q, inst0) = (th_pc s ! j, inst_of s))"

definition idle :: "int \<Rightarrow> ('d \<Rightarrow> pageid \<Rightarrow> bytes) \<Rightarrow> ('d \<Rightarrow> io_phase) \<Rightarrow> nat option \<Rightarrow> nat \<Rightarrow> 'd threaded \<Rightarrow> bool" where
  "idle fd blocks phase t n s \<longleftrightarrow> (\<forall>j. \<not> busy j s) \<and> server_state fd blocks phase t n (inst_of s)"

text \<open>\<open>h\<close>: the requests answered so far, with their answers.\<close>

definition serial :: "'d os \<Rightarrow> bool \<Rightarrow> int \<Rightarrow> ('d \<Rightarrow> pageid \<Rightarrow> bytes) \<Rightarrow> ('d \<Rightarrow> io_phase) \<Rightarrow> bool \<Rightarrow> (nat \<rightharpoonup> string) \<Rightarrow> (string \<times> string) list \<Rightarrow> 'd threaded \<Rightarrow> bool" where
  "serial os ndebug fd blocks phase b qs h s \<longleftrightarrow> shape s \<and> map snd h = spec_session (map fst h) None 1
     \<and> (case spec_after (map fst h) None 1 of (t, n) \<Rightarrow>
          if b then executing os ndebug fd blocks phase t n qs s else idle fd blocks phase t n s)"

context reliable_device
begin

lemma request_answer:
  assumes st: "server_state fd blocks phase t n inst0" and n: "n + 1 < 2 ^ 64" and a: "spec_answer (classify q) t n = (a, t', n')"
    and run: "(wstep os ndebug ^^ k) (P_start q, inst0) = (P_done b, inst)"
  shows "b = a \<and> server_state fd blocks phase t' n' inst \<and> DoWriteAnswer a = a"
proof -
  obtain inst' where h: "handle_query os ndebug q inst0 = (Inr a, inst')" "server_state fd blocks phase t' n' inst'"
    using handle_query_ok [OF st n a] by blast
  obtain m where m: "(wstep os ndebug ^^ m) (P_start q, inst0) = (P_done a, inst')"
    using reaches_end [OF query_reaches [OF server_state_safe [OF st] h(1), simplified]] by auto
  have stays: "(wstep os ndebug ^^ i) (P_done x, y) = (P_done x, y)" for i x y by (induction i) (simp_all add: wsteps)
  have more: "(wstep os ndebug ^^ (i + j)) c = (wstep os ndebug ^^ i) ((wstep os ndebug ^^ j) c)" for i j c by (simp add: funpow_add)
  have "P_done a = P_done b \<and> inst' = inst"
  proof (cases "k \<le> m")
    case True
    then show ?thesis using m run more [of "m - k" k "(P_start q, inst0)"] stays by simp
  next
    case False
    then show ?thesis using m run more [of "k - m" m "(P_start q, inst0)"] stays by simp
  qed
  moreover have "k < 2 ^ 64" if "t = Some k" for k using server_state_rows [of fd blocks phase k n inst0] that st by simp
  ultimately show ?thesis using h(2) spec_answer_short [OF a] n by simp
qed

lemma serial_next:
  assumes S: "serial os ndebug fd blocks phase b qs h s" and e: "th_next os ndebug e s = Some s'" and h: "length h + 2 < 2 ^ 64"
    and ap: "\<And>j i bs. e = E_receive j i bs \<Longrightarrow> \<not> b"
  shows "serial os ndebug fd blocks phase (in_request b e) (asked e qs) (h @ told e qs s') s'"
proof -
  obtain t n where tn: "spec_after (map fst h) None 1 = (t, n)" by fastforce
  have sh: "shape s" "shape s'" and hist: "map snd h = spec_session (map fst h) None 1" using S th_next_shape [OF e] by (simp_all add: serial_def)
  have len: "length (th_pc s) = length (th_conn s)" using sh(1) by (simp add: shape_def)
  have no: "idle fd blocks phase t n s" if "\<not> b" using S tn that by (simp add: serial_def)
  show ?thesis
  proof (cases e)
    case (E_receive j i bs)
    have s': "inst_of s' = inst_of s" "th_pc s' = (th_pc s)[j := P_start bs]" "th_conn s' = (th_conn s)[j := Some i]" "j < length (th_conn s)"
      using e E_receive by (auto simp: th_next.simps waits_def set_conn_def Let_def split: option.splits if_splits)
    have I: "\<not> busy l s" "server_state fd blocks phase t n (inst_of s)" for l using no ap [OF E_receive] by (simp_all add: idle_def)
    have "busy l s' \<longleftrightarrow> l = j" for l using I(1) [of l] s'(3,4) by (auto simp: busy_def nth_list_update)
    then have "executing os ndebug fd blocks phase t n (qs(j \<mapsto> bs)) s'"
      using I(2) s'(1,2,4) len unfolding executing_def
      by (intro exI [of _ j] exI [of _ bs] exI [of _ "inst_of s"] exI [of _ 0]) simp
    then show ?thesis using sh(2) hist tn E_receive by (simp add: serial_def)
  next
    case (E_step j)
    obtain w inst where w: "wstep os ndebug (th_pc s ! j, inst_of s) = (w, inst)" by fastforce
    have s': "busy j s" "s' = s\<lparr>th_server := (th_server s)\<lparr>sv_instance := inst\<rparr>, th_pc := (th_pc s)[j := w]\<rparr>"
      using e E_step w by (auto simp: th_next.simps split: if_splits)
    then have b: b using no by (auto simp: idle_def)
    then have "executing os ndebug fd blocks phase t n qs s" using S tn by (simp add: serial_def)
    then obtain l q inst0 k where X: "busy l s" "\<And>l'. busy l' s \<Longrightarrow> l' = l" "qs l = Some q" "server_state fd blocks phase t n inst0"
        "(wstep os ndebug ^^ k) (P_start q, inst0) = (th_pc s ! l, inst_of s)"
      unfolding executing_def by blast
    have l: "l = j" using X(2) [OF s'(1)] by simp
    have j: "j < length (th_pc s)" using s'(1) len by (simp add: busy_def)
    have "(wstep os ndebug ^^ Suc k) (P_start q, inst0) = (th_pc s' ! j, inst_of s')" using X(5) w j by (simp add: l s'(2))
    moreover have "busy l' s' \<longleftrightarrow> busy l' s" for l' by (simp add: s'(2) busy_def)
    ultimately have "executing os ndebug fd blocks phase t n qs s'" using X(1-4) unfolding executing_def l by blast
    then show ?thesis using sh(2) hist tn E_step b by (simp add: serial_def)
  next
    case (E_answer j i)
    obtain a where a: "th_pc s ! j = P_done a" "outgoing (sv_conns (th_server s') ! i) = DoWriteAnswer a"
        "inst_of s' = inst_of s" "th_conn s' = (th_conn s)[j := None]" "busy j s"
      using answer_sent [OF e [unfolded E_answer] sh(1)] by metis
    then have b: b using no by (auto simp: idle_def)
    then have "executing os ndebug fd blocks phase t n qs s" using S tn by (simp add: serial_def)
    then obtain l q inst0 k where X: "busy l s" "\<And>l'. busy l' s \<Longrightarrow> l' = l" "qs l = Some q" "server_state fd blocks phase t n inst0"
        "(wstep os ndebug ^^ k) (P_start q, inst0) = (th_pc s ! l, inst_of s)"
      unfolding executing_def by blast
    have l: "l = j" using X(2) [OF a(5)] by simp
    obtain a' t' n' where sp: "spec_answer (classify q) t n = (a', t', n')" by (metis prod_cases3)
    have "n \<le> 1 + length h" using spec_after_bound [of "map fst h" None 1] tn by simp
    then have A: "a = a'" "server_state fd blocks phase t' n' (inst_of s)" "DoWriteAnswer a' = a'"
      using request_answer [OF X(4) _ sp X(5) [unfolded l a(1)]] h by simp_all
    have "\<not> busy l' s'" for l'
    proof (cases "l' = j")
      case False
      then have "\<not> busy l' s" using X(2) l by blast
      then show ?thesis using False by (simp add: a(4) busy_def)
    qed (simp add: a(4) busy_def)
    then have "idle fd blocks phase t' n' s'" using A(2) a(3) by (simp add: idle_def)
    moreover have "told e qs s' = [(q, a')]" using E_answer X(3) l a(2) A(1,3) by simp
    ultimately show ?thesis using sh(2) hist tn sp E_answer by (simp add: serial_def spec_after_snoc spec_session_snoc)
  qed (use S e sh quiet_event [OF e] in \<open>auto simp: serial_def executing_def idle_def busy_def\<close>)
qed

lemma serial_history:
  "serial os ndebug fd blocks phase b qs h s \<Longrightarrow> th_run os ndebug es s = Some s' \<Longrightarrow> apart b es \<Longrightarrow> length h + length es + 1 < 2 ^ 64 \<Longrightarrow>
   map snd (h @ history os ndebug qs es s) = spec_session (map fst (h @ history os ndebug qs es s)) None 1"
proof (induction es arbitrary: b qs h s)
  case Nil
  then show ?case by (simp add: serial_def)
next
  case (Cons e es)
  obtain s1 where s1: "th_next os ndebug e s = Some s1" "th_run os ndebug es s1 = Some s'" using Cons.prems(2) by (auto split: option.splits)
  have ap: "\<And>j i bs. e = E_receive j i bs \<Longrightarrow> \<not> b" "apart (in_request b e) es" using Cons.prems(3) by (simp_all add: apart_Cons)
  have S: "serial os ndebug fd blocks phase (in_request b e) (asked e qs) (h @ told e qs s1) s1"
    using serial_next [OF Cons.prems(1) s1(1) _ ap(1)] Cons.prems(4) by simp
  have "length (told e qs s1) \<le> 1" by (cases e) (simp_all split: option.split)
  then show ?case using Cons.IH [OF S s1(2) ap(2)] Cons.prems(4) s1(1) by simp
qed

end

section \<open>Property\<close>

text \<open>(C2) The server with all its threads, on a reliable device: connections come and go, requests arrive on any of them and are
  executed by any thread, answers are sent and sockets fail, in any order, except that no request is received while another one is executed.
  Then the requests of all connections together are answered as the specification answers them one after the other:
  clients see one sequential database.  (For requests that do overlap this is false, see \<open>Insert_Race\<close>; what remains true is in
  \<open>Overlap\<close>.)\<close>

theorem serial_requests_serve_spec:
  assumes "reliable_device os fd blocks phase wait" and "phase (dm_ring dm) = Idle" and "dm_fd dm = fd"
    and "0 < m" and "dm_next_page_id dm \<noteq> INVALID_PAGE_ID"
    and start: "s0 = Server_Run (Server_ctor w (StingInstance_ctor (BufferPoolManager_ctor m dm)))"
    and run: "th_run os ndebug es s0 = Some s" and "apart False es" and "length es < 2 ^ 64 - 1"
  shows "map snd (history os ndebug (\<lambda>_. None) es s0) = spec_session (map fst (history os ndebug (\<lambda>_. None) es s0)) None 1"
proof -
  have "\<not> busy j s0" for j by (simp add: start busy_def Server_Run_def)
  then have "idle fd blocks phase None 1 s0"
    using fresh_server_state [of phase, OF assms(2-5)] by (simp add: idle_def) (simp add: start Server_Run_def Server_ctor_def)
  then have "serial os ndebug fd blocks phase False (\<lambda>_. None) [] s0" using shape_start by (simp add: serial_def start)
  from reliable_device.serial_history [OF assms(1) this run assms(8)] assms(9) show ?thesis by simp
qed

text \<open>The table is created twice, on two connections and by two threads.\<close>

definition creations_in_turn :: "th_event list" where
  "creations_in_turn = [E_accept 0 True, E_receive 1 0 ''CREATE TABLE'', E_accept 0 True, E_step 1, E_answer 1 0,
     E_receive 0 1 ''CREATE TABLE'', E_sent 1 0 False, E_step 0, E_answer 0 1]"

theorem serial_requests_serve_spec_witness:
  "\<exists>h. map fst h = [''CREATE TABLE'', ''CREATE TABLE''] \<and> map snd h = spec_session [''CREATE TABLE'', ''CREATE TABLE''] None 1
     \<and> h = history sim_os False (\<lambda>_. None) creations_in_turn (Server_Run (Server_ctor 2 (StingInstance_ctor (fresh_pool 2))))"
proof -
  let ?s0 = "Server_Run (Server_ctor 2 (StingInstance_ctor (fresh_pool 2)))"
  have two: "replicate 2 x = [x, x]" for x :: 'x by (simp add: numeral_2_eq_2)
  note eval = creations_in_turn_def th_defs Server_Run_def Server_ctor_def on_accept_def Connection_Start_def DoRead_def MAX_LENGTH_def two
    wsteps has_prefix_def do_create_def BindCreateTable_def CreateTable_def StingInstance_ctor_def CatalogManager_ctor_def finish_thrown
    write_answer_def on_write_def
  obtain s where s: "th_run sim_os False creations_in_turn ?s0 = Some s" by (simp add: eval)
  have q: "map fst (history sim_os False (\<lambda>_. None) creations_in_turn ?s0) = [''CREATE TABLE'', ''CREATE TABLE'']" by (simp add: eval)
  have "map snd (history sim_os False (\<lambda>_. None) creations_in_turn ?s0)
      = spec_session (map fst (history sim_os False (\<lambda>_. None) creations_in_turn ?s0)) None 1"
    unfolding fresh_pool_def
    by (rule serial_requests_serve_spec [OF reliable_sim.reliable_device_axioms _ _ _ _ refl s [unfolded fresh_pool_def]])
      (simp_all add: fresh_device_def INVALID_PAGE_ID_def creations_in_turn_def)
  then show ?thesis using q by simp
qed

end
