(* ===== verification/Data_Race.thy ===== *)
theory Data_Race
  imports Thread_Pool
begin

text \<open>
  Where the server depends on unsynchronised accesses.  \<open>first_page_id_\<close> of a table (\<^verbatim>\<open>src/catalog/table_info.h\<close>) and the bytes of a page are
  plain memory; the executors read and write them while they hold no mutex and no latch.  \<open>touches\<close> lists these accesses of a step.  Two
  threads whose next steps touch the same place, one of them writing, are in a data race: in C++ the program
  then has no defined behaviour, whatever the hardware does.  The server of the other theories takes each access as one indivisible step.
\<close>

section \<open>Accesses without a lock\<close>

datatype place = First_page_id u32 | Page_bytes nat

text \<open>A place and whether it is written.  Calls of a manager run under its mutex; their accesses are not listed, except the page header
  that the log call reads before.\<close>

fun put_writes :: "ipc \<Rightarrow> bool" where
  "put_writes (I_count t) = False"
| "put_writes (I_free t c) = False"
| "put_writes _ = True"

fun touches :: "pc \<Rightarrow> (place \<times> bool) list" where
  "touches (P_ins_read txn p) = [(First_page_id p, False)]"
| "touches (P_ins_link txn p pid f) = [(First_page_id p, True)]"
| "touches (P_ins_format txn p pid f k) = [(Page_bytes f, True)]"
| "touches (P_ins_put txn pid f row i) = [(Page_bytes f, put_writes i)]"
| "touches (P_ins_log txn pid f rid row) = [(Page_bytes f, False)]"
| "touches (P_ins_lsn txn pid f lsn) = [(Page_bytes f, True)]"
| "touches (P_sel_read txn p) = [(First_page_id p, False)]"
| "touches (P_sel_look txn pid f slot cnt) = [(Page_bytes f, False)]"
| "touches (P_sel_get txn pid f slot cnt g) = [(Page_bytes f, False)]"
| "touches _ = []"

definition data_race :: "place \<Rightarrow> 'd threaded \<Rightarrow> bool" where
  "data_race x s \<longleftrightarrow> (\<exists>j k b. j \<noteq> k \<and> busy j s \<and> busy k s \<and> (x, True) \<in> set (touches (th_pc s ! j)) \<and> (x, b) \<in> set (touches (th_pc s ! k)))"

section \<open>Two clients\<close>

text \<open>Thread 0 creates the table and starts an \<open>INSERT\<close>, until it is about to store the number of the page it allocated; thread 1 is
  about to read that number for another \<open>INSERT\<close>.  Four steps later thread 0 clears the page and thread 1 reads its tuple count.\<close>

definition to_the_link :: "th_event list" where
  "to_the_link = [E_accept 0 True, E_accept 0 True, E_receive 0 0 ''CREATE TABLE'', E_step 0, E_answer 0 0, E_sent 0 0 True,
     E_receive 0 0 ''INSERT'', E_receive 1 1 ''INSERT'', E_step 0, E_step 0, E_step 0, E_step 0, E_step 1, E_step 1]"

definition to_the_page :: "th_event list" where
  "to_the_page = [E_step 0, E_step 1, E_step 1, E_step 1]"

text \<open>What the steps do, on a pool with a free frame; the device is not used.\<close>

lemma two_inserts_steps:
  assumes m: "0 < m" and pid: "dm_next_page_id dm \<noteq> INVALID_PAGE_ID" and i0: "i0 = StingInstance_ctor (BufferPoolManager_ctor m dm)"
  obtains a i1 i2 i3 i4 i5 i6 pid row where
    "wstep os ndebug (P_start ''CREATE TABLE'', i0) = (P_done a, i1)" "wstep os ndebug (P_start ''INSERT'', i1) = (P_ins_init 1, i2)"
    "wstep os ndebug (P_ins_init 1, i2) = (P_ins_read 1 0, i2)" "wstep os ndebug (P_ins_read 1 0, i2) = (P_ins_new 1 0, i2)"
    "wstep os ndebug (P_ins_new 1 0, i2) = (P_ins_link 1 0 pid 0, i3)" "wstep os ndebug (P_start ''INSERT'', i3) = (P_ins_init 2, i4)"
    "wstep os ndebug (P_ins_init 2, i4) = (P_ins_read 2 0, i4)" "wstep os ndebug (P_ins_link 1 0 pid 0, i4) = (P_ins_format 1 0 pid 0 0, i5)"
    "wstep os ndebug (P_ins_read 2 0, i5) = (P_ins_fetch 2 0 pid, i5)" "wstep os ndebug (P_ins_fetch 2 0 pid, i5) = (P_ins_row 2 0 pid 0, i6)"
    "wstep os ndebug (P_ins_row 2 0 pid 0, i6) = (P_ins_put 2 pid 0 row (I_count row), i6)"
proof -
  let ?ti = "\<lparr>ti_id = 0, ti_name = ''users'', ti_schema = Schema_ctor users_columns, ti_first_page_id = INVALID_PAGE_ID\<rparr>"
  let ?pid = "dm_next_page_id dm"
  obtain a i1 where 1: "do_create i0 = (Inr a, i1)" "in_bpm i1 = in_bpm i0" "in_txn_manager i1 = in_txn_manager i0"
      "cat_table_names (in_catalog i1) ''users'' = Some 0" "cat_tables (in_catalog i1) 0 = Some ?ti"
    by (simp add: i0 do_create_def BindCreateTable_def CreateTable_def StingInstance_ctor_def CatalogManager_ctor_def TableInfo_ctor_def)
  have tm1: "tm_inv (in_txn_manager i1)" "unat (tm_next_txn_id (in_txn_manager i1)) = 1"
    using tm_inv_ctor [of LogManager_ctor] by (simp_all add: 1(3) i0 StingInstance_ctor_def TransactionManager_ctor_def)
  obtain i2 where 2: "begin_txn i1 = (Inr 1, i2)" "in_bpm i2 = in_bpm i1" "in_catalog i2 = in_catalog i1"
      "tm_inv (in_txn_manager i2)" "unat (tm_next_txn_id (in_txn_manager i2)) = 2"
    using begin_txn_ok [OF tm1] by auto
  obtain bpm where 3: "NewPage os (in_bpm i2) = (Inr (Some (?pid, 0)), bpm)" "bp_page_table bpm ?pid = Some 0"
    using m by (auto simp: 2(2) 1(2) i0 StingInstance_ctor_def BufferPoolManager_ctor_def NewPage_def acquire_frame_def AllocatePage_def
        upt_conv_Cons upd_page_def Let_def)
  let ?i3 = "i2\<lparr>in_bpm := bpm\<rparr>"
  obtain i4 where 4: "begin_txn ?i3 = (Inr 2, i4)" "in_bpm i4 = bpm" "in_catalog i4 = in_catalog i1"
    using begin_txn_ok [of ?i3 2] 2(3-5) by auto
  let ?i5 = "i4\<lparr>in_catalog := update_first_page 0 ?pid (in_catalog i4)\<rparr>"
  have cat: "cat_table_names (in_catalog i2) ''users'' = Some 0" "cat_tables (in_catalog i2) 0 = Some ?ti"
      "cat_table_names (in_catalog i4) ''users'' = Some 0" "cat_tables (in_catalog i4) 0 = Some ?ti"
      "cat_tables (in_catalog ?i5) 0 = Some (?ti\<lparr>ti_first_page_id := ?pid\<rparr>)"
    by (simp_all add: 2(3) 4(3) 1(4,5) update_first_page_def UpdateFirstPageId_def)
  obtain bpm' where 6: "FetchPage os ?pid (in_bpm ?i5) = (Inr (Some 0), bpm')" using 3(2) 4(2) by (simp add: FetchPage_def)
  show ?thesis
    by (rule that [of a i1 i2 ?pid ?i3 i4 ?i5 "?i5\<lparr>in_bpm := bpm'\<rparr>" "replicate (unat (sc_tuple_fixed_size (Schema_ctor users_columns))) 0"])
      (use 1(1) 2(1) 3(1) 4(1) 6 cat pid in \<open>simp_all add: wsteps has_prefix_def GetTable_def table_at_def Let_def\<close>)
qed

section \<open>Property\<close>

text \<open>(C26) Two clients that insert at the same time are enough for undefined behaviour: on any device and any number of threads from two on,
  the server reaches a state in which one thread is about to write \<open>first_page_id_\<close> of the table while another is about to read it,
  and from there a state in which one thread is about to clear a page whose bytes another is about to read.  No lock orders
  these accesses.\<close>

theorem concurrent_inserts_race:
  assumes "1 < unat n" and "0 < m" and "dm_next_page_id dm \<noteq> INVALID_PAGE_ID"
  shows "\<exists>s1 s2. th_run os ndebug to_the_link (Server_Run (Server_ctor n (StingInstance_ctor (BufferPoolManager_ctor m dm)))) = Some s1
    \<and> data_race (First_page_id 0) s1 \<and> th_run os ndebug to_the_page s1 = Some s2 \<and> data_race (Page_bytes 0) s2"
proof -
  let ?i0 = "StingInstance_ctor (BufferPoolManager_ctor m dm)"
  obtain l where l: "unat n = Suc (Suc l)" using assms(1) by (metis One_nat_def less_imp_Suc_add add_Suc_right add_0 plus_1_eq_Suc)
  obtain a i1 i2 i3 i4 i5 i6 pid row where W:
    "wstep os ndebug (P_start ''CREATE TABLE'', ?i0) = (P_done a, i1)" "wstep os ndebug (P_start ''INSERT'', i1) = (P_ins_init 1, i2)"
    "wstep os ndebug (P_ins_init 1, i2) = (P_ins_read 1 0, i2)" "wstep os ndebug (P_ins_read 1 0, i2) = (P_ins_new 1 0, i2)"
    "wstep os ndebug (P_ins_new 1 0, i2) = (P_ins_link 1 0 pid 0, i3)" "wstep os ndebug (P_start ''INSERT'', i3) = (P_ins_init 2, i4)"
    "wstep os ndebug (P_ins_init 2, i4) = (P_ins_read 2 0, i4)" "wstep os ndebug (P_ins_link 1 0 pid 0, i4) = (P_ins_format 1 0 pid 0 0, i5)"
    "wstep os ndebug (P_ins_read 2 0, i5) = (P_ins_fetch 2 0 pid, i5)" "wstep os ndebug (P_ins_fetch 2 0 pid, i5) = (P_ins_row 2 0 pid 0, i6)"
    "wstep os ndebug (P_ins_row 2 0 pid 0, i6) = (P_ins_put 2 pid 0 row (I_count row), i6)"
    by (rule two_inserts_steps [OF assms(2,3) refl, of os ndebug])
  obtain s1 c0 c1 where s1: "th_run os ndebug to_the_link (Server_Run (Server_ctor n ?i0)) = Some s1"
      "s1 = \<lparr>th_server = \<lparr>sv_conns = [c0, c1], sv_instance = i4, sv_thread_pool_size = n, sv_accepting = True\<rparr>,
         th_conn = Some 0 # Some 1 # replicate l None, th_pc = P_ins_link 1 0 pid 0 # P_ins_read 2 0 # replicate l (P_done []), th_returned = []\<rparr>"
    using l by (simp add: to_the_link_def th_defs Server_Run_def Server_ctor_def DoAccept_def on_accept_def Connection_Start_def DoRead_def
        MAX_LENGTH_def write_answer_def on_write_def W)
  have "data_race (First_page_id 0) s1"
    unfolding data_race_def by (intro exI [of _ 0] exI [of _ 1] exI [of _ False]) (simp add: s1(2) busy_def)
  moreover obtain s2 where s2: "th_run os ndebug to_the_page s1 = Some s2" "th_conn s2 = Some 0 # Some 1 # replicate l None"
      "th_pc s2 = P_ins_format 1 0 pid 0 0 # P_ins_put 2 pid 0 row (I_count row) # replicate l (P_done [])"
    by (simp add: to_the_page_def th_defs s1(2) W)
  moreover have "data_race (Page_bytes 0) s2"
    unfolding data_race_def by (intro exI [of _ 0] exI [of _ 1] exI [of _ False]) (simp add: s2(2,3) busy_def)
  ultimately show ?thesis using s1(1) by blast
qed

theorem concurrent_inserts_race_witness:
  "\<exists>s1. th_run sim_os False to_the_link (Server_Run (Server_ctor 2 (StingInstance_ctor (fresh_pool 2)))) = Some s1 \<and> data_race (First_page_id 0) s1"
  using concurrent_inserts_race [of 2 2 "\<lparr>dm_file_name = ''sting.db'', dm_fd = 3, dm_next_page_id = 0, dm_ring = fresh_device\<rparr>" sim_os False]
  by (auto simp: INVALID_PAGE_ID_def fresh_pool_def)

end
