(* ===== verification/Crash.thy ===== *)
theory Crash
  imports Server_Main Server_Invariants
begin

text \<open>
  What a crash of the server leaves on the device.  A comment of \<^verbatim>\<open>src/transaction/transaction_manager.h\<close> says that \<open>Commit\<close> forces
  the log to disk for durability; but the log manager writes nothing, and the only page of the database never leaves its frame.
  The invariant \<open>untouched\<close>, a third interpretation of \<open>instance_invariant\<close>, says that no request has touched the device.
\<close>

section \<open>The device is not touched\<close>

text \<open>\<open>d\<close> is the device as the server found it.  Before page 0 exists no frame can be evicted; afterwards it is resident.\<close>

definition untouched :: "nat \<Rightarrow> 'd \<Rightarrow> 'd sting_instance \<Rightarrow> bool" where
  "untouched n d inst \<longleftrightarrow> one_page n inst \<and> dm_ring (bp_disk (in_bpm inst)) = d
     \<and> (bp_page_table (in_bpm inst) = Map.empty \<longrightarrow> next_id (in_bpm inst) = 0 \<and> bp_lru (in_bpm inst) = [])"

lemma untouched_ctor:
  assumes "dm_next_page_id dm = 0"
  shows "untouched n (dm_ring dm) (StingInstance_ctor (BufferPoolManager_ctor n dm))"
  using one_page_ctor [OF assms, of n] assms by (simp add: untouched_def StingInstance_ctor_def BufferPoolManager_ctor_def)

text \<open>The first page of the table, when it has one, is page 0 and resident.\<close>

lemma untouched_resident:
  assumes u: "untouched n d inst" and ti: "cat_tables (in_catalog inst) p = Some ti" "ti_first_page_id ti \<noteq> INVALID_PAGE_ID"
  shows "\<exists>f. bp_page_table (in_bpm inst) (ti_first_page_id ti) = Some f"
proof -
  have o: "one_page n inst" using u by (simp add: untouched_def)
  then have "p = 0" using ti(1) only_users_0 by (auto simp: one_page_def)
  then have z: "next_id (in_bpm inst) = 1" "dom (bp_page_table (in_bpm inst)) \<subseteq> {0}" "ti_first_page_id ti = 0"
    using o ti by (auto simp: one_page_def page_zero_def)
  then have "bp_page_table (in_bpm inst) \<noteq> Map.empty" using u by (auto simp: untouched_def)
  then show ?thesis using z(2,3) by (auto simp: fun_eq_iff)
qed

lemma untouched_fetch:
  assumes u: "untouched n d inst" and ti: "cat_tables (in_catalog inst) p = Some ti" "ti_first_page_id ti \<noteq> INVALID_PAGE_ID"
    and f: "FetchPage os (ti_first_page_id ti) (in_bpm inst) = (r, s)"
  shows "untouched n d (inst\<lparr>in_bpm := s\<rparr>)"
proof -
  obtain g where g: "bp_page_table (in_bpm inst) (ti_first_page_id ti) = Some g" using untouched_resident [OF u ti] by blast
  then have "bp_disk s = bp_disk (in_bpm inst)" "bp_page_table s = bp_page_table (in_bpm inst)" using f by (auto simp: FetchPage_def)
  then show ?thesis using u g one_page_fetch [OF _ ti f] by (auto simp: untouched_def)
qed

text \<open>While no page has a number, the pool takes a free frame or reports that it has none.\<close>

lemma untouched_new:
  assumes u: "untouched n d inst" and s: "NewPage os (in_bpm inst) = (r, s)" and e: "bp_page_table (in_bpm inst) = Map.empty"
  shows "r = Inr None \<and> s = in_bpm inst \<or> (\<exists>pid f. r = Inr (Some (pid, f)) \<and> dm_ring (bp_disk s) = d \<and> bp_page_table s pid = Some f)"
proof -
  have "bp_lru (in_bpm inst) = []" "dm_ring (bp_disk (in_bpm inst)) = d" using u e by (simp_all add: untouched_def)
  then show ?thesis using s by (auto simp: NewPage_def acquire_frame_def AllocatePage_def Let_def split: list.splits)
qed

lemma untouched_none:
  assumes u: "untouched n d inst" and ti: "cat_tables (in_catalog inst) p = Some ti" "ti_first_page_id ti = INVALID_PAGE_ID"
  shows "bp_page_table (in_bpm inst) = Map.empty"
proof -
  have o: "one_page n inst" using u by (simp add: untouched_def)
  then have "p = 0" using ti(1) only_users_0 by (auto simp: one_page_def)
  then show ?thesis using o ti by (auto simp: one_page_def page_zero_def INVALID_PAGE_ID_def)
qed

lemma untouched_unpin:
  assumes u: "untouched n d inst" and s: "UnpinPage ndebug pid b (in_bpm inst) = (r, s)"
  shows "untouched n d (inst\<lparr>in_bpm := s\<rparr>)"
proof -
  have "bp_disk s = bp_disk (in_bpm inst) \<and> (bp_page_table (in_bpm inst) = Map.empty \<longrightarrow> s = in_bpm inst)"
    using s by (auto simp: UnpinPage_def Let_def split: option.splits if_splits)
  then show ?thesis
    using u zero.unpin_page [OF _ s] UnpinPage_numbers [OF s] by (auto simp: untouched_def)
qed

interpretation untouched: instance_invariant os "untouched n d" for os :: "'d os" and n :: nat and d :: 'd
proof
  show "untouched n d (inst\<lparr>in_txn_manager := tm\<rparr>)" if "untouched n d inst" for inst :: "'d sting_instance" and tm
    using that by (simp add: untouched_def one_page_def)
  show "page_wf (bp_pages (in_bpm inst) ! f)" if "untouched n d inst" "f < length (bp_pages (in_bpm inst))" for inst :: "'d sting_instance" and f
    using that by (simp add: untouched_def one_page_def frames_ok_def)
  show "untouched n d (set_page f pg inst)" if "untouched n d inst" "f < length (bp_pages (in_bpm inst)) \<Longrightarrow> page_wf pg" for inst :: "'d sting_instance" and f pg
    using that zero.edit [of n inst f pg] by (simp add: untouched_def set_page_def upd_page_def)
  show "untouched n d (inst\<lparr>in_catalog := cat\<rparr>)"
    if "untouched n d inst" "CreateTable ''users'' sch INVALID_PAGE_ID (in_catalog inst) = (r, cat)" for inst :: "'d sting_instance" and sch r cat
    using that one_page_create by (auto simp: untouched_def)
  fix inst :: "'d sting_instance" and p ti r s
  assume u: "untouched n d inst" "cat_tables (in_catalog inst) p = Some ti" "ti_first_page_id ti = INVALID_PAGE_ID" and s: "NewPage os (in_bpm inst) = (r, s)"
  note N = untouched_new [OF u(1) s untouched_none [OF u]]
  show "untouched n d (inst\<lparr>in_bpm := s\<rparr>)" if "\<And>x. r \<noteq> Inr (Some x)" using N that u(1) by auto
next
  fix inst :: "'d sting_instance" and p ti pid f s
  assume u: "untouched n d inst" "cat_tables (in_catalog inst) p = Some ti" "ti_first_page_id ti = INVALID_PAGE_ID"
    and s: "NewPage os (in_bpm inst) = (Inr (Some (pid, f)), s)"
  show "untouched n d (inst\<lparr>in_bpm := s, in_catalog := update_first_page p pid (in_catalog inst)\<rparr>)"
    using untouched_new [OF u(1) s untouched_none [OF u]] one_page_new [OF _ u(2,3) s] u(1) by (auto simp: untouched_def)
qed (blast intro: untouched_fetch untouched_unpin)+

section \<open>Properties\<close>

text \<open>On any device and for any requests, committed or not: a server that starts with page number 0 leaves the device exactly as
  it found it.  No request makes a system call on the file, so nothing a client was told to be stored is on it.\<close>

theorem requests_touch_no_device:
  assumes "dm_next_page_id dm = 0" and "session os ndebug qs (StingInstance_ctor (BufferPoolManager_ctor m dm)) = (as, inst)"
  shows "dm_ring (bp_disk (in_bpm inst)) = dm_ring dm"
  using untouched.session_keeps [OF untouched_ctor [OF assms(1)] assms(2)] by (simp add: untouched_def)

text \<open>A server that \<open>main\<close> has started.\<close>

lemma started_disk:
  assumes "main_start os d0 = (Inr inst, d)" and "opened os ''stingdb_data.db'' d0 = (fd, d1)"
  obtains dm where "inst = StingInstance_ctor (BufferPoolManager_ctor 4096 dm)" "dm_ring dm = d" "dm_fd dm = fd" "dm_next_page_id dm = 0"
  using assms by (auto simp: main_start_def DiskManager_ctor_opened split: prod.splits if_splits sum.splits)

lemma started_session:
  assumes "main_start os d0 = (Inr inst, d)" and "opened os ''stingdb_data.db'' d0 = (fd, d1)"
    and "reliable_device os fd blocks phase wait" and "phase d = Idle" and "length qs < 2 ^ 64 - 1"
  shows "fst (session os ndebug qs inst) = map Inr (spec_session qs None 1)"
proof -
  obtain dm where dm: "inst = StingInstance_ctor (BufferPoolManager_ctor 4096 dm)" "dm_ring dm = d" "dm_fd dm = fd" "dm_next_page_id dm = 0"
    using started_disk [OF assms(1,2)] .
  then have "server_state fd blocks phase None 1 inst" using fresh_server_state [of phase dm fd 4096] assms(4) by (simp add: INVALID_PAGE_ID_def)
  then show ?thesis using reliable_device.session_ok [OF assms(3)] assms(5) by simp
qed

text \<open>(C20) A crash loses every committed row.  The program starts and answers \<open>k\<close> inserts with success, each after its commit.  The device
  is then exactly as it was when the server began to serve.  Started again on what the crash leaves, the program
  answers \<open>SELECT\<close> that there is no table; when the table is created again it has no row.\<close>

theorem crash_loses_committed_rows:
  assumes start: "main_start os d0 = (Inr inst0, d)" "opened os ''stingdb_data.db'' d0 = (fd, d1)"
    and dev: "reliable_device os fd blocks phase wait" "phase d = Idle" and k: "k < 2 ^ 64 - 2"
    and run: "session os ndebug (''CREATE TABLE'' # replicate k ''INSERT'') inst0 = (as, inst)"
    and crash: "d' = dm_ring (bp_disk (in_bpm inst))"
    and restart: "main_start os d' = (Inr inst0', d2)" "opened os ''stingdb_data.db'' d' = (fd', d3)"
      "reliable_device os fd' blocks' phase' wait'" "phase' d2 = Idle"
  shows "tl as = replicate k (Inr (''Success: 1 row inserted into '' @ users_quoted @ ''.'' @ newline)) \<and> d' = d
    \<and> fst (session os ndebug [''SELECT''] inst0') = [Inr (''Error: Table not found: users'' @ newline)]
    \<and> fst (session os ndebug [''CREATE TABLE'', ''SELECT''] inst0')
      = [Inr (''Success: Table '' @ users_quoted @ '' created.'' @ newline), Inr (''Success: 0 rows selected from '' @ users_quoted @ ''.'' @ newline)]"
proof -
  have c: "classify ''CREATE TABLE'' = R_create" "classify ''INSERT'' = R_insert" "classify ''SELECT'' = R_select"
    by (simp_all add: classify_def has_prefix_def)
  obtain dm where dm: "inst0 = StingInstance_ctor (BufferPoolManager_ctor 4096 dm)" "dm_ring dm = d" "dm_fd dm = fd" "dm_next_page_id dm = 0"
    using started_disk [OF start] .
  have "d' = d" using untouched.session_keeps [OF untouched_ctor [OF dm(4)] run [unfolded dm(1)]] crash dm(2) by (simp add: untouched_def)
  moreover have "as = map Inr (spec_session (''CREATE TABLE'' # replicate k ''INSERT'') None 1)"
    using started_session [OF start dev, of "''CREATE TABLE'' # replicate k ''INSERT''" ndebug] run k by simp
  moreover have "spec_session (replicate k ''INSERT'') (Some j) n = replicate k (''Success: 1 row inserted into '' @ users_quoted @ ''.'' @ newline)" for j n
    by (induction k arbitrary: j n) (simp_all add: c)
  moreover have "fst (session os ndebug qs inst0') = map Inr (spec_session qs None 1)" if "length qs \<le> 2" for qs
    using started_session [OF restart] that by simp
  moreover have "decimal 0 = ''0''" by (simp add: decimal.simps char_of_def bit_0)
  ultimately show ?thesis by (simp add: c del: session.simps)
qed

text \<open>Two rows on the simulated device.\<close>

theorem requests_touch_no_device_witness:
  "dm_ring (bp_disk (in_bpm (snd (session sim_os False [''CREATE TABLE'', ''INSERT'', ''SELECT''] (StingInstance_ctor (fresh_pool 1)))))) = fresh_device"
proof -
  let ?dm = "\<lparr>dm_file_name = ''sting.db'', dm_fd = 3, dm_next_page_id = 0, dm_ring = fresh_device\<rparr>"
  obtain as inst where "session sim_os False [''CREATE TABLE'', ''INSERT'', ''SELECT''] (StingInstance_ctor (BufferPoolManager_ctor 1 ?dm)) = (as, inst)"
    by fastforce
  then show ?thesis using requests_touch_no_device [of ?dm sim_os False _ 1 as inst] by (simp add: fresh_pool_def del: session.simps)
qed

theorem crash_loses_committed_rows_witness:
  "\<exists>inst0 as inst. main_start sim_os fresh_device = (Inr inst0, fresh_device)
    \<and> session sim_os False (''CREATE TABLE'' # replicate 2 ''INSERT'') inst0 = (as, inst)
    \<and> length as = 3 \<and> dm_ring (bp_disk (in_bpm inst)) = fresh_device"
proof -
  have o: "opened sim_os ''stingdb_data.db'' fresh_device = (3, fresh_device)" "os_queue_init sim_os fresh_device 256 = (0, fresh_device)"
    by (simp_all add: opened_def sim_os_def fresh_device_def)
  then obtain inst0 where i: "main_start sim_os fresh_device = (Inr inst0, fresh_device)" by (simp add: main_start_def DiskManager_ctor_opened)
  obtain dm where dm: "inst0 = StingInstance_ctor (BufferPoolManager_ctor 4096 dm)" "dm_ring dm = fresh_device" "dm_next_page_id dm = 0"
    using started_disk [OF i o(1)] by metis
  obtain as inst where r: "session sim_os False (''CREATE TABLE'' # replicate 2 ''INSERT'') inst0 = (as, inst)" by fastforce
  have d: "dm_ring (bp_disk (in_bpm inst)) = fresh_device"
    using untouched.session_keeps [OF untouched_ctor [OF dm(3)] r [unfolded dm(1)]] dm(2) by (simp add: untouched_def)
  have idle: "sim_phase fresh_device = Idle" by (simp add: fresh_device_def)
  have "tl as = replicate 2 (Inr (''Success: 1 row inserted into '' @ users_quoted @ ''.'' @ newline))"
    using crash_loses_committed_rows [OF i o(1) reliable_sim.reliable_device_axioms idle _ r d [symmetric] i o(1) reliable_sim.reliable_device_axioms idle]
    by (simp del: session.simps)
  moreover have "as = map Inr (spec_session (''CREATE TABLE'' # replicate 2 ''INSERT'') None 1)"
    using started_session [OF i o(1) reliable_sim.reliable_device_axioms idle, of "''CREATE TABLE'' # replicate 2 ''INSERT''" False] r by simp
  then have "as \<noteq> []" by (simp split: prod.split)
  ultimately have "length as = 3" by (cases as) simp_all
  then show ?thesis using i r d by blast
qed

end
