(* ===== verification/Txn_Threads.thy ===== *)
theory Txn_Threads
  imports Transaction_Manager
begin

text \<open>
  \<open>Begin\<close>, \<open>Commit\<close> and \<open>Abort\<close> of \<^verbatim>\<open>src/transaction/transaction_manager.h\<close> are not atomic: each is a sequence of atomic operations
  (\<open>fetch_add\<close> on the counters, a load of the global epoch) and of calls that hold one mutex for a moment (the log, the
  transaction map).  Here they are cut into these steps.  Shown: the steps are the calls, and for any number of threads
  and any interleaving the epoch counters stay exact and the invariant \<open>tm_inv\<close> holds whenever no call is under way.
\<close>

section \<open>Where a thread is\<close>

text \<open>\<open>T_run\<close>: between calls, with an open transaction; \<open>T_idle\<close>: between calls, without one.\<close>

datatype tpc =
    T_idle | T_begin IsolationLevel | T_enter transaction | T_count transaction u64 | T_log transaction | T_emplace transaction | T_run u64
  | T_commit u64 | T_log_commit u64 | T_swap u64 | T_flushed u64
  | T_abort u64 | T_log_abort u64
  | T_state TransactionState u64 | T_exit u64 | T_dead error

definition count_reader :: "u64 \<Rightarrow> epoch_manager \<Rightarrow> epoch_manager" where
  "count_reader e em = em\<lparr>em_active_epochs := (em_active_epochs em)[epoch_slot e := em_active_epochs em ! epoch_slot e + 1]\<rparr>"

fun tstep :: "tpc \<times> txn_manager \<Rightarrow> tpc \<times> txn_manager" where
  "tstep (T_begin lev, tm) = (T_enter (Transaction_ctor (tm_next_txn_id tm) lev), tm\<lparr>tm_next_txn_id := tm_next_txn_id tm + 1\<rparr>)"
| "tstep (T_enter t, tm) = (T_count t (em_global_epoch (tm_epochs tm)), tm)"
| "tstep (T_count t e, tm) = (T_log (t\<lparr>tx_read_epoch := e, tx_has_manager := True\<rparr>), tm\<lparr>tm_epochs := count_reader e (tm_epochs tm)\<rparr>)"
| "tstep (T_log t, tm) =
     (let (lsn, lm) = AppendLogRecord (LogRecord_ctor (tx_txn_id t) 0 LR_BEGIN) (tm_log tm) in (T_emplace (AppendWriteSet lsn t), tm\<lparr>tm_log := lm\<rparr>))"
| "tstep (T_emplace t, tm) =
     (if tm_txn_map tm (tx_txn_id t) = None then (T_run (tx_txn_id t), tm\<lparr>tm_txn_map := (tm_txn_map tm)(tx_txn_id t \<mapsto> t)\<rparr>)
      else (T_dead Undefined, tm))"
| "tstep (T_commit txn, tm) =
     (case tm_txn_map tm txn of None \<Rightarrow> (T_dead Undefined, tm) | Some t \<Rightarrow> (if tx_state t = ABORTED then T_idle else T_log_commit txn, tm))"
| "tstep (T_log_commit txn, tm) =
     (case tm_txn_map tm txn of None \<Rightarrow> (T_dead Undefined, tm)
      | Some t \<Rightarrow> let (lsn, lm) = AppendLogRecord (LogRecord_ctor (tx_txn_id t) 0 LR_COMMIT) (tm_log tm) in (T_swap txn, tm\<lparr>tm_log := lm\<rparr>))"
| "tstep (T_swap txn, tm) = (T_flushed txn, tm\<lparr>tm_log := Flush_swap (tm_log tm)\<rparr>)"
| "tstep (T_flushed txn, tm) = (T_state COMMITTED txn, tm\<lparr>tm_log := Flush_finish (tm_log tm)\<rparr>)"
| "tstep (T_abort txn, tm) =
     (case tm_txn_map tm txn of None \<Rightarrow> (T_dead Undefined, tm) | Some t \<Rightarrow> (if tx_state t = COMMITTED then T_idle else T_log_abort txn, tm))"
| "tstep (T_log_abort txn, tm) =
     (case tm_txn_map tm txn of None \<Rightarrow> (T_dead Undefined, tm)
      | Some t \<Rightarrow> let (lsn, lm) = AppendLogRecord (LogRecord_ctor (tx_txn_id t) 0 LR_ABORT) (tm_log tm) in (T_state ABORTED txn, tm\<lparr>tm_log := lm\<rparr>))"
| "tstep (T_state st txn, tm) =
     (case tm_txn_map tm txn of None \<Rightarrow> (T_dead Undefined, tm)
      | Some t \<Rightarrow> (T_exit txn, tm\<lparr>tm_txn_map := (tm_txn_map tm)(txn \<mapsto> t\<lparr>tx_state := st\<rparr>)\<rparr>))"
| "tstep (T_exit txn, tm) =
     (case tm_txn_map tm txn of None \<Rightarrow> (T_dead Undefined, tm)
      | Some t \<Rightarrow> (T_idle, if tx_has_manager t then tm\<lparr>tm_epochs := ExitEpoch (tx_read_epoch t) (tm_epochs tm)\<rparr> else tm))"
| "tstep (T_idle, tm) = (T_idle, tm)"
| "tstep (T_run txn, tm) = (T_run txn, tm)"
| "tstep (T_dead e, tm) = (T_dead e, tm)"

text \<open>Threads take steps; between calls they make the next call, or leave their transaction open for good as the request handler
  does after an error; the epoch advances at any time.\<close>

inductive threads :: "txn_manager \<times> tpc list \<Rightarrow> txn_manager \<times> tpc list \<Rightarrow> bool" where
  step: "i < length ws \<Longrightarrow> tstep (ws ! i, tm) = (w, tm') \<Longrightarrow> threads (tm, ws) (tm', ws[i := w])"
| call_begin: "i < length ws \<Longrightarrow> ws ! i = T_idle \<Longrightarrow> threads (tm, ws) (tm, ws[i := T_begin lev])"
| call_commit: "i < length ws \<Longrightarrow> ws ! i = T_run txn \<Longrightarrow> threads (tm, ws) (tm, ws[i := T_commit txn])"
| call_abort: "i < length ws \<Longrightarrow> ws ! i = T_run txn \<Longrightarrow> threads (tm, ws) (tm, ws[i := T_abort txn])"
| leave: "i < length ws \<Longrightarrow> ws ! i = T_run txn \<Longrightarrow> threads (tm, ws) (tm, ws[i := T_idle])"
| advance: "threads (tm, ws) (tm\<lparr>tm_epochs := AdvanceEpoch (tm_epochs tm)\<rparr>, ws)"

section \<open>The steps are the calls\<close>

text \<open>(C22) A call that is not interrupted does what the model of the whole call does: \<open>Begin\<close> in five steps, \<open>Commit\<close> in six and \<open>Abort\<close> in four
  (fewer when the transaction has already ended the other way), with the same result and the same manager afterwards.\<close>

theorem txn_calls_are_their_steps:
  "(tstep ^^ 5) (T_begin lev, tm) = (case TM_Begin lev tm of (Inr txn, tm') \<Rightarrow> (T_run txn, tm') | (Inl e, tm') \<Rightarrow> (T_dead e, tm'))
   \<and> (tstep ^^ 6) (T_commit txn, tm) = (case TM_Commit txn tm of (Inr u, tm') \<Rightarrow> (T_idle, tm') | (Inl e, tm') \<Rightarrow> (T_dead e, tm'))
   \<and> (tstep ^^ 4) (T_abort txn, tm) = (case TM_Abort txn tm of (Inr u, tm') \<Rightarrow> (T_idle, tm') | (Inl e, tm') \<Rightarrow> (T_dead e, tm'))"
proof (intro conjI)
  show "(tstep ^^ 5) (T_begin lev, tm) = (case TM_Begin lev tm of (Inr txn, tm') \<Rightarrow> (T_run txn, tm') | (Inl e, tm') \<Rightarrow> (T_dead e, tm'))"
    by (auto simp: numeral_eq_Suc TM_Begin_def EnterReadEpoch_def EnterEpoch_def Let_def count_reader_def Transaction_ctor_def AppendWriteSet_def
        split: prod.split)
  show "(tstep ^^ 6) (T_commit txn, tm) = (case TM_Commit txn tm of (Inr u, tm') \<Rightarrow> (T_idle, tm') | (Inl e, tm') \<Rightarrow> (T_dead e, tm'))"
    by (cases "tm_txn_map tm txn") (simp_all add: numeral_eq_Suc TM_Commit_def Txn_Commit_def Let_def Flush_def split: prod.split)
  show "(tstep ^^ 4) (T_abort txn, tm) = (case TM_Abort txn tm of (Inr u, tm') \<Rightarrow> (T_idle, tm') | (Inl e, tm') \<Rightarrow> (T_dead e, tm'))"
    by (cases "tm_txn_map tm txn") (simp_all add: numeral_eq_Suc TM_Abort_def Txn_Abort_def Let_def split: prod.split)
qed

section \<open>The invariant\<close>

text \<open>The transaction a thread works on.\<close>

fun tid :: "tpc \<Rightarrow> u64 option" where
  "tid (T_enter t) = Some (tx_txn_id t)"
| "tid (T_count t e) = Some (tx_txn_id t)"
| "tid (T_log t) = Some (tx_txn_id t)"
| "tid (T_emplace t) = Some (tx_txn_id t)"
| "tid (T_run txn) = Some txn"
| "tid (T_commit txn) = Some txn"
| "tid (T_log_commit txn) = Some txn"
| "tid (T_swap txn) = Some txn"
| "tid (T_flushed txn) = Some txn"
| "tid (T_abort txn) = Some txn"
| "tid (T_log_abort txn) = Some txn"
| "tid (T_state st txn) = Some txn"
| "tid (T_exit txn) = Some txn"
| "tid _ = None"

text \<open>A reader that is counted but not an active transaction of the map: before it is put there, or after its state has changed.\<close>

fun inflight :: "txn_manager \<Rightarrow> tpc \<Rightarrow> u64 multiset" where
  "inflight tm (T_log t) = {#tx_read_epoch t#}"
| "inflight tm (T_emplace t) = {#tx_read_epoch t#}"
| "inflight tm (T_exit txn) = {#tx_read_epoch (the (tm_txn_map tm txn))#}"
| "inflight tm _ = {#}"

definition pending :: "txn_manager \<Rightarrow> tpc list \<Rightarrow> u64 multiset" where
  "pending tm ws = sum_list (map (inflight tm) ws)"

text \<open>A transaction that is not in the map yet, and one that is.\<close>

definition unborn :: "txn_manager \<Rightarrow> transaction \<Rightarrow> bool" where
  "unborn tm t \<longleftrightarrow> 0 < tx_txn_id t \<and> tx_txn_id t < tm_next_txn_id tm \<and> tm_txn_map tm (tx_txn_id t) = None \<and> tx_state t = ACTIVE"

definition alive :: "txn_manager \<Rightarrow> u64 \<Rightarrow> bool" where
  "alive tm txn \<longleftrightarrow> (\<exists>t. tm_txn_map tm txn = Some t \<and> tx_state t = ACTIVE)"

fun thread_ok :: "txn_manager \<Rightarrow> tpc \<Rightarrow> bool" where
  "thread_ok tm (T_enter t) = unborn tm t"
| "thread_ok tm (T_count t e) = unborn tm t"
| "thread_ok tm (T_log t) = (unborn tm t \<and> tx_has_manager t)"
| "thread_ok tm (T_emplace t) = (unborn tm t \<and> tx_has_manager t)"
| "thread_ok tm (T_state st txn) = (alive tm txn \<and> (st = COMMITTED \<or> st = ABORTED))"
| "thread_ok tm (T_exit txn) = (\<exists>t. tm_txn_map tm txn = Some t \<and> tx_state t \<noteq> ACTIVE)"
| "thread_ok tm T_idle = True"
| "thread_ok tm (T_begin lev) = True"
| "thread_ok tm (T_dead e) = False"
| "thread_ok tm w = alive tm (the (tid w))"

definition map_ok :: "txn_manager \<Rightarrow> bool" where
  "map_ok tm \<longleftrightarrow> 0 < tm_next_txn_id tm \<and> (\<forall>txn t. tm_txn_map tm txn = Some t \<longrightarrow>
     tx_txn_id t = txn \<and> tx_has_manager t \<and> 0 < txn \<and> txn < tm_next_txn_id tm \<and> tx_state t \<noteq> PRE_ABORT)"

definition counted :: "nat \<Rightarrow> txn_manager \<times> tpc list \<Rightarrow> bool" where
  "counted n c \<longleftrightarrow> (case c of (tm, ws) \<Rightarrow> map_ok tm \<and> unat (tm_next_txn_id tm) \<le> Suc n
     \<and> epochs_tracked (tm_epochs tm) (read_epochs tm + pending tm ws) \<and> (\<forall>w \<in> set ws. thread_ok tm w)
     \<and> (\<forall>i < length ws. \<forall>j < length ws. i \<noteq> j \<longrightarrow> tid (ws ! i) \<noteq> None \<longrightarrow> tid (ws ! i) \<noteq> tid (ws ! j)))"

lemma count_reader_tracked: "epochs_tracked em M \<Longrightarrow> epochs_tracked (count_reader e em) (add_mset e M)"
  by (auto simp: epochs_tracked_def count_reader_def nth_list_update)

text \<open>A thread does not notice what happens to other transactions.\<close>

lemma thread_ok_other:
  assumes "thread_ok tm w" and "\<And>txn. tid w = Some txn \<Longrightarrow> tm_txn_map tm' txn = tm_txn_map tm txn" and "tm_next_txn_id tm \<le> tm_next_txn_id tm'"
  shows "thread_ok tm' w" "inflight tm' w = inflight tm w"
  using assms by (cases w; auto simp: unborn_def alive_def intro: less_le_trans)+

lemma counted_update:
  assumes c: "counted n (tm, ws)" and i: "i < length ws"
    and tm': "map_ok tm'" "unat (tm_next_txn_id tm') \<le> Suc (Suc n)" "tm_next_txn_id tm \<le> tm_next_txn_id tm'"
    and others: "\<And>txn. tid (ws ! i) \<noteq> Some txn \<Longrightarrow> tm_txn_map tm' txn = tm_txn_map tm txn"
    and w: "thread_ok tm' w" "tid w = None \<or> tid w = tid (ws ! i) \<or> (\<exists>txn. tid w = Some txn \<and> tm_next_txn_id tm \<le> txn)"
    and ep: "\<And>M. epochs_tracked (tm_epochs tm) (read_epochs tm + inflight tm (ws ! i) + M) \<Longrightarrow> epochs_tracked (tm_epochs tm') (read_epochs tm' + inflight tm' w + M)"
  shows "counted (Suc n) (tm', ws[i := w])"
proof -
  have ok: "thread_ok tm (ws ! j)" if "j < length ws" for j using c that by (simp add: counted_def)
  have diff: "tid (ws ! j) \<noteq> tid (ws ! k)" if "j < length ws" "k < length ws" "j \<noteq> k" "tid (ws ! j) \<noteq> None" for j k
    using c that by (simp add: counted_def)
  have other: "thread_ok tm' (ws ! j)" "inflight tm' (ws ! j) = inflight tm (ws ! j)" if j: "j < length ws" "j \<noteq> i" for j
  proof -
    have "tm_txn_map tm' txn = tm_txn_map tm txn" if "tid (ws ! j) = Some txn" for txn
      using others [of txn] diff [OF j(1) i j(2)] that by auto
    then show "thread_ok tm' (ws ! j)" "inflight tm' (ws ! j) = inflight tm (ws ! j)" using thread_ok_other [OF ok [OF j(1)] _ tm'(3)] by auto
  qed
  have below: "txn < tm_next_txn_id tm" if "j < length ws" "tid (ws ! j) = Some txn" for j txn
    using ok [OF that(1)] that(2) c by (cases "ws ! j") (auto simp: unborn_def alive_def counted_def map_ok_def)
  have new: "tid w \<noteq> tid (ws ! j)" if "j < length ws" "j \<noteq> i" "tid w \<noteq> None" for j
    using w(2) that diff [OF i that(1)] below [OF that(1)] by fastforce
  have "map (inflight tm') (ws[i := w]) = (map (inflight tm) ws)[i := inflight tm' w]"
    using other(2) i by (intro nth_equalityI) (auto simp: nth_list_update)
  moreover define xs where "xs = map (inflight tm) ws"
  ultimately have p: "pending tm' (ws[i := w]) = sum_list (xs[i := inflight tm' w])" "pending tm ws = sum_list xs" by (simp_all add: pending_def)
  define M where "M = sum_list (xs[i := {#}])"
  have M: "pending tm ws = inflight tm (ws ! i) + M" "pending tm' (ws[i := w]) = inflight tm' w + M"
    using sum_list_replaced [of i xs "{#}"] sum_list_replaced [of i "xs[i := {#}]" "inflight tm' w"] i
    by (simp_all add: p M_def xs_def add.commute)
  have "epochs_tracked (tm_epochs tm') (read_epochs tm' + pending tm' (ws[i := w]))"
    using ep [of M] c by (simp add: counted_def M ac_simps)
  moreover have "thread_ok tm' (ws[i := w] ! j)" if "j < length ws" for j using other(1) [OF that] w(1) that by (cases "j = i") auto
  then have "\<forall>v \<in> set (ws[i := w]). thread_ok tm' v" by (metis in_set_conv_nth length_list_update)
  moreover have "tid (ws[i := w] ! j) \<noteq> tid (ws[i := w] ! k)"
    if "j < length ws" "k < length ws" "j \<noteq> k" "tid (ws[i := w] ! j) \<noteq> None" for j k
    using that new [of j] new [of k] diff [of j k] i by (cases "j = i"; cases "k = i") auto
  ultimately show ?thesis using tm' by (simp add: counted_def)
qed

section \<open>Every step keeps it\<close>

lemma read_epochs_map: "tm_txn_map tm' = tm_txn_map tm \<Longrightarrow> read_epochs tm' = read_epochs tm"
  by (simp add: read_epochs_def active_txns_def)

lemma countedD:
  assumes "counted n (tm, ws)" and "i < length ws"
  shows "map_ok tm" "unat (tm_next_txn_id tm) \<le> Suc n" "thread_ok tm (ws ! i)"
  using assms by (simp_all add: counted_def)

text \<open>The map and the counters stay as they are.\<close>

lemma counted_same:
  assumes c: "counted n (tm, ws)" and i: "i < length ws"
    and same: "tm_txn_map tm' = tm_txn_map tm" "tm_epochs tm' = tm_epochs tm" "tm_next_txn_id tm' = tm_next_txn_id tm"
    and w: "thread_ok tm' w" "tid w = None \<or> tid w = tid (ws ! i)" "inflight tm' w = inflight tm (ws ! i)"
  shows "counted (Suc n) (tm', ws[i := w])"
proof (rule counted_update [OF c i])
  show "map_ok tm'" "unat (tm_next_txn_id tm') \<le> Suc (Suc n)" using countedD(1,2) [OF c i] same by (simp_all add: map_ok_def)
  show "epochs_tracked (tm_epochs tm') (read_epochs tm' + inflight tm' w + M)" if "epochs_tracked (tm_epochs tm) (read_epochs tm + inflight tm (ws ! i) + M)" for M
    using that same w(3) read_epochs_map [OF same(1)] by simp
qed (use same w in auto)

lemma begin_step:
  assumes c: "counted n (tm, ws)" and i: "i < length ws" and n: "n < 2 ^ 64 - 2" and pc: "ws ! i = T_begin lev"
    and s: "tstep (ws ! i, tm) = (w, tm')"
  shows "counted (Suc n) (tm', ws[i := w])"
proof -
  let ?id = "tm_next_txn_id tm"
  have u: "unat (?id + 1) = Suc (unat ?id)" using countedD(2) [OF c i] n by (simp add: unat_word_ariths)
  then have lt: "?id < ?id + 1" by (simp add: word_less_nat_alt)
  have w: "w = T_enter (Transaction_ctor ?id lev)" and tm': "tm' = tm\<lparr>tm_next_txn_id := ?id + 1\<rparr>" using s pc by auto
  have fresh: "tm_txn_map tm ?id = None" using countedD(1) [OF c i] by (cases "tm_txn_map tm ?id") (auto simp: map_ok_def)
  show ?thesis
  proof (rule counted_update [OF c i])
    show "map_ok tm'" using countedD(1) [OF c i] lt by (auto simp: map_ok_def tm' intro: less_trans)
    show "thread_ok tm' w" using countedD(1) [OF c i] fresh lt by (simp add: w tm' unborn_def Transaction_ctor_def map_ok_def)
    show "epochs_tracked (tm_epochs tm') (read_epochs tm' + inflight tm' w + M)" if "epochs_tracked (tm_epochs tm) (read_epochs tm + inflight tm (ws ! i) + M)" for M
      using that read_epochs_map [of tm' tm] by (simp add: w tm' pc)
  qed (use u countedD(2) [OF c i] lt in \<open>auto simp: w tm' Transaction_ctor_def pc\<close>)
qed

lemma count_step:
  assumes c: "counted n (tm, ws)" and i: "i < length ws" and pc: "ws ! i = T_count t e" and s: "tstep (ws ! i, tm) = (w, tm')"
  shows "counted (Suc n) (tm', ws[i := w])"
proof -
  have w: "w = T_log (t\<lparr>tx_read_epoch := e, tx_has_manager := True\<rparr>)" and tm': "tm' = tm\<lparr>tm_epochs := count_reader e (tm_epochs tm)\<rparr>" using s pc by auto
  show ?thesis
  proof (rule counted_update [OF c i])
    show "thread_ok tm' w" using countedD(3) [OF c i] by (simp add: w tm' pc unborn_def)
    show "epochs_tracked (tm_epochs tm') (read_epochs tm' + inflight tm' w + M)" if "epochs_tracked (tm_epochs tm) (read_epochs tm + inflight tm (ws ! i) + M)" for M
      using count_reader_tracked [OF that, of e] read_epochs_map [of tm' tm] by (simp add: w tm' pc)
  qed (use countedD(1,2) [OF c i] in \<open>auto simp: w tm' pc map_ok_def\<close>)
qed

lemma emplace_step:
  assumes c: "counted n (tm, ws)" and i: "i < length ws" and pc: "ws ! i = T_emplace t" and s: "tstep (ws ! i, tm) = (w, tm')"
  shows "counted (Suc n) (tm', ws[i := w])"
proof -
  have u: "unborn tm t" "tx_has_manager t" using countedD(3) [OF c i] by (simp_all add: pc)
  then have w: "w = T_run (tx_txn_id t)" and tm': "tm' = tm\<lparr>tm_txn_map := (tm_txn_map tm)(tx_txn_id t \<mapsto> t)\<rparr>"
    using s pc by (auto simp: unborn_def)
  have r: "read_epochs tm' = add_mset (tx_read_epoch t) (read_epochs tm)"
    using u by (intro read_epochs_begin [where txn = "tx_txn_id t"]) (simp_all add: tm' unborn_def)
  show ?thesis
  proof (rule counted_update [OF c i])
    show "map_ok tm'" using countedD(1) [OF c i] u by (auto simp: map_ok_def tm' unborn_def)
    show "thread_ok tm' w" using u by (simp add: w tm' alive_def unborn_def)
    show "epochs_tracked (tm_epochs tm') (read_epochs tm' + inflight tm' w + M)" if "epochs_tracked (tm_epochs tm) (read_epochs tm + inflight tm (ws ! i) + M)" for M
      using that unfolding r by (simp add: w tm' pc)
  qed (use countedD(2) [OF c i] in \<open>auto simp: w tm' pc\<close>)
qed

lemma state_step:
  assumes c: "counted n (tm, ws)" and i: "i < length ws" and pc: "ws ! i = T_state st txn" and s: "tstep (ws ! i, tm) = (w, tm')"
  shows "counted (Suc n) (tm', ws[i := w])"
proof -
  obtain t where t: "tm_txn_map tm txn = Some t" "tx_state t = ACTIVE" and st: "st = COMMITTED \<or> st = ABORTED"
    using countedD(3) [OF c i] by (auto simp: pc alive_def)
  have w: "w = T_exit txn" and tm': "tm' = tm\<lparr>tm_txn_map := (tm_txn_map tm)(txn \<mapsto> t\<lparr>tx_state := st\<rparr>)\<rparr>" using s pc t by auto
  have r: "read_epochs tm = add_mset (tx_read_epoch t) (read_epochs tm')"
    using t st by (intro read_epochs_finish [where t' = "t\<lparr>tx_state := st\<rparr>"]) (auto simp: tm')
  show ?thesis
  proof (rule counted_update [OF c i])
    show "map_ok tm'" using countedD(1) [OF c i] t st by (auto simp: map_ok_def tm')
    show "thread_ok tm' w" using st by (auto simp: w tm')
    show "epochs_tracked (tm_epochs tm') (read_epochs tm' + inflight tm' w + M)" if "epochs_tracked (tm_epochs tm) (read_epochs tm + inflight tm (ws ! i) + M)" for M
      using that unfolding r by (simp add: w tm' pc)
  qed (use countedD(2) [OF c i] in \<open>auto simp: w tm' pc\<close>)
qed

lemma exit_step:
  assumes c: "counted n (tm, ws)" and i: "i < length ws" and pc: "ws ! i = T_exit txn" and s: "tstep (ws ! i, tm) = (w, tm')"
  shows "counted (Suc n) (tm', ws[i := w])"
proof -
  obtain t where t: "tm_txn_map tm txn = Some t" using countedD(3) [OF c i] by (auto simp: pc)
  then have "tx_has_manager t" using countedD(1) [OF c i] by (auto simp: map_ok_def)
  then have w: "w = T_idle" and tm': "tm' = tm\<lparr>tm_epochs := ExitEpoch (tx_read_epoch t) (tm_epochs tm)\<rparr>" using s pc t by auto
  show ?thesis
  proof (rule counted_update [OF c i])
    show "epochs_tracked (tm_epochs tm') (read_epochs tm' + inflight tm' w + M)" if "epochs_tracked (tm_epochs tm) (read_epochs tm + inflight tm (ws ! i) + M)" for M
      using epochs.leave_tracked [OF that, of "tx_read_epoch t"] read_epochs_map [of tm' tm] t by (simp add: w tm' pc)
  qed (use countedD(1,2) [OF c i] in \<open>auto simp: w tm' pc map_ok_def\<close>)
qed

text \<open>The remaining steps read, or change the log only.\<close>

lemma counted_step:
  assumes c: "counted n (tm, ws)" and i: "i < length ws" and n: "n < 2 ^ 64 - 2" and s: "tstep (ws ! i, tm) = (w, tm')"
  shows "counted (Suc n) (tm', ws[i := w])"
proof -
  note ok = countedD(3) [OF c i]
  show ?thesis
  proof (cases "ws ! i")
    case (T_begin lev)
    then show ?thesis by (rule begin_step [OF c i n _ s])
  next
    case (T_count t e)
    then show ?thesis by (rule count_step [OF c i _ s])
  next
    case (T_emplace t)
    then show ?thesis by (rule emplace_step [OF c i _ s])
  next
    case (T_state st txn)
    then show ?thesis by (rule state_step [OF c i _ s])
  next
    case (T_exit txn)
    then show ?thesis by (rule exit_step [OF c i _ s])
  next
    case (T_log t)
    then show ?thesis using ok s by (intro counted_same [OF c i]) (auto simp: unborn_def AppendWriteSet_def split: prod.splits)
  next
    case (T_dead e)
    then show ?thesis using ok by simp
  qed (use ok s in \<open>intro counted_same [OF c i]; auto simp: alive_def unborn_def split: option.splits prod.splits if_splits\<close>)+
qed

lemma counted_threads:
  assumes "threads (tm, ws) (tm', ws')" and c: "counted n (tm, ws)" and n: "n < 2 ^ 64 - 2"
  shows "counted (Suc n) (tm', ws')"
  using assms(1)
proof (cases rule: threads.cases)
  case (step i w)
  then show ?thesis using counted_step [OF c step(2) n step(3)] by simp
next
  case (call_begin i lev)
  then show ?thesis using counted_same [OF c call_begin(3), of tm "T_begin lev"] by simp
next
  case (call_commit i txn)
  then show ?thesis using countedD(3) [OF c call_commit(3)] counted_same [OF c call_commit(3), of tm "T_commit txn"] by simp
next
  case (call_abort i txn)
  then show ?thesis using countedD(3) [OF c call_abort(3)] counted_same [OF c call_abort(3), of tm "T_abort txn"] by simp
next
  case (leave i txn)
  then show ?thesis using counted_same [OF c leave(3), of tm T_idle] by simp
next
  case advance
  have "inflight tm' w = inflight tm w" for w by (cases w) (simp_all add: advance)
  then have "read_epochs tm' = read_epochs tm" "inflight tm' = inflight tm" "thread_ok tm' = thread_ok tm"
    using advance read_epochs_map [of tm' tm] thread_ok_other(1) [of tm _ tm'] thread_ok_other(1) [of tm' _ tm] by (auto simp: fun_eq_iff)
  then show ?thesis using c advance epochs_tracked_advance by (simp add: counted_def map_ok_def pending_def)
qed

lemma counted_run:
  assumes "(threads ^^ n) (TransactionManager_ctor lm, replicate k T_idle) c" and "n < 2 ^ 64 - 1"
  shows "counted n c"
  using assms
proof (induction n arbitrary: c)
  case 0
  have "pending tm (replicate k T_idle) = {#}" for tm by (induction k) (simp_all add: pending_def)
  then show ?case using 0 tm_inv_ctor [of lm] by (auto simp: counted_def tm_inv_def map_ok_def TransactionManager_ctor_def)
next
  case (Suc n)
  obtain d where d: "(threads ^^ n) (TransactionManager_ctor lm, replicate k T_idle) d" "threads d c" using Suc.prems(1) by auto
  then show ?case using Suc.IH [OF d(1)] counted_threads [of "fst d" "snd d" "fst c" "snd c" n] Suc.prems(2) by simp
qed

lemma pending_none:
  assumes "\<forall>w \<in> set ws. w = T_idle \<or> (\<exists>txn. w = T_run txn)"
  shows "pending tm ws = {#}"
  using assms by (induction ws) (auto simp: pending_def)

section \<open>Property\<close>

text \<open>(C21) Any number of threads begin, commit and abort transactions, abandon some, and their steps interleave in any order while the epoch
  advances.  In every state: no thread runs into undefined behaviour; each epoch counter is the number of its readers, that is of
  the active transactions and of those whose \<open>Begin\<close> has counted them already or whose \<open>Commit\<close> or \<open>Abort\<close> has not
  taken them out yet; and when no call is under way the manager satisfies the invariant it has when calls are atomic.\<close>

theorem counters_exact_in_every_interleaving:
  assumes "(threads ^^ n) (TransactionManager_ctor lm, replicate k T_idle) (tm, ws)" and "n < 2 ^ 64 - 1"
  shows "(\<forall>w \<in> set ws. \<forall>e. w \<noteq> T_dead e)
    \<and> (\<forall>i < MAX_EPOCHS. em_active_epochs (tm_epochs tm) ! i = of_nat (slot_readers (read_epochs tm + pending tm ws) i))
    \<and> ((\<forall>w \<in> set ws. w = T_idle \<or> (\<exists>txn. w = T_run txn)) \<longrightarrow> tm_inv tm)"
proof -
  have c: "counted n (tm, ws)" by (rule counted_run [OF assms])
  then have "thread_ok tm w" if "w \<in> set ws" for w using that by (simp add: counted_def)
  then have "\<forall>w \<in> set ws. \<forall>e. w \<noteq> T_dead e" by fastforce
  moreover have "tm_inv tm" if "\<forall>w \<in> set ws. w = T_idle \<or> (\<exists>txn. w = T_run txn)"
    using c pending_none [OF that, of tm] by (simp add: counted_def tm_inv_def map_ok_def)
  ultimately show ?thesis using c by (simp add: counted_def epochs_tracked_def)
qed

text \<open>Two threads: the second begins its call while the first is inside \<open>Begin\<close>.\<close>

theorem counters_exact_in_every_interleaving_witness:
  "\<exists>tm ws. (threads ^^ 4) (TransactionManager_ctor LogManager_ctor, replicate 2 T_idle) (tm, ws)
     \<and> ws = [T_enter (Transaction_ctor 1 SERIALIZABLE), T_enter (Transaction_ctor 2 SERIALIZABLE)] \<and> tm_next_txn_id tm = 3
     \<and> em_active_epochs (tm_epochs tm) ! 1 = of_nat (slot_readers (read_epochs tm + pending tm ws) 1)"
proof -
  let ?tm = "TransactionManager_ctor LogManager_ctor" and ?e = "\<lambda>n. T_enter (Transaction_ctor n SERIALIZABLE)"
  have 1: "threads (?tm, replicate 2 T_idle) (?tm, [T_begin SERIALIZABLE, T_idle])"
    using threads.call_begin [of 0 "replicate 2 T_idle" ?tm SERIALIZABLE] by (simp add: numeral_2_eq_2)
  have 2: "threads (?tm, [T_begin SERIALIZABLE, T_idle]) (?tm, [T_begin SERIALIZABLE, T_begin SERIALIZABLE])"
    using threads.call_begin [of 1 "[T_begin SERIALIZABLE, T_idle]" ?tm SERIALIZABLE] by simp
  have 3: "threads (?tm, [T_begin SERIALIZABLE, T_begin SERIALIZABLE]) (?tm\<lparr>tm_next_txn_id := 2\<rparr>, [?e 1, T_begin SERIALIZABLE])"
    using threads.step [of 0 "[T_begin SERIALIZABLE, T_begin SERIALIZABLE]" ?tm "?e 1" "?tm\<lparr>tm_next_txn_id := 2\<rparr>"] by (simp add: TransactionManager_ctor_def)
  have 4: "threads (?tm\<lparr>tm_next_txn_id := 2\<rparr>, [?e 1, T_begin SERIALIZABLE]) (?tm\<lparr>tm_next_txn_id := 3\<rparr>, [?e 1, ?e 2])"
    using threads.step [of 1 "[?e 1, T_begin SERIALIZABLE]" "?tm\<lparr>tm_next_txn_id := 2\<rparr>" "?e 2" "?tm\<lparr>tm_next_txn_id := 3\<rparr>"]
    by (simp add: TransactionManager_ctor_def)
  have run: "(threads ^^ 4) (?tm, replicate 2 T_idle) (?tm\<lparr>tm_next_txn_id := 3\<rparr>, [?e 1, ?e 2])" using 1 2 3 4 by (auto simp: numeral_eq_Suc)
  then show ?thesis using counters_exact_in_every_interleaving [OF run] by (auto simp: MAX_EPOCHS_def)
qed

end
