(* ===== verification/Shutdown.thy ===== *)
theory Shutdown
  imports Insert_Race Reactor
begin

text \<open>
  The destructors of the buffer pool and the disk manager, and what a restarted server finds.

  Whether a shutdown loses data depends on when the kernel carries out a write: \<open>FlushAllPages\<close> polls the
  completion queue once and the destructor then frees the buffers.  The locale \<open>prompt_device\<close> describes a device
  that has carried out a write when \<open>io_uring_submit\<close> returns (as the kernel does for buffered files it can write
  without blocking); on such a device a shutdown is shown to be complete.  The simulated device \<open>prompt_os\<close> is one.
\<close>

section \<open>The destructors\<close>

text \<open>A destructor that an exception leaves ends the process (\<open>std::terminate\<close>).\<close>

datatype 'd ending = Released 'd | Std_terminate | Never_returns

definition BufferPoolManager_dtor :: "'d os \<Rightarrow> pageid list \<Rightarrow> 'd bpm \<Rightarrow> 'd disk ending" where
  "BufferPoolManager_dtor os order s =
     (case FlushAllPages os order s of
        (Inr u, s1) \<Rightarrow> Released (bp_disk s1)
      | (Inl Nonterminating, s1) \<Rightarrow> Never_returns
      | (Inl e, s1) \<Rightarrow> Std_terminate)"

text \<open>\<open>io_uring_queue_exit\<close> and \<open>close\<close> are the two functions given.\<close>

definition DiskManager_dtor :: "('d \<Rightarrow> 'd) \<Rightarrow> ('d \<Rightarrow> int \<Rightarrow> 'd) \<Rightarrow> 'd disk \<Rightarrow> 'd" where
  "DiskManager_dtor queue_exit close_fd dm = close_fd (queue_exit (dm_ring dm)) (dm_fd dm)"

section \<open>A device that writes at once\<close>

text \<open>While the pages are flushed: clean pages equal their blocks.\<close>

definition flushing :: "('d \<Rightarrow> bool) \<Rightarrow> int \<Rightarrow> ('d \<Rightarrow> pageid \<Rightarrow> bytes) \<Rightarrow> 'd bpm \<Rightarrow> bool" where
  "flushing usable fd blocks s \<longleftrightarrow> pool_safe s \<and> usable (dm_ring (bp_disk s)) \<and> dm_fd (bp_disk s) = fd
     \<and> (\<forall>pid f. bp_page_table s pid = Some f \<longrightarrow> \<not> p_is_dirty (bp_pages s ! f) \<longrightarrow>
          p_data (bp_pages s ! f) = blocks (dm_ring (bp_disk s)) pid)"

lemma flushing_written:
  assumes fl: "flushing usable fd blocks s" and f: "bp_page_table s pid = Some f" and safe: "pool_safe s'"
    and s': "s' = (upd_page f (SetDirty False) s)\<lparr>bp_disk := (bp_disk s)\<lparr>dm_ring := d\<rparr>\<rparr>"
    and d: "usable d" "blocks d = (blocks (dm_ring (bp_disk s)))(pid := p_data (bp_pages s ! f))"
  shows "flushing usable fd blocks s'" "contents blocks s' = contents blocks s"
    "bp_page_table s q = Some g \<Longrightarrow> q = pid \<or> \<not> p_is_dirty (bp_pages s ! g) \<Longrightarrow> \<not> p_is_dirty (bp_pages s' ! g)"
proof -
  have sf: "pool_safe s" and fd: "dm_fd (bp_disk s) = fd"
    and clean: "\<And>q g. bp_page_table s q = Some g \<Longrightarrow> \<not> p_is_dirty (bp_pages s ! g) \<Longrightarrow> p_data (bp_pages s ! g) = blocks (dm_ring (bp_disk s)) q"
    using fl by (simp_all add: flushing_def)
  have len: "f < length (bp_pages s)" using pool_safeD(1,8) [OF sf] f by auto
  have pages: "p_data (bp_pages s' ! g) = p_data (bp_pages s ! g)"
      "p_is_dirty (bp_pages s' ! g) = (g \<noteq> f \<and> p_is_dirty (bp_pages s ! g))" for g
    by (simp_all add: s' nth_upd_page len SetDirty_def)
  have tab: "bp_page_table s' = bp_page_table s" and disk: "bp_disk s' = (bp_disk s)\<lparr>dm_ring := d\<rparr>" by (simp_all add: s')
  have own: "g = f \<longleftrightarrow> q = pid" if "bp_page_table s q = Some g" for q g
    using pool_safeD(9) [OF sf that] pool_safeD(9) [OF sf f] that f by (metis option.inject)
  have "p_data (bp_pages s' ! g) = blocks d q" if "bp_page_table s q = Some g" "\<not> p_is_dirty (bp_pages s' ! g)" for q g
    using that clean [OF that(1)] own [OF that(1)] by (auto simp: pages d(2))
  then show "flushing usable fd blocks s'" using safe d(1) fd by (simp add: flushing_def tab disk)
  show "contents blocks s' = contents blocks s"
    using f by (auto simp: contents_def tab disk pages d(2) fun_eq_iff split: option.splits)
  show "\<not> p_is_dirty (bp_pages s' ! g)" if "bp_page_table s q = Some g" "q = pid \<or> \<not> p_is_dirty (bp_pages s ! g)"
    using that own [OF that(1)] by (auto simp: pages)
qed

locale prompt_device = reliable_device os fd blocks phase wait
  for os :: "'d os" and fd :: int and blocks :: "'d \<Rightarrow> pageid \<Rightarrow> bytes" and phase :: "'d \<Rightarrow> io_phase" and wait :: "'d \<Rightarrow> nat" +
  fixes usable :: "'d \<Rightarrow> bool"
    and unreaped :: "'d \<Rightarrow> nat"
  assumes idle_usable: "phase d = Idle \<Longrightarrow> usable d"
    and sqe_usable: "usable d \<Longrightarrow> \<exists>d'. os_get_sqe os m d = (True, d') \<and> usable d' \<and> blocks d' = blocks d"
    and submit_now: "usable d \<Longrightarrow> length (m f) = PAGE_SIZE \<Longrightarrow>
      d' = os_submit_write os m d fd f PAGE_SIZE (page_offset pid) (ucast pid) \<Longrightarrow>
      usable d' \<and> blocks d' = (blocks d)(pid := m f)"
    and peek_more: "usable d \<Longrightarrow> os_peek_cqe os m d = (Some res, d') \<Longrightarrow>
      usable (os_cq_advance os m d') \<and> blocks (os_cq_advance os m d') = blocks d \<and> unreaped (os_cq_advance os m d') < unreaped d"
    and peek_empty: "usable d \<Longrightarrow> os_peek_cqe os m d = (None, d') \<Longrightarrow> phase d' = Idle \<and> blocks d' = blocks d"
begin

lemma reap_usable:
  "usable d \<Longrightarrow> \<exists>k d'. reap_loop os m n d = Some (k, d') \<and> phase d' = Idle \<and> blocks d' = blocks d"
proof (induction "unreaped d" arbitrary: d n rule: less_induct)
  case less
  obtain r d1 where p: "os_peek_cqe os m d = (r, d1)" by fastforce
  show ?case
  proof (cases r)
    case None
    then show ?thesis using p peek_empty [OF less.prems] by (subst reap_loop.simps) auto
  next
    case (Some res)
    note M = peek_more [OF less.prems p [unfolded Some]]
    then obtain k d' where "reap_loop os m (n + 1) (os_cq_advance os m d1) = Some (k, d')" "phase d' = Idle" "blocks d' = blocks d"
      using less.hyps [of "os_cq_advance os m d1" "n + 1"] by auto
    then show ?thesis using p Some by (subst reap_loop.simps) auto
  qed
qed

lemma write_now:
  assumes "usable (dm_ring dm)" and "dm_fd dm = fd" and "length (m f) = PAGE_SIZE"
  shows "\<exists>d'. WritePageAsync os m pid f dm = (Inr (), dm\<lparr>dm_ring := d'\<rparr>) \<and> usable d' \<and> blocks d' = (blocks (dm_ring dm))(pid := m f)"
proof -
  obtain d1 where d1: "os_get_sqe os m (dm_ring dm) = (True, d1)" "usable d1" "blocks d1 = blocks (dm_ring dm)"
    using sqe_usable [OF assms(1)] by blast
  then show ?thesis using submit_now [where m = m and f = f and pid = pid, OF d1(2) assms(3) refl] assms(2) by (auto simp: WritePageAsync_def)
qed

lemma flush_page_now:
  assumes fl: "flushing usable fd blocks s"
  shows "\<exists>b s'. FlushPage os pid s = (Inr b, s') \<and> flushing usable fd blocks s' \<and> bp_page_table s' = bp_page_table s
    \<and> contents blocks s' = contents blocks s
    \<and> (\<forall>q f. bp_page_table s q = Some f \<longrightarrow> q = pid \<or> \<not> p_is_dirty (bp_pages s ! f) \<longrightarrow> \<not> p_is_dirty (bp_pages s' ! f))"
proof (cases "\<exists>f. bp_page_table s pid = Some f \<and> p_is_dirty (bp_pages s ! f)")
  case False
  then show ?thesis using fl by (cases "bp_page_table s pid") (auto simp: FlushPage_def)
next
  case True
  then obtain f where f: "bp_page_table s pid = Some f" "p_is_dirty (bp_pages s ! f)" by blast
  have safe: "pool_safe s" and dev: "usable (dm_ring (bp_disk s))" "dm_fd (bp_disk s) = fd"
    using fl by (simp_all add: flushing_def)
  have len: "f < bp_pool_size s" "f < length (bp_pages s)" and wf: "page_wf (bp_pages s ! f)"
    using pool_safeD(1,2,8) [OF safe] f(1) by auto
  obtain d where d: "WritePageAsync os (frame_buffers s) pid f (bp_disk s) = (Inr (), (bp_disk s)\<lparr>dm_ring := d\<rparr>)" "usable d"
      "blocks d = (blocks (dm_ring (bp_disk s)))(pid := p_data (bp_pages s ! f))"
    using write_now [OF dev, of "frame_buffers s" f pid] wf by (auto simp: frame_buffers_def page_wf_def)
  let ?s = "(upd_page f (SetDirty False) s)\<lparr>bp_disk := (bp_disk s)\<lparr>dm_ring := d\<rparr>\<rparr>"
  have call: "FlushPage os pid s = (Inr True, ?s)" using f d(1) by (simp add: FlushPage_def)
  note W = flushing_written [where usable = usable and blocks = blocks, OF fl f(1) FlushPage_inv(1) [OF safe call] refl d(2,3)]
  show ?thesis using call W by (intro exI [of _ True] exI [of _ ?s]) simp
qed

lemma flush_loop_now:
  assumes "flushing usable fd blocks s"
  shows "\<exists>s'. flush_loop os order s = (Inr (), s') \<and> flushing usable fd blocks s' \<and> bp_page_table s' = bp_page_table s
    \<and> contents blocks s' = contents blocks s
    \<and> (\<forall>q f. bp_page_table s q = Some f \<longrightarrow> q \<in> set order \<or> \<not> p_is_dirty (bp_pages s ! f) \<longrightarrow> \<not> p_is_dirty (bp_pages s' ! f))"
  using assms
proof (induction order arbitrary: s)
  case (Cons pid order)
  obtain b s1 where 1: "FlushPage os pid s = (Inr b, s1)" "flushing usable fd blocks s1" "bp_page_table s1 = bp_page_table s" "contents blocks s1 = contents blocks s"
      "\<forall>q f. bp_page_table s q = Some f \<longrightarrow> q = pid \<or> \<not> p_is_dirty (bp_pages s ! f) \<longrightarrow> \<not> p_is_dirty (bp_pages s1 ! f)"
    using flush_page_now [OF Cons.prems] by blast
  obtain s2 where 2: "flush_loop os order s1 = (Inr (), s2)" "flushing usable fd blocks s2" "bp_page_table s2 = bp_page_table s1" "contents blocks s2 = contents blocks s1"
      "\<forall>q f. bp_page_table s1 q = Some f \<longrightarrow> q \<in> set order \<or> \<not> p_is_dirty (bp_pages s1 ! f) \<longrightarrow> \<not> p_is_dirty (bp_pages s2 ! f)"
    using Cons.IH [OF 1(2)] by blast
  then show ?case using 1 by auto
qed simp

lemma flush_all_now:
  assumes c: "flushing usable fd blocks s" and order: "set order = dom (bp_page_table s)"
  shows "\<exists>s'. FlushAllPages os order s = (Inr (), s') \<and> phase (dm_ring (bp_disk s')) = Idle \<and> dm_fd (bp_disk s') = fd
    \<and> blocks (dm_ring (bp_disk s')) = contents blocks s"
proof -
  obtain s1 where 1: "flush_loop os order s = (Inr (), s1)" "flushing usable fd blocks s1" "bp_page_table s1 = bp_page_table s" "contents blocks s1 = contents blocks s"
      "\<forall>q f. bp_page_table s q = Some f \<longrightarrow> \<not> p_is_dirty (bp_pages s1 ! f)"
    using flush_loop_now [OF c, of order] order by (metis domI)
  have "contents blocks s1 pid = blocks (dm_ring (bp_disk s1)) pid" for pid
    using 1(2,3,5) by (auto simp: contents_def flushing_def split: option.splits)
  then have b: "blocks (dm_ring (bp_disk s1)) = contents blocks s" using 1(4) by auto
  obtain k d where d: "reap_loop os (frame_buffers s1) 0 (dm_ring (bp_disk s1)) = Some (k, d)" "phase d = Idle"
      "blocks d = blocks (dm_ring (bp_disk s1))"
    using reap_usable [where m = "frame_buffers s1" and n = 0 and d = "dm_ring (bp_disk s1)"] 1(2) by (auto simp: flushing_def)
  have "drain_loop os (frame_buffers s1) (bp_disk s1) = Some ((bp_disk s1)\<lparr>dm_ring := d\<rparr>)"
    using d(1) by (subst drain_loop.simps) (simp add: RetrieveAsyncCompletions_def)
  then show ?thesis using 1(1,2) b d(2,3) by (simp add: FlushAllPages_def flushing_def)
qed

lemma coherent_flushing: "coherent fd blocks phase {} s \<Longrightarrow> flushing usable fd blocks s"
  using idle_usable by (auto simp: coherent_def flushing_def)

end

section \<open>A simulated device that writes at once\<close>

text \<open>\<open>sd_queue\<close> holds the writes that are done and not yet reaped.\<close>

definition prompt_os :: "simdev os" where
  "prompt_os = sim_os\<lparr>
     os_get_sqe := (\<lambda>m d. (True, d)),
     os_submit_write := (\<lambda>m d fd f n off u.
        d\<lparr>sd_blocks := (sd_blocks d)(off := take n (m f)), sd_queue := sd_queue d @ [(f, off, ucast u, m f)]\<rparr>),
     os_peek_cqe := (\<lambda>m d. (if sd_queue d = [] then None else Some (int PAGE_SIZE), d)),
     os_cq_advance := (\<lambda>m d. d\<lparr>sd_queue := tl (sd_queue d)\<rparr>)\<rparr>"

fun prompt_phase :: "simdev \<Rightarrow> io_phase" where
  "prompt_phase d =
     (case sd_queue d of
        [] \<Rightarrow> Idle
      | [(f, off, pid, bs)] \<Rightarrow>
          if off = page_offset pid \<and> (length bs = PAGE_SIZE \<longrightarrow> sim_blocks d pid = bs) then Writing pid f bs else Crowded
      | _ \<Rightarrow> Crowded)"

lemma prompt_os_sel [simp]:
  "os_pread prompt_os m d fd n off = (Some (take n (sd_blocks d off)), d)" "os_get_sqe prompt_os m d = (True, d)"
  "os_submit_write prompt_os m d fd f n off u =
     d\<lparr>sd_blocks := (sd_blocks d)(off := take n (m f)), sd_queue := sd_queue d @ [(f, off, ucast u, m f)]\<rparr>"
  "os_peek_cqe prompt_os m d = (if sd_queue d = [] then None else Some (int PAGE_SIZE), d)"
  "os_cq_advance prompt_os m d = d\<lparr>sd_queue := tl (sd_queue d)\<rparr>"
  by (simp_all add: prompt_os_def sim_os_def)

lemma sim_blocks_written:
  "sim_blocks (d\<lparr>sd_blocks := (sd_blocks d)(page_offset pid := bs)\<rparr>) p =
     (if p = pid then take PAGE_SIZE bs @ replicate (PAGE_SIZE - length bs) 0 else sim_blocks d p)"
  by (auto simp: sim_blocks_def Let_def page_offset_inject)

lemma sim_blocks_queue [simp]: "sim_blocks (d\<lparr>sd_queue := q\<rparr>) = sim_blocks d"
  by (simp add: sim_blocks_def fun_eq_iff)

lemma prompt_phase_Idle: "prompt_phase d = Idle \<longleftrightarrow> sd_queue d = []"
  by (auto split: list.splits if_splits)

lemma prompt_phase_Writing:
  "prompt_phase d = Writing pid f bs \<Longrightarrow> sd_queue d = [(f, page_offset pid, pid, bs)] \<and> (length bs = PAGE_SIZE \<longrightarrow> sim_blocks d pid = bs)"
  by (auto split: list.splits if_splits)

interpretation prompt: prompt_device prompt_os fd sim_blocks prompt_phase "\<lambda>_. 0" "\<lambda>_. True" "\<lambda>d. length (sd_queue d)" for fd :: int
proof
  fix d m pid r d' f bs res
  show "prompt_phase d' = Idle \<and> sim_blocks d' = sim_blocks d \<and>
      (\<forall>bs. r = Some bs \<longrightarrow> length bs \<le> PAGE_SIZE \<and> bs @ replicate (PAGE_SIZE - length bs) 0 = sim_blocks d pid)"
    if "prompt_phase d = Idle" "os_pread prompt_os m d fd PAGE_SIZE (page_offset pid) = (r, d')"
    using that by (auto simp: sim_blocks_def Let_def simp del: prompt_phase.simps)
  show "prompt_phase d' = Writing pid f (m f) \<and> (\<forall>q. q \<noteq> pid \<longrightarrow> sim_blocks d' q = sim_blocks d q)"
    if "prompt_phase d = Idle" "d' = os_submit_write prompt_os m d fd f PAGE_SIZE (page_offset pid) (ucast pid)"
    using that by (simp add: prompt_phase_Idle sim_blocks_written del: prompt_phase.simps) (auto simp: sim_blocks_written)
  show "prompt_phase (os_cq_advance prompt_os m d') = Idle \<and> sim_blocks (os_cq_advance prompt_os m d') = (sim_blocks d)(pid := bs)"
    if "prompt_phase d = Writing pid f bs" "m f = bs" "os_peek_cqe prompt_os m d = (Some res, d')" "length bs = PAGE_SIZE" "0 \<le> res"
    using that prompt_phase_Writing [OF that(1)] by (auto simp: prompt_phase_Idle simp del: prompt_phase.simps split: if_splits)
  show "True \<and> sim_blocks d' = (sim_blocks d)(pid := m f)"
    if "length (m f) = PAGE_SIZE" "d' = os_submit_write prompt_os m d fd f PAGE_SIZE (page_offset pid) (ucast pid)"
    using that by (auto simp: sim_blocks_written)
qed (use prompt_phase_Writing in \<open>auto simp: prompt_phase_Idle simp del: prompt_phase.simps split: if_splits\<close>)

lemma contents_ctor: "contents blocks (BufferPoolManager_ctor n dm) = blocks (dm_ring dm)"
  by (simp add: fun_eq_iff contents_def BufferPoolManager_ctor_def)

lemma flushed_contents:
  assumes "prompt_device os fd blocks phase wait usable unreaped" and "flushing usable fd blocks s"
    and "set order = dom (bp_page_table s)"
  shows "\<exists>dm. BufferPoolManager_dtor os order s = Released dm \<and> blocks (dm_ring dm) = contents blocks s
    \<and> phase (dm_ring dm) = Idle \<and> dm_fd dm = fd"
  using prompt_device.flush_all_now [OF assms] by (auto simp: BufferPoolManager_dtor_def)

lemma shutdown_contents:
  assumes "prompt_device os fd blocks phase wait usable unreaped" and "coherent fd blocks phase {} s"
    and "set order = dom (bp_page_table s)"
  shows "\<exists>dm. BufferPoolManager_dtor os order s = Released dm \<and> blocks (dm_ring dm) = contents blocks s
    \<and> phase (dm_ring dm) = Idle \<and> dm_fd dm = fd"
  using flushed_contents [OF assms(1) prompt_device.coherent_flushing [OF assms(1,2)] assms(3)] .

section \<open>Restarting the server\<close>

context reliable_device
begin

lemma session_state:
  assumes "server_state fd blocks phase t n inst" and "n + length qs < 2 ^ 64"
  shows "\<exists>inst'. session os ndebug qs inst = (map Inr (spec_session qs t n), inst')
    \<and> (case spec_after qs t n of (t', n') \<Rightarrow> server_state fd blocks phase t' n' inst')"
  using assms
proof (induction qs arbitrary: t n inst)
  case (Cons q qs)
  obtain a t' n' where a: "spec_answer (classify q) t n = (a, t', n')" by (cases "spec_answer (classify q) t n")
  obtain inst' where h: "handle_query os ndebug q inst = (Inr a, inst')" "server_state fd blocks phase t' n' inst'"
    using handle_query_ok [OF Cons.prems(1) _ a, of ndebug] Cons.prems(2) by auto
  have "k < 2 ^ 64" if "t = Some k" for k using server_state_rows [of fd blocks phase k n inst] that Cons.prems(1) by simp
  then have "DoWriteAnswer a = a" using spec_answer_short [OF a] Cons.prems(2) by simp
  moreover have "n' \<le> Suc n" using a by (cases "(classify q, t, n)" rule: spec_answer.cases) auto
  ultimately show ?case using Cons.IH [OF h(2)] Cons.prems(2) h(1) a by (auto simp: serve_def)
qed simp

text \<open>A server with rows keeps them on page 0.\<close>

lemma filled_server:
  assumes st: "server_state fd blocks phase None 1 inst0" and o: "one_page m inst0" and k: "0 < k" "k < 2 ^ 64 - 3"
    and run: "session os ndebug (''CREATE TABLE'' # replicate k ''INSERT'') inst0 = (as, inst)"
  shows "quiet fd blocks phase (in_bpm inst)" "rows_page (min 31 k) (contents blocks (in_bpm inst) 0)"
proof -
  have c: "classify ''CREATE TABLE'' = R_create" "classify ''INSERT'' = R_insert" by (simp_all add: classify_def has_prefix_def)
  have "spec_after (replicate k ''INSERT'') (Some j) n = (Some (min 31 (j + k)), n + k)" if "j \<le> 31" for j n k
    using that by (induction k arbitrary: j n) (simp_all add: c min_def)
  then have a: "spec_after (''CREATE TABLE'' # replicate k ''INSERT'') None 1 = (Some (min 31 k), 1 + k)" by (simp add: c)
  have db: "users_db fd blocks phase (min 31 k) (1 + k) inst"
    using session_state [OF st, of "''CREATE TABLE'' # replicate k ''INSERT''" ndebug] run a k by auto
  then show "quiet fd blocks phase (in_bpm inst)" by (simp add: users_db_def)
  have o': "one_page m inst" by (rule zero.session_keeps [OF o run])
  obtain ti where ti: "cat_dir (in_catalog inst) ''users'' = Some ti" using db by (auto simp: users_db_def)
  have "ti_id ti = 0" using one_page_users [OF o' _ ti] db by (simp add: users_db_def)
  then have t: "cat_tables (in_catalog inst) 0 = Some ti"
    using db ti by (auto simp: users_db_def cat_dir_def cat_inv_def bind_eq_Some_conv)
  have r: "ti_first_page_id ti \<noteq> INVALID_PAGE_ID" "rows_page (min 31 k) (contents blocks (in_bpm inst) (ti_first_page_id ti))"
    using db ti k(1) by (auto simp: users_db_def split: if_splits)
  then have "ti_first_page_id ti = 0" using o' t by (auto simp: one_page_def page_zero_def)
  then show "rows_page (min 31 k) (contents blocks (in_bpm inst) 0)" using r(2) by simp
qed

end

section \<open>Properties\<close>

text \<open>(C10) On a device that carries out writes when they are submitted, the destructor of the pool returns and the file
  then holds what every page held, also pages changed and never written before; a pool opened on the file
  afterwards has the same contents.\<close>

theorem shutdown_is_durable:
  assumes "prompt_device os fd blocks phase wait usable unreaped" and "coherent fd blocks phase {} s"
    and "set order = dom (bp_page_table s)"
  shows "\<exists>dm. BufferPoolManager_dtor os order s = Released dm \<and> blocks (dm_ring dm) = contents blocks s
    \<and> contents blocks (BufferPoolManager_ctor n dm) = contents blocks s \<and> coherent fd blocks phase {} (BufferPoolManager_ctor n dm)"
proof -
  obtain dm where dm: "BufferPoolManager_dtor os order s = Released dm" "blocks (dm_ring dm) = contents blocks s"
      "phase (dm_ring dm) = Idle" "dm_fd dm = fd"
    using shutdown_contents [OF assms] by blast
  then show ?thesis using contents_ctor [of blocks n dm] coherent_ctor [of phase, OF dm(3,4)] by simp
qed

text \<open>A server on the prompt simulated device, with one row.\<close>

definition small_disk :: "simdev disk" where
  "small_disk = \<lparr>dm_file_name = ''sting.db'', dm_fd = 3, dm_next_page_id = 0, dm_ring = fresh_device\<rparr>"

lemma small_server:
  assumes "session prompt_os False (''CREATE TABLE'' # replicate k ''INSERT'') (StingInstance_ctor (BufferPoolManager_ctor 1 small_disk)) = (as, inst)"
    and "0 < k" "k < 2 ^ 64 - 3"
  shows "coherent 3 sim_blocks prompt_phase {} (in_bpm inst)" "rows_page (min 31 k) (contents sim_blocks (in_bpm inst) 0)"
    "\<exists>order. set order = dom (bp_page_table (in_bpm inst))"
proof -
  have d: "prompt_phase (dm_ring small_disk) = Idle" "dm_fd small_disk = 3" "dm_next_page_id small_disk = 0"
    by (simp_all add: small_disk_def fresh_device_def)
  have st: "server_state 3 sim_blocks prompt_phase None 1 (StingInstance_ctor (BufferPoolManager_ctor 1 small_disk))"
    using fresh_server_state [of prompt_phase small_disk 3 1] d by (simp add: INVALID_PAGE_ID_def)
  have o: "one_page 1 (StingInstance_ctor (BufferPoolManager_ctor 1 small_disk))" using one_page_ctor [OF d(3)] .
  note F = prompt.filled_server [OF st o assms(2,3,1)]
  show "coherent 3 sim_blocks prompt_phase {} (in_bpm inst)" "rows_page (min 31 k) (contents sim_blocks (in_bpm inst) 0)"
    using F by (simp_all add: quiet_def)
  have "one_page 1 inst" by (rule zero.session_keeps [OF o assms(1)])
  then have "dom (bp_page_table (in_bpm inst)) \<subseteq> {0}" by (auto simp: one_page_def page_zero_def)
  then show "\<exists>order. set order = dom (bp_page_table (in_bpm inst))" by (metis finite.emptyI finite.insertI finite_list finite_subset)
qed

theorem shutdown_is_durable_witness:
  "\<exists>as inst order dm. session prompt_os False [''CREATE TABLE'', ''INSERT''] (StingInstance_ctor (BufferPoolManager_ctor 1 small_disk)) = (as, inst)
    \<and> BufferPoolManager_dtor prompt_os order (in_bpm inst) = Released dm \<and> rows_page 1 (sim_blocks (dm_ring dm) 0)"
proof -
  obtain as inst where r: "session prompt_os False (''CREATE TABLE'' # replicate 1 ''INSERT'') (StingInstance_ctor (BufferPoolManager_ctor 1 small_disk)) = (as, inst)"
    by fastforce
  note S = small_server [OF r]
  obtain order where "set order = dom (bp_page_table (in_bpm inst))" using S(3) by auto
  from shutdown_is_durable [OF prompt.prompt_device_axioms S(1) this, of 1] S(2) obtain dm where
    "BufferPoolManager_dtor prompt_os order (in_bpm inst) = Released dm" "rows_page 1 (sim_blocks (dm_ring dm) 0)" by auto
  then show ?thesis using r by (auto simp del: session.simps)
qed

text \<open>(C28) The rows survive a restart, the table does not.  Even when every committed row was written to page 0 of the file,
  a restarted server answers \<open>SELECT\<close> with an error (the catalog is only in memory); and as page numbers start at 0 again,
  creating the table anew and inserting one row puts that row where the old ones were.\<close>

theorem restart_forgets_rows:
  assumes dev: "prompt_device os fd blocks phase wait usable unreaped" and dm: "phase (dm_ring dm) = Idle" "dm_fd dm = fd" "dm_next_page_id dm = 0"
    and k: "0 < m" "0 < k" "k < 2 ^ 64 - 3"
    and run: "session os ndebug (''CREATE TABLE'' # replicate k ''INSERT'') (StingInstance_ctor (BufferPoolManager_ctor m dm)) = (as, inst)"
    and stop: "set order = dom (bp_page_table (in_bpm inst))" "BufferPoolManager_dtor os order (in_bpm inst) = Released dm1"
    and reopen: "DiskManager_ctor os name (DiskManager_dtor queue_exit close_fd dm1) = (Inr dm2, d2)"
      "dm_fd dm2 = fd" "phase (dm_ring dm2) = Idle" "blocks (dm_ring dm2) = blocks (dm_ring dm1)"
  shows "rows_page (min 31 k) (blocks (dm_ring dm2) 0)
    \<and> fst (session os ndebug [''SELECT''] (StingInstance_ctor (BufferPoolManager_ctor m dm2))) = [Inr (''Error: Table not found: users'' @ newline)]
    \<and> rows_page 1 (contents blocks (in_bpm (snd (session os ndebug [''CREATE TABLE'', ''INSERT''] (StingInstance_ctor (BufferPoolManager_ctor m dm2))))) 0)"
proof -
  have rel: "reliable_device os fd blocks phase wait" using dev by (rule prompt_device.axioms(1))
  have fresh: "server_state fd blocks phase None 1 (StingInstance_ctor (BufferPoolManager_ctor m x))"
      "one_page m (StingInstance_ctor (BufferPoolManager_ctor m x))"
    if "phase (dm_ring x) = Idle" "dm_fd x = fd" "dm_next_page_id x = 0" for x
    using fresh_server_state [of phase x fd m blocks] one_page_ctor [of x m] that k(1) by (simp_all add: INVALID_PAGE_ID_def)
  note F = reliable_device.filled_server [OF rel fresh [OF dm] k(2,3) run]
  obtain dm' where "BufferPoolManager_dtor os order (in_bpm inst) = Released dm'" "blocks (dm_ring dm') = contents blocks (in_bpm inst)"
    using shutdown_contents [OF dev _ stop(1)] F(1) by (auto simp: quiet_def)
  then have rows: "rows_page (min 31 k) (blocks (dm_ring dm2) 0)" using stop(2) reopen(4) F(2) by simp
  have zero: "dm_next_page_id dm2 = 0" using reopen(1) by (auto simp: DiskManager_ctor_def Let_def split: prod.splits if_splits)
  note fresh2 = fresh [OF reopen(3,2) zero]
  have "fst (session os ndebug [''SELECT''] (StingInstance_ctor (BufferPoolManager_ctor m dm2))) = map Inr (spec_session [''SELECT''] None 1)"
    by (rule reliable_device.session_ok [OF rel fresh2(1)]) simp
  then have "fst (session os ndebug [''SELECT''] (StingInstance_ctor (BufferPoolManager_ctor m dm2))) = [Inr (''Error: Table not found: users'' @ newline)]"
    by (simp add: classify_def has_prefix_def del: session.simps)
  moreover obtain bs inst2 where r: "session os ndebug [''CREATE TABLE'', ''INSERT''] (StingInstance_ctor (BufferPoolManager_ctor m dm2)) = (bs, inst2)"
    by fastforce
  have "rows_page 1 (contents blocks (in_bpm inst2) 0)"
    using reliable_device.filled_server(2) [OF rel fresh2, of 1 ndebug] r by (simp del: session.simps)
  ultimately show ?thesis using rows r by (simp del: session.simps)
qed

text \<open>Two rows, and a restart on the same simulated device.\<close>

theorem restart_forgets_rows_witness:
  "\<exists>as inst order dm1 dm2 d2. session prompt_os False (''CREATE TABLE'' # replicate 2 ''INSERT'') (StingInstance_ctor (BufferPoolManager_ctor 1 small_disk)) = (as, inst)
    \<and> BufferPoolManager_dtor prompt_os order (in_bpm inst) = Released dm1
    \<and> DiskManager_ctor prompt_os ''sting.db'' (DiskManager_dtor (\<lambda>d. d) (\<lambda>d fd. d) dm1) = (Inr dm2, d2)
    \<and> rows_page 2 (sim_blocks (dm_ring dm2) 0)
    \<and> fst (session prompt_os False [''SELECT''] (StingInstance_ctor (BufferPoolManager_ctor 1 dm2))) = [Inr (''Error: Table not found: users'' @ newline)]"
proof -
  obtain as inst where r: "session prompt_os False (''CREATE TABLE'' # replicate 2 ''INSERT'') (StingInstance_ctor (BufferPoolManager_ctor 1 small_disk)) = (as, inst)"
    by fastforce
  note S = small_server [OF r]
  obtain order where o: "set order = dom (bp_page_table (in_bpm inst))" using S(3) by auto
  obtain dm1 where d1: "BufferPoolManager_dtor prompt_os order (in_bpm inst) = Released dm1" "prompt_phase (dm_ring dm1) = Idle"
    using shutdown_contents [OF prompt.prompt_device_axioms S(1) o] by auto
  let ?dm = "\<lparr>dm_file_name = ''sting.db'', dm_fd = 3, dm_next_page_id = 0, dm_ring = dm_ring dm1\<rparr>"
  have re: "DiskManager_ctor prompt_os ''sting.db'' (DiskManager_dtor (\<lambda>d. d) (\<lambda>d fd. d) dm1) = (Inr ?dm, dm_ring dm1)"
    by (simp add: DiskManager_ctor_def DiskManager_dtor_def prompt_os_def sim_os_def)
  have "rows_page (min 31 2) (sim_blocks (dm_ring ?dm) 0)
    \<and> fst (session prompt_os False [''SELECT''] (StingInstance_ctor (BufferPoolManager_ctor 1 ?dm))) = [Inr (''Error: Table not found: users'' @ newline)]
    \<and> rows_page 1 (contents sim_blocks (in_bpm (snd (session prompt_os False [''CREATE TABLE'', ''INSERT''] (StingInstance_ctor (BufferPoolManager_ctor 1 ?dm))))) 0)"
    by (rule restart_forgets_rows [OF prompt.prompt_device_axioms _ _ _ _ _ _ r o d1(1) re])
      (use d1(2) in \<open>simp_all add: small_disk_def fresh_device_def\<close>)
  then have "rows_page (min 31 2) (sim_blocks (dm_ring ?dm) 0)"
      "fst (session prompt_os False [''SELECT''] (StingInstance_ctor (BufferPoolManager_ctor 1 ?dm))) = [Inr (''Error: Table not found: users'' @ newline)]"
    by blast+
  moreover have "min 31 2 = (2 :: nat)" by simp
  ultimately show ?thesis using r d1(1) re by metis
qed

end
