(* ===== verification/Pool_Test.thy ===== *)
theory Pool_Test
  imports Shutdown
begin

text \<open>
  The repository's integration test \<open>BufferPoolManagerTest.BasicFetchPage\<close> (\<^verbatim>\<open>test/buffer_pool_test.cpp\<close>): a page is fetched, written,
  unpinned and flushed, the pool and the disk manager are destroyed, and a second pool on the same file must find the text.
\<close>

section \<open>C strings in a page\<close>

definition c_string :: "string \<Rightarrow> bytes" where
  "c_string s = map of_char s @ [0]"

text \<open>\<open>sprintf\<close> into a buffer, and the comparison of \<open>EXPECT_STREQ\<close>.\<close>

definition sprintf :: "string \<Rightarrow> bytes \<Rightarrow> bytes" where
  "sprintf s d = mem_put 0 (c_string s) d"

definition streq :: "bytes \<Rightarrow> string \<Rightarrow> bool" where
  "streq d s \<longleftrightarrow> takeWhile (\<lambda>b. b \<noteq> 0) d @ [0] = c_string s"

lemma streq_sprintf:
  assumes "length s < length d" and "CHR 0x00 \<notin> set s"
  shows "streq (sprintf s d) s"
proof -
  have "of_char c \<noteq> (0 :: 8 word)" if "c \<in> set s" for c
  proof -
    have "of_char c \<noteq> (0 :: nat)" using that assms(2) of_char_eq_iff [of c "CHR 0x00", where 'a = nat] by auto
    moreover have "(of_char c :: nat) < 256" by (metis of_char_mod_256 mod_less_divisor zero_less_numeral)
    ultimately have "unat (of_nat (of_char c) :: 8 word) \<noteq> 0" by (subst unat_of_nat_small) simp_all
    then show ?thesis by (metis of_nat_of_char unsigned_0)
  qed
  then show ?thesis by (simp add: streq_def sprintf_def c_string_def mem_put_def takeWhile_append)
qed

section \<open>The test\<close>

definition test_text :: string where
  "test_text = ''StingDB Test Data String''"

text \<open>The first block: whether its expectations hold, and how the destructor of the pool ends.  The map of pages has one entry when
  it is flushed, page 0.\<close>

definition test_write :: "'d os \<Rightarrow> bool \<Rightarrow> 'd disk \<Rightarrow> bool \<times> 'd disk ending" where
  "test_write os ndebug dm =
     (case FetchPage os 0 (BufferPoolManager_ctor 10 dm) of
        (Inr (Some f), s) \<Rightarrow>
          let e1 = (p_page_id (bp_pages s ! f) = 0);
              s = upd_page f (\<lambda>p. p\<lparr>p_data := sprintf test_text (p_data p)\<rparr>) s;
              (e2, s) = UnpinPage ndebug 0 True s;
              (e3, s) = FlushPage os 0 s
          in (e1 \<and> e2 = Inr True \<and> e3 = Inr True, BufferPoolManager_dtor os [0] s)
      | (r, s) \<Rightarrow> (False, BufferPoolManager_dtor os [] s))"

definition test_read :: "'d os \<Rightarrow> bool \<Rightarrow> 'd disk \<Rightarrow> bool" where
  "test_read os ndebug dm =
     (case FetchPage os 0 (BufferPoolManager_ctor 10 dm) of
        (Inr (Some f), s) \<Rightarrow> streq (p_data (bp_pages s ! f)) test_text \<and> fst (UnpinPage ndebug 0 False s) = Inr True
      | (r, s) \<Rightarrow> False)"

definition BasicFetchPage :: "'d os \<Rightarrow> bool \<Rightarrow> ('d \<Rightarrow> 'd) \<Rightarrow> ('d \<Rightarrow> int \<Rightarrow> 'd) \<Rightarrow> 'd \<Rightarrow> bool" where
  "BasicFetchPage os ndebug queue_exit close_fd d =
     (case DiskManager_ctor os ''stingdb_integration_test.db'' d of
        (Inl e, d) \<Rightarrow> False
      | (Inr dm, d) \<Rightarrow> (case test_write os ndebug dm of
          (ok, Released dm1) \<Rightarrow>
            (case DiskManager_ctor os ''stingdb_integration_test.db'' (DiskManager_dtor queue_exit close_fd dm1) of
               (Inl e, d) \<Rightarrow> False
             | (Inr dm2, d) \<Rightarrow> ok \<and> test_read os ndebug dm2)
        | (ok, r) \<Rightarrow> False))"

context prompt_device
begin

lemma test_write_ok:
  assumes "phase (dm_ring dm) = Idle" and "dm_fd dm = fd"
  shows "\<exists>dm1. test_write os ndebug dm = (True, Released dm1) \<and> phase (dm_ring dm1) = Idle \<and> dm_fd dm1 = fd
    \<and> streq (blocks (dm_ring dm1) 0) test_text"
proof -
  have q: "quiet fd blocks phase (BufferPoolManager_ctor 10 dm)" using assms by (intro quiet_ctor) simp_all
  obtain f s1 where F: "FetchPage os 0 (BufferPoolManager_ctor 10 dm) = (Inr (Some f), s1)" "held fd blocks phase {} 0 f s1" "p_page_id (bp_pages s1 ! f) = 0"
    using quiet_fetch [OF q, of 0] by blast
  define p where "p = (bp_pages s1 ! f)\<lparr>p_data := sprintf test_text (p_data (bp_pages s1 ! f))\<rparr>"
  have len: "length (p_data (bp_pages s1 ! f)) = PAGE_SIZE"
    using F(2) pool_safeD(1,2) [OF pool_invD(1), of s1] by (auto simp: held_def page_wf_def)
  have small: "length test_text < PAGE_SIZE" "CHR 0x00 \<notin> set test_text" by (simp_all add: test_text_def PAGE_SIZE_def)
  then have wf: "page_wf p" using len by (simp add: p_def page_wf_def sprintf_def c_string_def)
  have upd: "upd_page f (\<lambda>p. p\<lparr>p_data := sprintf test_text (p_data p)\<rparr>) s1 = upd_page f (\<lambda>_. p) s1" by (simp add: upd_page_def p_def)
  note H = held_write [OF F(2) wf, unfolded p_def, simplified, folded p_def]
  obtain s2 where U: "UnpinPage ndebug 0 True (upd_page f (\<lambda>_. p) s1) = (Inr True, s2)" "quiet fd blocks phase s2"
      "contents blocks s2 = contents blocks (upd_page f (\<lambda>_. p) s1)"
    using held_unpin [OF H(1), of True] by auto
  have dom1: "bp_page_table s1 = Map.empty(0 \<mapsto> f)"
    using F(1) FetchPage_numbers [OF F(1)] F(2) by (auto simp: held_def BufferPoolManager_ctor_def fun_eq_iff dom_def)
  have dom2: "bp_page_table s2 = Map.empty(0 \<mapsto> f)" using UnpinPage_numbers [OF U(1)] dom1 by (simp add: upd_page_def)
  have "flushing usable fd blocks s2" using U(2) coherent_flushing by (simp add: quiet_def)
  then obtain b s3 where P: "FlushPage os 0 s2 = (Inr b, s3)" "flushing usable fd blocks s3" "bp_page_table s3 = bp_page_table s2" "contents blocks s3 = contents blocks s2"
    using flush_page_now [of s2 0] by blast
  have "b = True" using P(1) dom2 by (auto simp: FlushPage_def split: if_splits prod.splits sum.splits)
  moreover obtain dm1 where D: "BufferPoolManager_dtor os [0] s3 = Released dm1" "blocks (dm_ring dm1) = contents blocks s3" "phase (dm_ring dm1) = Idle" "dm_fd dm1 = fd"
    using flushed_contents [OF prompt_device_axioms P(2), of "[0]"] P(3) dom2 by auto
  ultimately have "test_write os ndebug dm = (True, Released dm1)" using F(1,3) U(1) P(1) upd by (simp add: test_write_def)
  moreover have "blocks (dm_ring dm1) 0 = p_data p" using D(2) P(4) U(3) H(2) by (simp add: p_def)
  then have "streq (blocks (dm_ring dm1) 0) test_text" using streq_sprintf [of test_text "p_data (bp_pages s1 ! f)"] small len by (simp add: p_def)
  ultimately show ?thesis using D(3,4) by blast
qed

lemma test_read_ok:
  assumes "phase (dm_ring dm) = Idle" and "dm_fd dm = fd" and "streq (blocks (dm_ring dm) 0) test_text"
  shows "test_read os ndebug dm"
proof -
  have q: "quiet fd blocks phase (BufferPoolManager_ctor 10 dm)" using assms by (intro quiet_ctor) simp_all
  obtain f s1 where F: "FetchPage os 0 (BufferPoolManager_ctor 10 dm) = (Inr (Some f), s1)" "held fd blocks phase {} 0 f s1"
      "p_data (bp_pages s1 ! f) = contents blocks (BufferPoolManager_ctor 10 dm) 0"
    using quiet_fetch [OF q, of 0] by blast
  then show ?thesis using held_unpin [OF F(2), of False ndebug] contents_ctor [of blocks 10 dm] assms(3) by (auto simp: test_read_def)
qed

end

section \<open>Property\<close>

text \<open>(C29) The test writes a string to page 0 after fetching it, unpins it dirty, flushes it with \<open>FlushPage\<close>, closes pool and file, and reads
  the string through a second pool.  It passes on every device that carries out writes when they are submitted, whatever the file held before: the file can be
  opened, and opened again after the descriptor was closed, with its blocks unchanged.\<close>

theorem basic_fetch_page_passes:
  assumes dev: "prompt_device os fd blocks phase wait usable unreaped"
    and opens: "DiskManager_ctor os ''stingdb_integration_test.db'' d = (Inr dm, d1)" "phase (dm_ring dm) = Idle" "dm_fd dm = fd"
    and reopens: "\<And>dm1. phase (dm_ring dm1) = Idle \<Longrightarrow> dm_fd dm1 = fd \<Longrightarrow>
      \<exists>dm2 d2. DiskManager_ctor os ''stingdb_integration_test.db'' (DiskManager_dtor queue_exit close_fd dm1) = (Inr dm2, d2)
        \<and> phase (dm_ring dm2) = Idle \<and> dm_fd dm2 = fd \<and> blocks (dm_ring dm2) = blocks (dm_ring dm1)"
  shows "BasicFetchPage os ndebug queue_exit close_fd d"
proof -
  obtain dm1 where W: "test_write os ndebug dm = (True, Released dm1)" "phase (dm_ring dm1) = Idle" "dm_fd dm1 = fd" "streq (blocks (dm_ring dm1) 0) test_text"
    using prompt_device.test_write_ok [OF dev opens(2,3)] by blast
  obtain dm2 d2 where R: "DiskManager_ctor os ''stingdb_integration_test.db'' (DiskManager_dtor queue_exit close_fd dm1) = (Inr dm2, d2)"
      "phase (dm_ring dm2) = Idle" "dm_fd dm2 = fd" "blocks (dm_ring dm2) = blocks (dm_ring dm1)"
    using reopens [OF W(2,3)] by blast
  then have "test_read os ndebug dm2" using prompt_device.test_read_ok [OF dev R(2,3)] W(4) by simp
  then show ?thesis using opens(1) W(1) R(1) by (simp add: BasicFetchPage_def)
qed

theorem basic_fetch_page_passes_witness: "BasicFetchPage prompt_os False (\<lambda>d. d) (\<lambda>d fd. d) fresh_device"
proof (rule basic_fetch_page_passes [OF prompt.prompt_device_axioms])
  let ?dm = "\<lambda>d. \<lparr>dm_file_name = ''stingdb_integration_test.db'', dm_fd = 3, dm_next_page_id = 0, dm_ring = d\<rparr>"
  have o: "DiskManager_ctor prompt_os ''stingdb_integration_test.db'' d = (Inr (?dm d), d)" for d
    by (simp add: DiskManager_ctor_def prompt_os_def sim_os_def)
  show "DiskManager_ctor prompt_os ''stingdb_integration_test.db'' fresh_device = (Inr (?dm fresh_device), fresh_device)" by (rule o)
  show "\<exists>dm2 d2. DiskManager_ctor prompt_os ''stingdb_integration_test.db'' (DiskManager_dtor (\<lambda>d. d) (\<lambda>d fd. d) dm1) = (Inr dm2, d2)
      \<and> prompt_phase (dm_ring dm2) = Idle \<and> dm_fd dm2 = 3 \<and> sim_blocks (dm_ring dm2) = sim_blocks (dm_ring dm1)"
    if "prompt_phase (dm_ring dm1) = Idle" "dm_fd dm1 = 3" for dm1 :: "simdev disk"
    using that o [of "dm_ring dm1"] by (simp add: DiskManager_dtor_def del: prompt_phase.simps)
qed (simp_all add: fresh_device_def)

end
