(* ===== verification/B_Plus_Tree.thy ===== *)
theory B_Plus_Tree
  imports Pool_Properties
begin

text \<open>
  The index of \<^verbatim>\<open>src/storage/index/b_plus_tree.h\<close> and \<^verbatim>\<open>b_plus_tree.cpp\<close>: the node header, four 32-bit
  words at the start of a page, and the tree operations as far as the source has them (the search inside
  a node and the insertion into a leaf are comments there: every step down an inner node goes to
  \<open>INVALID_PAGE_ID\<close>, and nothing is stored).  A \<open>BPlusTreeNode*\<close> is the page it overlays; the type tag is
  the word stored, since the cast to the enumeration accepts every value.  The operations are run by one
  thread, \<open>me\<close>; a latch that another thread holds blocks it for ever, since nobody else runs: \<open>Nonterminating\<close>.
\<close>

section \<open>Node header\<close>

definition NODE_INVALID :: u32 where "NODE_INVALID = 0"

definition NODE_INTERNAL :: u32 where "NODE_INTERNAL = 1"

definition NODE_LEAF :: u32 where "NODE_LEAF = 2"

definition NODE_HEADER_SIZE :: nat where "NODE_HEADER_SIZE = 16"

definition put_u32 :: "nat \<Rightarrow> u32 \<Rightarrow> page \<Rightarrow> page" where
  "put_u32 off v p = p\<lparr>p_data := mem_put off (le_bytes 4 v) (p_data p)\<rparr>"

definition get_u32 :: "nat \<Rightarrow> page \<Rightarrow> u32" where
  "get_u32 off p = le_word (mem_get off 4 (p_data p))"

definition Node_Init :: "u32 \<Rightarrow> u32 \<Rightarrow> page \<Rightarrow> page" where
  "Node_Init type max_size p = put_u32 12 INVALID_PAGE_ID (put_u32 8 max_size (put_u32 4 0 (put_u32 0 type p)))"

definition Node_GetType :: "page \<Rightarrow> u32" where
  "Node_GetType p = get_u32 0 p"

definition Node_GetSize :: "page \<Rightarrow> u32" where
  "Node_GetSize p = get_u32 4 p"

definition Node_SetSize :: "u32 \<Rightarrow> page \<Rightarrow> page" where
  "Node_SetSize sz p = put_u32 4 sz p"

definition Node_IncreaseSize :: "i32 \<Rightarrow> page \<Rightarrow> page" where
  "Node_IncreaseSize by_n p = Node_SetSize (Node_GetSize p + by_n) p"

definition Node_GetMaxSize :: "page \<Rightarrow> u32" where
  "Node_GetMaxSize p = get_u32 8 p"

definition Node_GetParentPageId :: "page \<Rightarrow> pageid" where
  "Node_GetParentPageId p = get_u32 12 p"

definition Node_SetParentPageId :: "pageid \<Rightarrow> page \<Rightarrow> page" where
  "Node_SetParentPageId parent p = put_u32 12 parent p"

definition IsLeafPage :: "page \<Rightarrow> bool" where
  "IsLeafPage p \<longleftrightarrow> Node_GetType p = NODE_LEAF"

definition IsRootPage :: "page \<Rightarrow> bool" where
  "IsRootPage p \<longleftrightarrow> Node_GetParentPageId p = INVALID_PAGE_ID"

section \<open>The tree\<close>

text \<open>The loop of \<open>FindLeafPage\<close>, run by thread \<open>me\<close>, with \<open>current\<close> in frame \<open>f\<close>.\<close>

partial_function (option) descend :: "'d os \<Rightarrow> bool \<Rightarrow> nat \<Rightarrow> nat \<Rightarrow> 'd bpm \<Rightarrow> ((error + nat) \<times> 'd bpm) option" where
  "descend os ndebug me f s =
     (if IsLeafPage (bp_pages s ! f) then Some (Inr f, s)
      else case FetchPage os INVALID_PAGE_ID s of
          (Inl e, s) \<Rightarrow> Some (Inl e, s)
        | (Inr None, s) \<Rightarrow> Some (Inl Undefined, s)
        | (Inr (Some g), s) \<Rightarrow>
            (case RLock me (bp_pages s ! g) of
               Inl e \<Rightarrow> Some (Inl e, s)
             | Inr None \<Rightarrow> Some (Inl Nonterminating, s)
             | Inr (Some p) \<Rightarrow>
                 let s = upd_page g (\<lambda>_. p) s
                 in case RUnlock me (bp_pages s ! f) of
                      Inl e \<Rightarrow> Some (Inl e, s)
                    | Inr p \<Rightarrow>
                        let s = upd_page f (\<lambda>_. p) s
                        in case UnpinPage ndebug (p_page_id (bp_pages s ! f)) False s of
                             (Inl e, s) \<Rightarrow> Some (Inl e, s)
                           | (Inr b, s) \<Rightarrow> descend os ndebug me g s))"

definition FindLeafPage :: "'d os \<Rightarrow> bool \<Rightarrow> nat \<Rightarrow> pageid \<Rightarrow> 64 word \<Rightarrow> 'd bpm \<Rightarrow> ((error + nat option) \<times> 'd bpm) option" where
  "FindLeafPage os ndebug me root key s =
     (if root = INVALID_PAGE_ID then Some (Inr None, s)
      else case FetchPage os root s of
          (Inl e, s) \<Rightarrow> Some (Inl e, s)
        | (Inr None, s) \<Rightarrow> Some (Inl Undefined, s)
        | (Inr (Some f), s) \<Rightarrow>
            (case RLock me (bp_pages s ! f) of
               Inl e \<Rightarrow> Some (Inl e, s)
             | Inr None \<Rightarrow> Some (Inl Nonterminating, s)
             | Inr (Some p) \<Rightarrow> map_option (map_prod (map_sum id Some) id) (descend os ndebug me f (upd_page f (\<lambda>_. p) s))))"

text \<open>The destructor of the \<open>SearchContext\<close> for a read access: it unlatches the page, and does not unpin it.\<close>

definition release_context :: "nat \<Rightarrow> nat \<Rightarrow> 'd bpm \<Rightarrow> (error + bool) \<times> 'd bpm" where
  "release_context me f s = (case RUnlock me (bp_pages s ! f) of
     Inl e \<Rightarrow> (Inl e, s)
   | Inr p \<Rightarrow> (Inr True, upd_page f (\<lambda>_. p) s))"

definition BPT_FindValue :: "'d os \<Rightarrow> bool \<Rightarrow> nat \<Rightarrow> pageid \<Rightarrow> 64 word \<Rightarrow> 'd bpm \<Rightarrow> ((error + bool) \<times> 'd bpm) option" where
  "BPT_FindValue os ndebug me root key s =
     map_option (\<lambda>(r, s). case r of
        Inl e \<Rightarrow> (Inl e, s)
      | Inr None \<Rightarrow> (Inr False, s)
      | Inr (Some f) \<Rightarrow> release_context me f s) (FindLeafPage os ndebug me root key s)"

definition BPT_Insert :: "'d os \<Rightarrow> bool \<Rightarrow> nat \<Rightarrow> pageid \<Rightarrow> 64 word \<Rightarrow> 'd bpm \<Rightarrow> ((error + bool) \<times> 'd bpm) option" where
  "BPT_Insert os ndebug me root key s =
     (if root = INVALID_PAGE_ID then Some (Inr True, s)
      else map_option (\<lambda>(r, s). case r of
        Inl e \<Rightarrow> (Inl e, s)
      | Inr None \<Rightarrow> (Inr False, s)
      | Inr (Some f) \<Rightarrow> release_context me f s) (FindLeafPage os ndebug me root key s))"

section \<open>Fields\<close>

lemma u32_field: "off + 4 \<le> PAGE_SIZE \<Longrightarrow> page_field (get_u32 off) (put_u32 off) off 4"
  using page_field_word [of off 4, where 'a = 32] by (simp add: get_u32_def [abs_def] put_u32_def [abs_def])

interpretation node_type: page_field "get_u32 0" "put_u32 0" 0 4
  by (rule u32_field) (simp add: PAGE_SIZE_def)

interpretation node_size: page_field "get_u32 4" "put_u32 4" 4 4
  by (rule u32_field) (simp add: PAGE_SIZE_def)

interpretation node_max: page_field "get_u32 8" "put_u32 8" 8 4
  by (rule u32_field) (simp add: PAGE_SIZE_def)

interpretation node_parent: page_field "get_u32 12" "put_u32 12" 12 4
  by (rule u32_field) (simp add: PAGE_SIZE_def)

interpretation type_size: page_field_pair "get_u32 0" "put_u32 0" 0 4 "get_u32 4" "put_u32 4" 4 4
  by unfold_locales simp

interpretation type_max: page_field_pair "get_u32 0" "put_u32 0" 0 4 "get_u32 8" "put_u32 8" 8 4
  by unfold_locales simp

interpretation type_parent: page_field_pair "get_u32 0" "put_u32 0" 0 4 "get_u32 12" "put_u32 12" 12 4
  by unfold_locales simp

interpretation size_max: page_field_pair "get_u32 4" "put_u32 4" 4 4 "get_u32 8" "put_u32 8" 8 4
  by unfold_locales simp

interpretation size_parent: page_field_pair "get_u32 4" "put_u32 4" 4 4 "get_u32 12" "put_u32 12" 12 4
  by unfold_locales simp

interpretation max_parent: page_field_pair "get_u32 8" "put_u32 8" 8 4 "get_u32 12" "put_u32 12" 12 4
  by unfold_locales simp

lemmas node_fields =
  node_type.rd_wr node_size.rd_wr node_max.rd_wr node_parent.rd_wr
  node_type.wf_wr node_size.wf_wr node_max.wf_wr node_parent.wf_wr
  type_size.rd_one_wr_two type_size.rd_two_wr_one type_max.rd_one_wr_two type_max.rd_two_wr_one
  type_parent.rd_one_wr_two type_parent.rd_two_wr_one size_max.rd_one_wr_two size_max.rd_two_wr_one
  size_parent.rd_one_wr_two size_parent.rd_two_wr_one max_parent.rd_one_wr_two max_parent.rd_two_wr_one

lemmas node_defs = Node_Init_def Node_GetType_def Node_GetSize_def Node_SetSize_def Node_IncreaseSize_def
  Node_GetMaxSize_def Node_GetParentPageId_def Node_SetParentPageId_def IsLeafPage_def IsRootPage_def

text \<open>The node header behaves as four independent fields: after \<open>Init\<close> the node has the type and
  maximum size given, size 0 and no parent, and each setter changes its own field only; changing the
  size by \<open>n\<close> adds \<open>n\<close> (modulo \<open>2 ^ 32\<close>, so negative changes work).\<close>

theorem node_header_fields:
  assumes "page_wf p"
  shows "Node_GetType (Node_Init ty m p) = ty \<and> Node_GetSize (Node_Init ty m p) = 0
    \<and> Node_GetMaxSize (Node_Init ty m p) = m \<and> IsRootPage (Node_Init ty m p)
    \<and> IsLeafPage (Node_Init ty m p) = (ty = NODE_LEAF) \<and> page_wf (Node_Init ty m p)
    \<and> Node_GetSize (Node_IncreaseSize n p) = Node_GetSize p + n
    \<and> Node_GetType (Node_IncreaseSize n p) = Node_GetType p \<and> Node_GetMaxSize (Node_IncreaseSize n p) = Node_GetMaxSize p
    \<and> Node_GetParentPageId (Node_IncreaseSize n p) = Node_GetParentPageId p
    \<and> Node_GetParentPageId (Node_SetParentPageId q p) = q \<and> Node_GetType (Node_SetParentPageId q p) = Node_GetType p
    \<and> Node_GetSize (Node_SetParentPageId q p) = Node_GetSize p \<and> Node_GetMaxSize (Node_SetParentPageId q p) = Node_GetMaxSize p"
  using assms by (simp add: node_defs node_fields)

theorem node_header_fields_witness:
  "page_wf Page_ctor \<and> Node_GetSize (Node_IncreaseSize (- 1) (Node_SetSize 5 Page_ctor)) = 4
   \<and> IsLeafPage (Node_Init NODE_LEAF 100 Page_ctor)"
  using node_header_fields [of Page_ctor NODE_LEAF 100] node_header_fields [of "Node_SetSize 5 Page_ctor" _ _ "- 1"]
  by (simp add: Node_SetSize_def node_fields Node_GetSize_def)

section \<open>Searching\<close>

text \<open>Searching a tree whose root is a leaf reports success for every key, whatever the leaf holds,
  releases the latch, and leaves the page pinned: the state is exactly the one after the fetch, so each
  search costs one pin that nobody will give back.\<close>

theorem find_value_leaks_pin:
  assumes "root \<noteq> INVALID_PAGE_ID" and "FetchPage os root s = (Inr (Some f), s')"
    and "IsLeafPage (bp_pages s' ! f)" and "p_latch (bp_pages s' ! f) = Unlocked" and "f < length (bp_pages s')"
  shows "BPT_FindValue os ndebug me root key s = Some (Inr True, s') \<and> BPT_Insert os ndebug me root key s = Some (Inr True, s')"
proof -
  let ?p = "(bp_pages s' ! f)\<lparr>p_latch := Shared [me]\<rparr>"
  have leaf: "IsLeafPage ?p" using assms(3) by (simp add: IsLeafPage_def Node_GetType_def get_u32_def)
  have "FindLeafPage os ndebug me root key s = Some (Inr (Some f), upd_page f (\<lambda>_. ?p) s')"
    using assms leaf by (simp add: FindLeafPage_def descend.simps nth_upd_page)
  moreover have "release_context me f (upd_page f (\<lambda>_. ?p) s') = (Inr True, s')"
    using assms(4,5) by (simp add: release_context_def nth_upd_page) (simp add: upd_page_def list_update_same_conv)
  ultimately show ?thesis using assms(1) by (simp add: BPT_FindValue_def BPT_Insert_def)
qed

text \<open>A pool of one frame that holds an empty leaf.\<close>

definition leaf_pool :: "simdev bpm" where
  "leaf_pool = upd_page 0 (\<lambda>p. Node_Init NODE_LEAF 100 p) (snd (pool_run sim_os False [New_op, Unpin_op 0 True] (fresh_pool 1)))"

theorem find_value_leaks_pin_witness:
  "BPT_FindValue sim_os False 7 0 42 leaf_pool = Some (Inr True, snd (FetchPage sim_os 0 leaf_pool))
   \<and> pin_count leaf_pool 0 = 0 \<and> pin_count (snd (FetchPage sim_os 0 leaf_pool)) 0 = 1"
proof -
  have m: "p_latch (Node_Init NODE_LEAF 100 p) = p_latch p" "p_pin_count (Node_Init NODE_LEAF 100 p) = p_pin_count p" for p
    by (simp_all add: Node_Init_def node_type.wr_meta node_size.wr_meta node_max.wr_meta node_parent.wr_meta)
  have wf: "page_wf p" if "p_data p = replicate PAGE_SIZE 0" for p using that by (simp add: page_wf_def)
  have leaf: "IsLeafPage (Node_Init NODE_LEAF 100 p)" if "p_data p = replicate PAGE_SIZE 0" for p
    using wf [OF that] by (simp add: node_defs node_fields)
  have leaf': "IsLeafPage (p\<lparr>p_pin_count := c\<rparr>) = IsLeafPage p" for p c
    by (simp add: IsLeafPage_def Node_GetType_def get_u32_def)
  have f: "FetchPage sim_os 0 leaf_pool = (Inr (Some 0), snd (FetchPage sim_os 0 leaf_pool))"
    by (simp add: leaf_pool_def run_sim)
  have "IsLeafPage (bp_pages (snd (FetchPage sim_os 0 leaf_pool)) ! 0)"
      "p_latch (bp_pages (snd (FetchPage sim_os 0 leaf_pool)) ! 0) = Unlocked"
      "length (bp_pages (snd (FetchPage sim_os 0 leaf_pool))) = 1"
      "pin_count leaf_pool 0 = 0 \<and> pin_count (snd (FetchPage sim_os 0 leaf_pool)) 0 = 1"
    by (simp_all add: leaf_pool_def run_sim m leaf leaf')
  then show ?thesis
    using find_value_leaks_pin [OF _ f, of False 7 42] by (simp add: INVALID_PAGE_ID_def)
qed

section \<open>Inner nodes\<close>

text \<open>A fetch of another page leaves a pinned page in its frame, with its latch and its pins.\<close>

lemma FetchPage_other:
  assumes safe: "pool_safe s" and res: "bp_page_table s q = Some f" "p_pin_count (bp_pages s ! f) \<noteq> 0" and ne: "pid \<noteq> q"
    and call: "FetchPage os pid s = (Inr (Some g), s')"
  shows "g \<noteq> f" "bp_pages s' ! f = bp_pages s ! f" "bp_page_table s' q = Some f" "bp_page_table s' pid = Some g" "length (bp_pages s') = length (bp_pages s)"
proof -
  have "g \<noteq> f \<and> bp_pages s' ! f = bp_pages s ! f \<and> bp_page_table s' q = Some f \<and> bp_page_table s' pid = Some g \<and> length (bp_pages s') = length (bp_pages s)"
    using call
  proof (cases rule: FetchPage_cases)
    case (hit h)
    then have "h \<noteq> f" using pool_safeD(9) [OF safe] res(1) ne by metis
    then show ?thesis using hit res pool_safeD(1,8) [OF safe] by (auto simp: upd_page_def)
  next
    case (miss h s1 d dm)
    have t: "taken s h s1" using safe miss(2) by (rule acquire_frame_Some)
    then have "h \<noteq> f" using res pool_safeD(10,11) [OF safe] by (auto simp: taken_def)
    then show ?thesis using t res miss ne by (auto simp: taken_def)
  qed auto
  then show "g \<noteq> f" "bp_pages s' ! f = bp_pages s ! f" "bp_page_table s' q = Some f" "bp_page_table s' pid = Some g" "length (bp_pages s') = length (bp_pages s)"
    by auto
qed

lemma FetchPage_got:
  assumes safe: "pool_safe s" and call: "FetchPage os pid s = (Inr (Some f), s')"
  shows "bp_page_table s' pid = Some f" "f < length (bp_pages s')" "p_page_id (bp_pages s' ! f) = pid"
proof -
  have safe': "pool_safe s'" using FetchPage_safe [OF safe call] .
  show tab: "bp_page_table s' pid = Some f" using call by (cases rule: FetchPage_cases) auto
  show "f < length (bp_pages s')" "p_page_id (bp_pages s' ! f) = pid" using pool_safeD(1,8,9) [OF safe'] tab by auto
qed

lemma unpin_resident:
  assumes "bp_page_table s pid = Some f" and "f < length (bp_pages s)" and "0 < sint (p_pin_count (bp_pages s ! f))"
  obtains s' where "UnpinPage ndebug pid False s = (Inr True, s')" "bp_page_table s' = bp_page_table s" "length (bp_pages s') = length (bp_pages s)"
    "\<And>h. h \<noteq> f \<Longrightarrow> bp_pages s' ! h = bp_pages s ! h"
proof -
  obtain r s' where U: "UnpinPage ndebug pid False s = (r, s')" by fastforce
  then show ?thesis using that [of s'] assms by (auto simp: UnpinPage_def Let_def upd_page_def split: if_splits)
qed

text \<open>The loop at the page it calls \<open>INVALID_PAGE_ID\<close>, latched by this thread.\<close>

lemma second_step_undefined:
  assumes "bp_page_table s INVALID_PAGE_ID = Some g" and "g < length (bp_pages s)" and "\<not> IsLeafPage (bp_pages s ! g)"
    and "p_latch (bp_pages s ! g) = Shared ts" and "me \<in> set ts"
  shows "\<exists>s'. descend os ndebug me g s = Some (Inl Undefined, s')"
proof -
  have "FetchPage os INVALID_PAGE_ID s = (Inr (Some g), (upd_page g (\<lambda>p. p\<lparr>p_pin_count := p_pin_count p + 1\<rparr>) s)\<lparr>bp_lru := removeAll g (bp_lru s)\<rparr>)"
    using assms(1) by (simp add: FetchPage_def)
  then show ?thesis using assms(2-5) by (subst descend.simps) (simp add: nth_upd_page)
qed

text \<open>(C40) A search below an inner node is undefined behaviour.  The child the code goes to is always \<open>INVALID_PAGE_ID\<close>.  When the root is an inner
  node and that page can be fetched, is no leaf and is not latched, the first step down latches it for reading, and the second step
  takes the same latch again in the same thread, which \<open>std::shared_mutex\<close> does not allow.  This holds for searching and for inserting, for
  every key.\<close>

theorem inner_node_undefined:
  assumes safe: "pool_safe s" and root: "root \<noteq> INVALID_PAGE_ID" and first: "FetchPage os root s = (Inr (Some f), s1)"
    and inner: "\<not> IsLeafPage (bp_pages s1 ! f)" "p_latch (bp_pages s1 ! f) = Unlocked" "0 < sint (p_pin_count (bp_pages s1 ! f))"
    and second: "FetchPage os INVALID_PAGE_ID (upd_page f (\<lambda>p. p\<lparr>p_latch := Shared [me]\<rparr>) s1) = (Inr (Some g), s2)"
      "\<not> IsLeafPage (bp_pages s2 ! g)" "p_latch (bp_pages s2 ! g) = Unlocked"
  shows "\<exists>s'. BPT_FindValue os ndebug me root key s = Some (Inl Undefined, s') \<and> BPT_Insert os ndebug me root key s = Some (Inl Undefined, s')"
proof -
  let ?q = "(bp_pages s1 ! f)\<lparr>p_latch := Shared [me]\<rparr>" and ?s1 = "upd_page f (\<lambda>p. p\<lparr>p_latch := Shared [me]\<rparr>) s1"
  have safe1: "pool_safe s1" using FetchPage_safe [OF safe first] .
  note G1 = FetchPage_got [OF safe first]
  have f: "f < bp_pool_size s1" using G1(2) pool_safeD(1) [OF safe1] by simp
  have safe1': "pool_safe ?s1" by (rule upd_page_keeps [OF safe1 f]) (use pool_safeD(2) [OF safe1 f] in simp_all)
  have at: "bp_pages ?s1 ! f = ?q" using G1(2) by (simp add: nth_upd_page)
  have pin: "p_pin_count (bp_pages ?s1 ! f) \<noteq> 0" using inner(3) at by auto
  note O = FetchPage_other [OF safe1' _ pin root [symmetric] second(1), simplified, OF G1(1)] and G2 = FetchPage_got [OF safe1' second(1)]
  define s3 where "s3 = upd_page g (\<lambda>_. (bp_pages s2 ! g)\<lparr>p_latch := Shared [me]\<rparr>) s2"
  define s4 where "s4 = upd_page f (\<lambda>_. (bp_pages s1 ! f)\<lparr>p_latch := Unlocked\<rparr>) s3"
  have len: "f < length (bp_pages s2)" "g < length (bp_pages s2)" using O(5) G1(2) G2(2) by simp_all
  have p3: "bp_pages s3 ! f = ?q" "bp_pages s3 ! g = (bp_pages s2 ! g)\<lparr>p_latch := Shared [me]\<rparr>"
    using O(1,2) at len by (simp_all add: s3_def nth_upd_page)
  have p4: "bp_pages s4 ! f = (bp_pages s1 ! f)\<lparr>p_latch := Unlocked\<rparr>" "bp_pages s4 ! g = (bp_pages s2 ! g)\<lparr>p_latch := Shared [me]\<rparr>"
    using O(1) p3 len by (simp_all add: s4_def s3_def nth_upd_page)
  have t4: "bp_page_table s4 root = Some f" "bp_page_table s4 INVALID_PAGE_ID = Some g" "length (bp_pages s4) = length (bp_pages s2)"
    using O(3,4) by (simp_all add: s4_def s3_def)
  obtain s5 where U: "UnpinPage ndebug root False s4 = (Inr True, s5)" "bp_page_table s5 = bp_page_table s4"
      "length (bp_pages s5) = length (bp_pages s4)" "bp_pages s5 ! g = bp_pages s4 ! g"
    using unpin_resident [OF t4(1), of ndebug] t4(3) len(1) p4(1) inner(3) O(1) by auto
  have leaf: "IsLeafPage (p\<lparr>p_latch := l\<rparr>) = IsLeafPage p" for p l by (simp add: IsLeafPage_def Node_GetType_def get_u32_def)
  obtain s' where s': "descend os ndebug me g s5 = Some (Inl Undefined, s')"
    using second_step_undefined [of s5 g "[me]" me os ndebug] U t4 len p4(2) second(2) leaf by auto
  have "descend os ndebug me f ?s1 = Some (Inl Undefined, s')"
    using inner(1) at leaf second(1,3) p3 p4(1) U(1) s' G1(3)
    by (subst descend.simps) (simp add: Let_def flip: s3_def s4_def)
  then have "FindLeafPage os ndebug me root key s = Some (Inl Undefined, s')"
    using root first inner(2) at by (simp add: FindLeafPage_def upd_page_def)
  then show ?thesis using root by (simp add: BPT_FindValue_def BPT_Insert_def)
qed

text \<open>On a new file, the search from page 0 reads zeros, which is no leaf, and so does its child.\<close>

theorem inner_node_undefined_witness:
  "\<exists>s'. BPT_FindValue sim_os False 7 0 42 (fresh_pool (Suc (Suc 0))) = Some (Inl Undefined, s')"
proof -
  let ?s = "fresh_pool (Suc (Suc 0))"
  have z: "le_word (mem_get 0 4 (replicate PAGE_SIZE 0)) \<noteq> NODE_LEAF"
  proof -
    have "take 4 (replicate PAGE_SIZE (0 :: byte)) = replicate 4 0" by (simp add: PAGE_SIZE_def)
    also have "\<dots> = [0, 0, 0, 0]" by (simp add: numeral_eq_Suc)
    finally show ?thesis by (simp add: mem_get_def NODE_LEAF_def)
  qed
  have safe: "pool_safe ?s" using fresh_coherent [of "Suc (Suc 0)"] by (simp add: coherent_def)
  obtain s1 where F: "FetchPage sim_os 0 ?s = (Inr (Some 0), s1)" by (simp add: run_sim)
  obtain s2 where G: "FetchPage sim_os INVALID_PAGE_ID (upd_page 0 (\<lambda>p. p\<lparr>p_latch := Shared [7]\<rparr>) s1) = (Inr (Some 1), s2)"
    using F by (auto simp: run_sim INVALID_PAGE_ID_def)
  have "\<not> IsLeafPage (bp_pages s1 ! 0)" "p_latch (bp_pages s1 ! 0) = Unlocked" "0 < sint (p_pin_count (bp_pages s1 ! 0))"
    using F z by (auto simp: run_sim IsLeafPage_def Node_GetType_def get_u32_def)
  moreover have "\<not> IsLeafPage (bp_pages s2 ! 1)" "p_latch (bp_pages s2 ! 1) = Unlocked"
    using F G z by (auto simp: run_sim IsLeafPage_def Node_GetType_def get_u32_def INVALID_PAGE_ID_def)
  moreover have "(0 :: pageid) \<noteq> INVALID_PAGE_ID" by (simp add: INVALID_PAGE_ID_def)
  ultimately show ?thesis using inner_node_undefined [OF safe _ F _ _ _ G, of False 42] by blast
qed

end
