(* ===== verification/Planner.thy ===== *)
theory Planner
  imports Sting_Prelude
begin

text \<open>
  The planner: the memo of \<^verbatim>\<open>src/sql/planner/memo.h\<close>, the rules of \<^verbatim>\<open>rule.h\<close> and the rule registration of
  \<^verbatim>\<open>optimizer.h\<close> (its search is a comment in the source).  Expressions are shared pointers that only
  \<open>InsertExpression\<close> changes, so they are values here.  \<open>std::hash\<close> of an integer is the integer itself in
  the library the project builds with.  Indexing the group vector out of range is undefined.
\<close>

section \<open>Group expressions\<close>

datatype OperatorType =
    LOGICAL_GET | LOGICAL_FILTER | LOGICAL_JOIN | LOGICAL_AGGREGATION
  | PHYSICAL_SEQ_SCAN | PHYSICAL_INDEX_SCAN | PHYSICAL_HASH_JOIN | PHYSICAL_NESTED_LOOP_JOIN

fun op_code :: "OperatorType \<Rightarrow> u64" where
  "op_code LOGICAL_GET = 0"
| "op_code LOGICAL_FILTER = 1"
| "op_code LOGICAL_JOIN = 2"
| "op_code LOGICAL_AGGREGATION = 3"
| "op_code PHYSICAL_SEQ_SCAN = 4"
| "op_code PHYSICAL_INDEX_SCAN = 5"
| "op_code PHYSICAL_HASH_JOIN = 6"
| "op_code PHYSICAL_NESTED_LOOP_JOIN = 7"

record group_expr =
  ge_op :: OperatorType
  ge_children :: "u32 list"
  ge_hash :: u64
  ge_group :: u32

fun hash_children :: "u64 \<Rightarrow> u32 list \<Rightarrow> u64" where
  "hash_children h [] = h"
| "hash_children h (c # cs) =
     hash_children (xor h (ucast c + 0x9e3779b9 + push_bit 6 h + drop_bit 2 h)) cs"

definition ComputeHash :: "OperatorType \<Rightarrow> u32 list \<Rightarrow> u64" where
  "ComputeHash ty children = hash_children (op_code ty) children"

definition GroupExpression_ctor :: "OperatorType \<Rightarrow> u32 list \<Rightarrow> group_expr" where
  "GroupExpression_ctor ty children = \<lparr>ge_op = ty, ge_children = children, ge_hash = ComputeHash ty children, ge_group = 0\<rparr>"

definition SetGroupId :: "u32 \<Rightarrow> group_expr \<Rightarrow> group_expr" where
  "SetGroupId i e = e\<lparr>ge_group := i\<rparr>"

section \<open>Groups and the memo\<close>

record expr_group =
  gr_id :: u32
  gr_logical :: "group_expr list"
  gr_physical :: "group_expr list"
  gr_is_explored :: bool

definition Group_ctor :: "u32 \<Rightarrow> expr_group" where
  "Group_ctor i = \<lparr>gr_id = i, gr_logical = [], gr_physical = [], gr_is_explored = False\<rparr>"

definition AddExpression :: "group_expr \<Rightarrow> expr_group \<Rightarrow> expr_group" where
  "AddExpression e g = g\<lparr>gr_logical := gr_logical g @ [e]\<rparr>"

record memo =
  me_groups :: "expr_group list"
  me_expr_map :: "u64 \<Rightarrow> group_expr option"

definition Memo_ctor :: memo where
  "Memo_ctor = \<lparr>me_groups = [], me_expr_map = Map.empty\<rparr>"

text \<open>The group, and the memo; \<open>target_group = 0\<close> asks for a new group.\<close>

definition InsertExpression :: "group_expr \<Rightarrow> u32 \<Rightarrow> memo \<Rightarrow> error + u32 \<times> memo" where
  "InsertExpression expr target_group m =
     (case me_expr_map m (ge_hash expr) of
        Some e \<Rightarrow> Inr (ge_group e, m)
      | None \<Rightarrow>
          let new = (target_group = 0);
              assigned = (if new then of_nat (length (me_groups m) + 1) else target_group);
              groups = (if new then me_groups m @ [Group_ctor assigned] else me_groups m);
              expr = SetGroupId assigned expr;
              exprs = (me_expr_map m)(ge_hash expr \<mapsto> expr);
              i = unat (assigned - 1)
          in if i < length groups
             then Inr (assigned, \<lparr>me_groups = groups[i := AddExpression expr (groups ! i)], me_expr_map = exprs\<rparr>)
             else Inl Undefined)"

section \<open>Rules\<close>

datatype rule = LogicalJoinCommutativityRule | LogicalToPhysicalHashJoinRule

fun rule_Match :: "rule \<Rightarrow> group_expr \<Rightarrow> bool" where
  "rule_Match LogicalJoinCommutativityRule e = (ge_op e = LOGICAL_JOIN)"
| "rule_Match LogicalToPhysicalHashJoinRule e = (ge_op e = LOGICAL_JOIN)"

fun rule_Transform :: "rule \<Rightarrow> group_expr \<Rightarrow> group_expr list" where
  "rule_Transform LogicalJoinCommutativityRule e =
     (case ge_children e of
        [a, b] \<Rightarrow> [GroupExpression_ctor LOGICAL_JOIN [b, a]]
      | _ \<Rightarrow> [])"
| "rule_Transform LogicalToPhysicalHashJoinRule e = [GroupExpression_ctor PHYSICAL_HASH_JOIN (ge_children e)]"

fun rule_GetName :: "rule \<Rightarrow> string" where
  "rule_GetName LogicalJoinCommutativityRule = ''JoinCommutativity''"
| "rule_GetName LogicalToPhysicalHashJoinRule = ''ToHashJoin''"

definition AddRule :: "rule \<Rightarrow> rule list \<Rightarrow> rule list" where
  "AddRule r rules = rules @ [r]"

definition Optimizer_ctor :: "rule list" where
  "Optimizer_ctor = AddRule LogicalToPhysicalHashJoinRule (AddRule LogicalJoinCommutativityRule [])"

section \<open>The memo's invariant\<close>

text \<open>Group \<open>i\<close> is at position \<open>i - 1\<close>.  An expression recorded under a hash has that hash and is in the
  group it names; an expression of a group is the one recorded under its hash, and is there once.\<close>

definition recorded :: "memo \<Rightarrow> u64 \<Rightarrow> group_expr \<Rightarrow> bool" where
  "recorded m h e \<longleftrightarrow> ge_hash e = h \<and> ge_group e \<noteq> 0 \<and> unat (ge_group e) \<le> length (me_groups m)
     \<and> e \<in> set (gr_logical (me_groups m ! (unat (ge_group e) - 1)))"

definition group_ok :: "memo \<Rightarrow> nat \<Rightarrow> bool" where
  "group_ok m i \<longleftrightarrow> gr_id (me_groups m ! i) = of_nat (Suc i) \<and> distinct (gr_logical (me_groups m ! i))
     \<and> (\<forall>e \<in> set (gr_logical (me_groups m ! i)). me_expr_map m (ge_hash e) = Some e \<and> unat (ge_group e) = Suc i)"

definition memo_inv :: "memo \<Rightarrow> bool" where
  "memo_inv m \<longleftrightarrow> (\<forall>i < length (me_groups m). group_ok m i)
     \<and> (\<forall>h e. me_expr_map m h = Some e \<longrightarrow> recorded m h e)"

definition valid_target :: "u32 \<Rightarrow> memo \<Rightarrow> bool" where
  "valid_target t m \<longleftrightarrow> unat t \<le> length (me_groups m)"

lemma memo_inv_ctor: "memo_inv Memo_ctor"
  by (simp add: memo_inv_def Memo_ctor_def)

lemma InsertExpression_known:
  assumes "me_expr_map m (ge_hash e) = Some x"
  shows "InsertExpression e target m = Inr (ge_group x, m)"
  using assms by (simp add: InsertExpression_def)

lemma unat_minus_1_word: "(g :: u32) \<noteq> 0 \<Longrightarrow> unat (g - 1) = unat g - 1"
  by (simp add: unat_minus_one)

text \<open>The group a new expression goes to, and the groups with it appended when it is a new one.\<close>

definition dest :: "u32 \<Rightarrow> memo \<Rightarrow> u32" where
  "dest t m = (if t = 0 then of_nat (length (me_groups m) + 1) else t)"

definition dest_groups :: "u32 \<Rightarrow> memo \<Rightarrow> expr_group list" where
  "dest_groups t m = (if t = 0 then me_groups m @ [Group_ctor (dest t m)] else me_groups m)"

definition stored :: "group_expr \<Rightarrow> u32 \<Rightarrow> memo \<Rightarrow> memo" where
  "stored e t m = \<lparr>me_groups = (dest_groups t m)[unat (dest t m) - 1 :=
       AddExpression (SetGroupId (dest t m) e) (dest_groups t m ! (unat (dest t m) - 1))],
     me_expr_map = (me_expr_map m)(ge_hash e \<mapsto> SetGroupId (dest t m) e)\<rparr>"

lemma dest_bounds:
  assumes "valid_target t m" "Suc (length (me_groups m)) < 2 ^ 32"
  shows "unat (dest t m) = (if t = 0 then Suc (length (me_groups m)) else unat t)"
    and "dest t m \<noteq> 0" and "0 < unat (dest t m)" and "unat (dest t m) \<le> length (dest_groups t m)"
proof -
  show u: "unat (dest t m) = (if t = 0 then Suc (length (me_groups m)) else unat t)"
    using assms(2) by (simp add: dest_def unat_of_nat_small del: of_nat_add of_nat_Suc)
  show p: "0 < unat (dest t m)" using u by (cases "t = 0") (simp_all add: unat_gt_0)
  then show "dest t m \<noteq> 0" by auto
  show "unat (dest t m) \<le> length (dest_groups t m)" using u assms(1) by (simp add: dest_groups_def valid_target_def)
qed

lemma InsertExpression_stored:
  assumes "me_expr_map m (ge_hash e) = None" "valid_target t m" "Suc (length (me_groups m)) < 2 ^ 32"
  shows "InsertExpression e t m = Inr (dest t m, stored e t m)"
proof -
  note b = dest_bounds [OF assms(2,3)]
  have i: "unat (dest t m - 1) = unat (dest t m) - 1" using b(2) by (rule unat_minus_1_word)
  have j: "unat (dest t m) - 1 < length (dest_groups t m)" using b(3,4) by linarith
  have "InsertExpression e t m = (if unat (dest t m - 1) < length (dest_groups t m)
     then Inr (dest t m, \<lparr>me_groups = (dest_groups t m)[unat (dest t m - 1) :=
         AddExpression (SetGroupId (dest t m) e) (dest_groups t m ! unat (dest t m - 1))],
       me_expr_map = (me_expr_map m)(ge_hash e \<mapsto> SetGroupId (dest t m) e)\<rparr>)
     else Inl Undefined)"
    using assms(1) by (simp add: InsertExpression_def Let_def dest_def dest_groups_def SetGroupId_def)
  then show ?thesis using j unfolding i stored_def by simp
qed

lemma pred_less_of_le: "(g :: u32) \<noteq> 0 \<Longrightarrow> unat g \<le> n \<Longrightarrow> unat g - 1 < n"
  using unat_gt_0 [of g] by linarith

lemma stored_groups:
  assumes "valid_target t m" "Suc (length (me_groups m)) < 2 ^ 32"
  shows "length (me_groups (stored e t m)) = length (me_groups m) + (if t = 0 then 1 else 0)"
    and "i < length (me_groups (stored e t m)) \<Longrightarrow> gr_logical (me_groups (stored e t m) ! i)
      = (if i < length (me_groups m) then gr_logical (me_groups m ! i) else [])
        @ (if i = unat (dest t m) - 1 then [SetGroupId (dest t m) e] else [])"
    and "i < length (me_groups (stored e t m)) \<Longrightarrow> (\<forall>j < length (me_groups m). group_ok m j)
      \<Longrightarrow> gr_id (me_groups (stored e t m) ! i) = of_nat (Suc i)"
proof -
  show l: "length (me_groups (stored e t m)) = length (me_groups m) + (if t = 0 then 1 else 0)"
    by (simp add: stored_def dest_groups_def)
  have d: "unat (dest t m) - 1 < length (dest_groups t m)" using dest_bounds [OF assms] by linarith
  assume i: "i < length (me_groups (stored e t m))"
  show "gr_logical (me_groups (stored e t m) ! i)
      = (if i < length (me_groups m) then gr_logical (me_groups m ! i) else [])
        @ (if i = unat (dest t m) - 1 then [SetGroupId (dest t m) e] else [])"
    using i l by (auto simp: stored_def nth_list_update AddExpression_def dest_groups_def nth_append Group_ctor_def
        split: if_splits)
  assume "\<forall>j < length (me_groups m). group_ok m j"
  then show "gr_id (me_groups (stored e t m) ! i) = of_nat (Suc i)"
    using i l d by (auto simp: stored_def nth_list_update AddExpression_def dest_groups_def nth_append Group_ctor_def
        group_ok_def dest_def less_Suc_eq split: if_splits)
qed

lemma stored_inv:
  assumes inv: "memo_inv m" and new: "me_expr_map m (ge_hash e) = None"
    and t: "valid_target t m" and room: "Suc (length (me_groups m)) < 2 ^ 32"
  shows "memo_inv (stored e t m)"
proof -
  let ?x = "SetGroupId (dest t m) e" and ?s = "stored e t m"
  note b = dest_bounds [OF t room] and sg = stored_groups [OF t room]
  have x: "ge_hash ?x = ge_hash e" "ge_group ?x = dest t m" by (simp_all add: SetGroupId_def)
  have map: "me_expr_map ?s = (me_expr_map m)(ge_hash e \<mapsto> ?x)" by (simp add: stored_def)
  have g: "group_ok m j" if "j < length (me_groups m)" for j using inv that by (simp add: memo_inv_def)
  have "group_ok ?s i" if i: "i < length (me_groups ?s)" for i
  proof -
    let ?old = "if i < length (me_groups m) then gr_logical (me_groups m ! i) else []"
    have o: "me_expr_map m (ge_hash y) = Some y \<and> unat (ge_group y) = Suc i" if "y \<in> set ?old" for y
      using that g [of i] by (auto simp: group_ok_def split: if_splits)
    have h: "ge_hash y \<noteq> ge_hash e" if "y \<in> set ?old" for y using o [OF that] new by auto
    have "distinct ?old" using g [of i] by (simp add: group_ok_def)
    moreover have "?x \<notin> set ?old" using h x by metis
    moreover have "gr_id (me_groups ?s ! i) = of_nat (Suc i)" using sg(3) [OF i] g by blast
    ultimately show ?thesis
      using o h b(3) x map by (auto simp: group_ok_def sg(2) [OF i] simp del: of_nat_Suc)
  qed
  moreover have "recorded ?s h y" if y: "me_expr_map ?s h = Some y" for h y
  proof (cases "h = ge_hash e")
    case True
    then have "y = ?x" using y map by simp
    moreover have "unat (dest t m) - 1 < length (me_groups ?s)" "unat (dest t m) \<le> length (me_groups ?s)"
      using b sg(1) t by (auto simp: dest_groups_def split: if_splits)
    ultimately show ?thesis using True b x sg(2) [where i = "unat (dest t m) - 1" and e = e] by (simp add: recorded_def)
  next
    case False
    then have r: "recorded m h y" using y map inv by (simp add: memo_inv_def)
    then have "unat (ge_group y) - 1 < length (me_groups m)"
      using pred_less_of_le by (simp add: recorded_def)
    then show ?thesis using r sg(1) sg(2) [where i = "unat (ge_group y) - 1" and e = e] by (simp add: recorded_def)
  qed
  ultimately show ?thesis by (simp add: memo_inv_def)
qed

section \<open>What an insertion does\<close>

lemma InsertExpression_total:
  assumes "memo_inv m" "valid_target t m" "Suc (length (me_groups m)) < 2 ^ 32"
  obtains g m' x where "InsertExpression e t m = Inr (g, m')" and "memo_inv m'" and "me_expr_map m \<subseteq>\<^sub>m me_expr_map m'"
    and "me_expr_map m' (ge_hash e) = Some x" and "ge_group x = g"
    and "length (me_groups m) \<le> length (me_groups m')" and "length (me_groups m') \<le> Suc (length (me_groups m))"
proof (cases "me_expr_map m (ge_hash e)")
  case None
  note s = InsertExpression_stored [OF None assms(2,3)]
  have "me_expr_map (stored e t m) (ge_hash e) = Some (SetGroupId (dest t m) e)" by (simp add: stored_def)
  moreover have "me_expr_map m \<subseteq>\<^sub>m me_expr_map (stored e t m)" using None by (auto simp: stored_def map_le_def)
  ultimately show ?thesis
    using that s stored_inv [OF assms(1) None assms(2,3)] stored_groups(1) [OF assms(2,3), where e = e]
    by (simp add: SetGroupId_def)
next
  case (Some x)
  then show ?thesis using that [of "ge_group x" m x] assms(1) InsertExpression_known [OF Some] by simp
qed

lemma recorded_group_valid:
  assumes "memo_inv m" "me_expr_map m h = Some x"
  shows "ge_group x \<noteq> 0" "unat (ge_group x) \<le> length (me_groups m)" "ge_hash x = h"
  using assms by (auto simp: memo_inv_def recorded_def)



text \<open>Exploring a join with the commutativity rule ends after one step: the rule turns a join of two groups into
  the join with the operands swapped, which is added to the memo; applying the rule to that gives the first
  join, whose insertion gives back the first group and leaves the memo as it is.\<close>

theorem commutativity_explored:
  assumes "memo_inv m" "Suc (Suc (length (me_groups m))) < 2 ^ 32"
    and e: "e = GroupExpression_ctor LOGICAL_JOIN [a, b]"
  shows "\<exists>g m1 e' g' m2 e''. InsertExpression e 0 m = Inr (g, m1) \<and> rule_Match LogicalJoinCommutativityRule e
    \<and> rule_Transform LogicalJoinCommutativityRule e = [e'] \<and> ge_children e' = [b, a]
    \<and> InsertExpression e' g m1 = Inr (g', m2) \<and> rule_Match LogicalJoinCommutativityRule e'
    \<and> rule_Transform LogicalJoinCommutativityRule e' = [e''] \<and> (\<forall>t. InsertExpression e'' t m2 = Inr (g, m2))
    \<and> memo_inv m2"
proof -
  let ?e' = "GroupExpression_ctor LOGICAL_JOIN [b, a]"
  have v: "valid_target 0 m" by (simp add: valid_target_def)
  obtain g m1 x where i: "InsertExpression e 0 m = Inr (g, m1)" "memo_inv m1"
    and x: "me_expr_map m1 (ge_hash e) = Some x" "ge_group x = g" and l: "length (me_groups m1) \<le> Suc (length (me_groups m))"
    using InsertExpression_total [OF assms(1) v] assms(2) by (metis Suc_lessD)
  have v1: "valid_target g m1" using recorded_group_valid(2) [OF i(2) x(1)] x(2) by (simp add: valid_target_def)
  obtain g' m2 where j: "InsertExpression ?e' g m1 = Inr (g', m2)" "memo_inv m2" "me_expr_map m1 \<subseteq>\<^sub>m me_expr_map m2"
    using InsertExpression_total [OF i(2) v1] l assms(2) by (metis Suc_le_mono order_le_less_trans)
  have "me_expr_map m2 (ge_hash e) = Some x" using j(3) x(1) by (fastforce simp: map_le_def dom_def)
  then have "InsertExpression e t m2 = Inr (g, m2)" for t using InsertExpression_known x(2) by simp
  moreover have "rule_Transform LogicalJoinCommutativityRule e = [?e']" "rule_Transform LogicalJoinCommutativityRule ?e' = [e]"
    "rule_Match LogicalJoinCommutativityRule e" "rule_Match LogicalJoinCommutativityRule ?e'" "ge_children ?e' = [b, a]"
    by (simp_all add: e GroupExpression_ctor_def)
  ultimately show ?thesis using i(1) j(1,2) by blast
qed

theorem commutativity_explored_witness:
  "\<exists>g m1 e' g' m2 e''. InsertExpression (GroupExpression_ctor LOGICAL_JOIN [1, 2]) 0 Memo_ctor = Inr (g, m1)
    \<and> rule_Transform LogicalJoinCommutativityRule (GroupExpression_ctor LOGICAL_JOIN [1, 2]) = [e'] \<and> ge_children e' = [2, 1]
    \<and> InsertExpression e' g m1 = Inr (g', m2) \<and> rule_Transform LogicalJoinCommutativityRule e' = [e'']
    \<and> (\<forall>t. InsertExpression e'' t m2 = Inr (g, m2))"
proof -
  have "Suc (Suc (length (me_groups Memo_ctor))) < 2 ^ 32" by (simp add: Memo_ctor_def)
  from commutativity_explored [OF memo_inv_ctor this refl, of 1 2] show ?thesis by blast
qed

text \<open>The memo identifies expressions by their hash alone.  The joins of groups 4 and 23 and of groups 9 and 23
  have the same hash, so inserting the second into a memo that holds the first gives the first's group and
  does not store it: different joins become one.\<close>

theorem memo_merges_different_joins:
  "let e1 = GroupExpression_ctor LOGICAL_JOIN [4, 23]; e2 = GroupExpression_ctor LOGICAL_JOIN [9, 23] in
   ge_children e1 \<noteq> ge_children e2
   \<and> (case InsertExpression e1 0 Memo_ctor of
        Inr (g, m) \<Rightarrow> InsertExpression e2 0 m = Inr (g, m) \<and> gr_logical (me_groups m ! 0) = [SetGroupId g e1]
      | Inl _ \<Rightarrow> False)"
proof -
  have h: "ComputeHash LOGICAL_JOIN [4, 23] = 0x28cd949220" "ComputeHash LOGICAL_JOIN [9, 23] = 0x28cd949220"
    by (simp_all add: ComputeHash_def)
  show ?thesis
    by (simp add: Let_def GroupExpression_ctor_def h InsertExpression_def Memo_ctor_def SetGroupId_def AddExpression_def Group_ctor_def)
qed

end
