(* ===== verification/Memo_Spec.thy ===== *)
theory Memo_Spec
  imports Planner
begin

text \<open>
  What the memo of \<^verbatim>\<open>src/sql/planner/memo.h\<close> is meant to be, per its comment: a table from expressions to groups that
  returns the group of an exact copy.  The code compares hashes only; as long as no two different expressions
  inserted have the same hash it is equivalent to the table, errors included.
\<close>

section \<open>The reference memo\<close>

type_synonym expr_key = "OperatorType \<times> u32 list"

text \<open>The number of groups, and the group of every expression inserted.\<close>

type_synonym ref_memo = "nat \<times> (expr_key \<Rightarrow> u32 option)"

definition ref_insert :: "expr_key \<Rightarrow> u32 \<Rightarrow> ref_memo \<Rightarrow> error + u32 \<times> ref_memo" where
  "ref_insert k target r =
     (case r of (n, f) \<Rightarrow>
        case f k of
          Some g \<Rightarrow> Inr (g, (n, f))
        | None \<Rightarrow>
            if target = 0 then Inr (of_nat (n + 1), (n + 1, f(k \<mapsto> of_nat (n + 1))))
            else if unat target \<le> n then Inr (target, (n, f(k \<mapsto> target)))
            else Inl Undefined)"

text \<open>A run of insertions ends with the first error.\<close>

fun ref_run :: "(expr_key \<times> u32) list \<Rightarrow> ref_memo \<Rightarrow> error + u32 list" where
  "ref_run [] r = Inr []"
| "ref_run ((k, t) # ops) r =
     (case ref_insert k t r of
        Inl e \<Rightarrow> Inl e
      | Inr (g, r) \<Rightarrow> (case ref_run ops r of Inl e \<Rightarrow> Inl e | Inr gs \<Rightarrow> Inr (g # gs)))"

fun memo_run :: "(expr_key \<times> u32) list \<Rightarrow> memo \<Rightarrow> error + u32 list" where
  "memo_run [] m = Inr []"
| "memo_run (((ty, cs), t) # ops) m =
     (case InsertExpression (GroupExpression_ctor ty cs) t m of
        Inl e \<Rightarrow> Inl e
      | Inr (g, m) \<Rightarrow> (case memo_run ops m of Inl e \<Rightarrow> Inl e | Inr gs \<Rightarrow> Inr (g # gs)))"

abbreviation key_hash :: "expr_key \<Rightarrow> u64" where
  "key_hash \<equiv> \<lambda>(ty, cs). ComputeHash ty cs"

section \<open>The simulation\<close>

text \<open>Under the hash of an expression of \<open>K\<close> the memo has an entry exactly when the table has the expression, with the same
  group.\<close>

definition implements :: "expr_key set \<Rightarrow> memo \<Rightarrow> ref_memo \<Rightarrow> bool" where
  "implements K m r \<longleftrightarrow> length (me_groups m) = fst r \<and> dom (snd r) \<subseteq> K
     \<and> (\<forall>k \<in> K. map_option ge_group (me_expr_map m (key_hash k)) = snd r k)"

lemma implements_ctor: "implements K Memo_ctor (0, Map.empty)"
  by (simp add: implements_def Memo_ctor_def)

lemma hash_of_ctor: "ge_hash (GroupExpression_ctor ty cs) = key_hash (ty, cs)"
  by (simp add: GroupExpression_ctor_def)

lemma insert_new:
  assumes "me_expr_map m (ge_hash e) = None" and "Suc (length (me_groups m)) < 2 ^ 32"
  shows "InsertExpression e t m = (if valid_target t m then Inr (dest t m, stored e t m) else Inl Undefined)"
proof (cases "valid_target t m")
  case True
  then show ?thesis using InsertExpression_stored [OF assms(1) _ assms(2)] by simp
next
  case False
  then have "t \<noteq> 0" "length (me_groups m) < unat t" by (auto simp: valid_target_def)
  then have "t \<noteq> 0" "\<not> unat (t - 1) < length (me_groups m)" using unat_minus_1_word [of t] by auto
  then show ?thesis using assms(1) False by (simp add: InsertExpression_def Let_def)
qed

lemma implements_stored:
  assumes r: "implements K m (n, f)" and k: "(ty, cs) \<in> K" and inj: "inj_on key_hash K"
    and t: "valid_target t m" "Suc n < 2 ^ 32"
  shows "implements K (stored (GroupExpression_ctor ty cs) t m)
    (if t = 0 then n + 1 else n, f((ty, cs) \<mapsto> if t = 0 then of_nat (n + 1) else t))"
proof -
  let ?e = "GroupExpression_ctor ty cs"
  have len: "length (me_groups m) = n" using r by (simp add: implements_def)
  have "me_expr_map (stored ?e t m) (key_hash k') =
      (if k' = (ty, cs) then Some (SetGroupId (dest t m) ?e) else me_expr_map m (key_hash k'))" if "k' \<in> K" for k'
    using inj_on_eq_iff [OF inj that k] by (simp add: stored_def hash_of_ctor)
  moreover have "dest t m = (if t = 0 then of_nat (n + 1) else t)" by (simp add: dest_def len)
  ultimately show ?thesis
    using r k stored_groups(1) [OF t(1), of ?e] t(2) len by (auto simp: implements_def SetGroupId_def)
qed

lemma insert_simulates:
  assumes r: "implements K m (n, f)" and k: "(ty, cs) \<in> K" and inj: "inj_on key_hash K" and n: "Suc n < 2 ^ 32"
  shows "(\<exists>g m' r'. InsertExpression (GroupExpression_ctor ty cs) t m = Inr (g, m') \<and> ref_insert (ty, cs) t (n, f) = Inr (g, r')
           \<and> implements K m' r' \<and> fst r' \<le> Suc n)
    \<or> InsertExpression (GroupExpression_ctor ty cs) t m = Inl Undefined \<and> ref_insert (ty, cs) t (n, f) = Inl Undefined"
proof (cases "f (ty, cs)")
  case (Some g)
  then obtain x where "me_expr_map m (ge_hash (GroupExpression_ctor ty cs)) = Some x" "ge_group x = g"
    using r k by (fastforce simp: implements_def hash_of_ctor)
  then show ?thesis using Some r InsertExpression_known by (simp add: ref_insert_def)
next
  case None
  have len: "length (me_groups m) = n" using r by (simp add: implements_def)
  have "me_expr_map m (ge_hash (GroupExpression_ctor ty cs)) = None"
    using None r k by (fastforce simp: implements_def hash_of_ctor)
  note I = insert_new [OF this, of t]
  show ?thesis
  proof (cases "valid_target t m")
    case True
    then show ?thesis using I n len None implements_stored [OF r k inj True n]
      by (auto simp: ref_insert_def dest_def valid_target_def)
  next
    case False
    then show ?thesis using I n len None by (auto simp: ref_insert_def valid_target_def)
  qed
qed

lemma run_simulates:
  assumes "implements K m r" and "fst ` set ops \<subseteq> K" and "inj_on key_hash K" and "fst r + length ops < 2 ^ 32"
  shows "memo_run ops m = ref_run ops r"
  using assms
proof (induction ops arbitrary: m r)
  case (Cons o' ops)
  obtain ty cs t n f where o: "o' = ((ty, cs), t)" "r = (n, f)" by (metis prod.exhaust)
  then have "implements K m (n, f)" "(ty, cs) \<in> K" "Suc n < 2 ^ 32" using Cons.prems by auto
  from insert_simulates [OF this(1,2) assms(3) this(3), of t] show ?case
  proof (elim disjE exE conjE)
    fix g m' r'
    assume s: "InsertExpression (GroupExpression_ctor ty cs) t m = Inr (g, m')" "ref_insert (ty, cs) t (n, f) = Inr (g, r')"
      "implements K m' r'" "fst r' \<le> Suc n"
    then have "memo_run ops m' = ref_run ops r'" using Cons.IH [OF s(3)] Cons.prems o by auto
    then show ?thesis using s(1,2) o by simp
  qed (use o in auto)
qed simp

section \<open>Property\<close>

text \<open>(C36) As long as no two different expressions of a run have the same hash, the memo is the table its comment describes:
  every insertion gives the group the exact copy already has, or the requested group, or the next new one; and a
  request for a group that does not exist is undefined behaviour in the code exactly when the expression is new.\<close>

theorem memo_is_exact_without_collisions:
  assumes "inj_on key_hash (fst ` set ops)" and "length ops < 2 ^ 32"
  shows "memo_run ops Memo_ctor = ref_run ops (0, Map.empty)"
  using run_simulates [OF implements_ctor order.refl assms(1)] assms(2) by simp

text \<open>Two scans and their joins, the second scan twice.\<close>

theorem memo_is_exact_without_collisions_witness:
  "memo_run [((LOGICAL_GET, []), 0), ((LOGICAL_FILTER, [1]), 0), ((LOGICAL_JOIN, [1, 2]), 0), ((LOGICAL_JOIN, [2, 1]), 3), ((LOGICAL_FILTER, [1]), 0)] Memo_ctor
    = Inr [1, 2, 3, 3, 2]"
proof -
  let ?ops = "[((LOGICAL_GET, []), 0), ((LOGICAL_FILTER, [1]), 0), ((LOGICAL_JOIN, [1, 2]), 0), ((LOGICAL_JOIN, [2, 1]), 3), ((LOGICAL_FILTER, [1]), 0)]"
  have "inj_on key_hash (fst ` set ?ops)" by (simp add: inj_on_def ComputeHash_def)
  from memo_is_exact_without_collisions [OF this] show ?thesis by (simp add: ref_insert_def)
qed

end
