(* ===== verification/Arena_Allocator.thy ===== *)
theory Arena_Allocator
  imports Sting_Prelude
begin

text \<open>
  The query arena of \<^verbatim>\<open>src/common/memory/arena_allocator.h\<close>.  Addresses, sizes and offsets are 64-bit and
  wrap as in the source.  Where \<open>operator new\<close> puts a chunk is a parameter: given the chunks that are live and the
  size wanted it gives the base address, or nothing when memory is exhausted.  \<open>chunk_provider\<close> states what the
  standard promises of it.  The bytes of the chunks play no part.
\<close>

section \<open>The allocator\<close>

record arena =
  ar_chunk_size :: u64
  ar_offset :: u64
  ar_chunks :: "u64 list"

definition bad_alloc :: error where
  "bad_alloc = Runtime_error ''std::bad_alloc''"

definition AllocateChunk :: "(u64 list \<Rightarrow> u64 \<Rightarrow> u64 option) \<Rightarrow> arena \<Rightarrow> error + arena" where
  "AllocateChunk new a =
     (case new (ar_chunks a) (ar_chunk_size a) of
        None \<Rightarrow> Inl bad_alloc
      | Some b \<Rightarrow> Inr (a\<lparr>ar_chunks := ar_chunks a @ [b], ar_offset := 0\<rparr>))"

definition ArenaAllocator_ctor :: "(u64 list \<Rightarrow> u64 \<Rightarrow> u64 option) \<Rightarrow> u64 \<Rightarrow> error + arena" where
  "ArenaAllocator_ctor new chunk_size =
     AllocateChunk new \<lparr>ar_chunk_size = chunk_size, ar_offset = 0, ar_chunks = []\<rparr>"

text \<open>\<open>back()\<close> of an empty vector and \<open>% 0\<close> are undefined.\<close>

definition Allocate :: "(u64 list \<Rightarrow> u64 \<Rightarrow> u64 option) \<Rightarrow> u64 \<Rightarrow> u64 \<Rightarrow> arena \<Rightarrow> error + u64 \<times> arena" where
  "Allocate new n align a =
     (if ar_chunks a = [] \<or> align = 0 then Inl Undefined
      else
        let padding = (align - (last (ar_chunks a) + ar_offset a) mod align) mod align
        in if ar_chunk_size a < ar_offset a + n + padding
           then case AllocateChunk new a of
                  Inl e \<Rightarrow> Inl e
                | Inr a \<Rightarrow> Inr (last (ar_chunks a) + ar_offset a, a\<lparr>ar_offset := ar_offset a + n\<rparr>)
           else Inr (last (ar_chunks a) + ar_offset a + padding, a\<lparr>ar_offset := ar_offset a + (n + padding)\<rparr>))"

definition Arena_Reset :: "arena \<Rightarrow> arena" where
  "Arena_Reset a = (case ar_chunks a of
      [] \<Rightarrow> a\<lparr>ar_offset := 0\<rparr>
    | c # cs \<Rightarrow> a\<lparr>ar_chunks := [c], ar_offset := 0\<rparr>)"

section \<open>Requests and the blocks handed out\<close>

datatype arena_op = Alloc u64 u64 | Reset_arena

text \<open>A block is an address, a size and the alignment asked for; \<open>Reset\<close> takes all blocks back.\<close>

type_synonym block = "u64 \<times> u64 \<times> u64"

fun arena_run :: "(u64 list \<Rightarrow> u64 \<Rightarrow> u64 option) \<Rightarrow> arena_op list \<Rightarrow> arena \<Rightarrow> block list \<Rightarrow> error + arena \<times> block list" where
  "arena_run new [] a bl = Inr (a, bl)"
| "arena_run new (Alloc n al # ops) a bl =
     (case Allocate new n al a of
        Inl e \<Rightarrow> Inl e
      | Inr (p, a) \<Rightarrow> arena_run new ops a (bl @ [(p, n, al)]))"
| "arena_run new (Reset_arena # ops) a bl = arena_run new ops (Arena_Reset a) []"

definition apart :: "u64 \<Rightarrow> u64 \<Rightarrow> u64 \<Rightarrow> u64 \<Rightarrow> bool" where
  "apart p n q k \<longleftrightarrow> unat p + unat n \<le> unat q \<or> unat q + unat k \<le> unat p"

text \<open>What \<open>operator new\<close> promises: a chunk inside the address space, aligned for every fundamental type
  (16 bytes), that overlaps no live chunk.\<close>

definition chunk_provider :: "(u64 list \<Rightarrow> u64 \<Rightarrow> u64 option) \<Rightarrow> bool" where
  "chunk_provider new \<longleftrightarrow> (\<forall>live n b. new live n = Some b \<longrightarrow>
     unat b + unat n < 2 ^ 64 \<and> 16 dvd unat b \<and> (\<forall>c \<in> set live. apart c n b n))"

fun fits :: "u64 \<Rightarrow> arena_op \<Rightarrow> bool" where
  "fits cs (Alloc n al) = (n \<le> cs \<and> unat al dvd 16)"
| "fits cs Reset_arena = True"

definition block_in :: "u64 \<Rightarrow> u64 \<Rightarrow> block \<Rightarrow> bool" where
  "block_in c len bl = (case bl of (p, n, al) \<Rightarrow> unat c \<le> unat p \<and> unat p + unat n \<le> unat c + unat len)"

definition blocks_apart :: "block list \<Rightarrow> bool" where
  "blocks_apart = sorted_wrt (\<lambda>(p, n, _) (q, k, _). apart p n q k)"

definition aligned :: "block \<Rightarrow> bool" where
  "aligned = (\<lambda>(p, n, al). unat al dvd unat p)"

definition arena_inv :: "u64 \<Rightarrow> arena \<Rightarrow> block list \<Rightarrow> bool" where
  "arena_inv cs a bl \<longleftrightarrow> ar_chunk_size a = cs \<and> ar_chunks a \<noteq> [] \<and> ar_offset a \<le> cs
     \<and> (\<forall>c \<in> set (ar_chunks a). unat c + unat cs < 2 ^ 64 \<and> 16 dvd unat c)
     \<and> sorted_wrt (\<lambda>c d. apart c cs d cs) (ar_chunks a)
     \<and> (\<forall>b \<in> set bl. block_in (last (ar_chunks a)) (ar_offset a) b \<or> (\<exists>c \<in> set (butlast (ar_chunks a)). block_in c cs b))
     \<and> blocks_apart bl \<and> (\<forall>b \<in> set bl. aligned b)"

section \<open>Every block is in bounds, aligned and apart from the others\<close>

lemma arena_block_cases:
  assumes "arena_inv cs a bl" "b \<in> set bl"
  obtains "block_in (last (ar_chunks a)) (ar_offset a) b" | c where "c \<in> set (butlast (ar_chunks a))" "block_in c cs b"
  using assms by (auto simp: arena_inv_def)

lemma AllocateChunk_inv:
  assumes "chunk_provider new" "arena_inv cs a bl" "AllocateChunk new a = Inr a'"
  shows "arena_inv cs a' bl" "ar_offset a' = 0" "\<exists>b. ar_chunks a' = ar_chunks a @ [b]"
proof -
  obtain b where b: "new (ar_chunks a) cs = Some b" and a': "a' = a\<lparr>ar_chunks := ar_chunks a @ [b], ar_offset := 0\<rparr>"
    using assms(2,3) by (auto simp: AllocateChunk_def arena_inv_def split: option.splits)
  have n: "unat b + unat cs < 2 ^ 64" "16 dvd unat b" "\<forall>c \<in> set (ar_chunks a). apart c cs b cs"
    using assms(1) b by (simp_all add: chunk_provider_def)
  have ne: "ar_chunks a \<noteq> []" and off: "unat (ar_offset a) \<le> unat cs"
    using assms(2) by (auto simp: arena_inv_def word_le_nat_alt)
  have "\<exists>c \<in> set (ar_chunks a). block_in c cs x" if "x \<in> set bl" for x
    using assms(2) that
  proof (cases rule: arena_block_cases)
    case 1
    then have "block_in (last (ar_chunks a)) cs x" using off by (auto simp: block_in_def)
    then show ?thesis using ne last_in_set by blast
  next
    case (2 c)
    then show ?thesis using in_set_butlastD by fast
  qed
  then show "arena_inv cs a' bl"
    using assms(2) n unfolding arena_inv_def a' by (auto simp: sorted_wrt_append)
  show "ar_offset a' = 0" "\<exists>b. ar_chunks a' = ar_chunks a @ [b]" using a' by auto
qed

text \<open>A block placed at or after the offset of the last chunk is apart from all blocks handed out before.\<close>

lemma new_block_apart:
  assumes inv: "arena_inv cs a bl" and b: "b \<in> set bl" "b = (q, k, al')"
    and p: "unat (last (ar_chunks a)) + unat (ar_offset a) \<le> unat p" "unat p + unat n \<le> unat (last (ar_chunks a)) + unat cs"
  shows "apart q k p n"
  using inv b(1)
proof (cases rule: arena_block_cases)
    case 1
    then show ?thesis using p b(2) by (auto simp: block_in_def apart_def)
  next
    case (2 c)
    have "ar_chunks a = butlast (ar_chunks a) @ [last (ar_chunks a)]" using inv by (simp add: arena_inv_def)
    then have "sorted_wrt (\<lambda>c d. apart c cs d cs) (butlast (ar_chunks a) @ [last (ar_chunks a)])"
      using inv by (simp add: arena_inv_def)
    then have "apart c cs (last (ar_chunks a)) cs" using 2(1) by (simp add: sorted_wrt_append)
    then show ?thesis using 2(2) p b(2) by (auto simp: block_in_def apart_def)
qed

text \<open>Handing out a block at \<open>off + padding\<close> of the last chunk.\<close>

lemma bump_inv:
  assumes inv: "arena_inv cs a bl" and room: "unat (ar_offset a) + unat n + unat padding \<le> unat cs"
    and al: "unat al dvd unat (last (ar_chunks a)) + unat (ar_offset a) + unat padding"
  shows "arena_inv cs (a\<lparr>ar_offset := ar_offset a + (n + padding)\<rparr>)
    (bl @ [(last (ar_chunks a) + ar_offset a + padding, n, al)])"
proof -
  let ?l = "last (ar_chunks a)" let ?p = "?l + ar_offset a + padding"
  have l: "unat ?l + unat cs < 2 ^ 64" using inv by (simp add: arena_inv_def)
  have p: "unat ?p = unat ?l + unat (ar_offset a) + unat padding"
    using l room by (simp add: unat_word_ariths)
  have o: "unat (ar_offset a + (n + padding)) = unat (ar_offset a) + unat n + unat padding"
    using l room by (simp add: unat_word_ariths)
  have "apart q k ?p n" if "(q, k, al') \<in> set bl" for q k al'
    using new_block_apart [OF inv that refl] p room by simp
  then have "blocks_apart (bl @ [(?p, n, al)])"
    using inv by (auto simp: blocks_apart_def arena_inv_def sorted_wrt_append)
  moreover have "block_in ?l (ar_offset a + (n + padding)) b \<or> (\<exists>c \<in> set (butlast (ar_chunks a)). block_in c cs b)"
    if "b \<in> set bl" for b
  proof -
    have "block_in ?l (ar_offset a + (n + padding)) b" if "block_in ?l (ar_offset a) b"
      using that o by (auto simp: block_in_def)
    then show ?thesis using inv that by (auto simp: arena_inv_def)
  qed
  moreover have "block_in ?l (ar_offset a + (n + padding)) (?p, n, al)" using p o by (simp add: block_in_def)
  moreover have "aligned (?p, n, al)" using al p by (simp add: aligned_def)
  moreover have "ar_offset a + (n + padding) \<le> cs" using o room by (simp add: word_le_nat_alt)
  ultimately show ?thesis using inv by (auto simp: arena_inv_def)
qed

text \<open>The padding makes the address a multiple of the alignment, and is smaller than the alignment.\<close>

lemma padding_aligns:
  fixes al x :: u64
  assumes "al \<noteq> 0"
  defines "pad \<equiv> (al - x mod al) mod al"
  shows "unat al dvd unat x + unat pad" "unat pad < unat al"
proof -
  let ?r = "unat x mod unat al"
  have pos: "0 < unat al" using assms(1) by (simp add: unat_gt_0)
  then have r: "?r < unat al" by simp
  have "unat (al - x mod al) = unat al - ?r"
    using r by (simp add: unat_sub unat_mod word_le_nat_alt less_imp_le)
  then have pad: "unat pad = (unat al - ?r) mod unat al" by (simp add: pad_def unat_mod)
  show "unat pad < unat al" using pad pos by simp
  have "(unat x + unat pad) mod unat al = (?r + (unat al - ?r)) mod unat al" unfolding pad by (simp add: mod_simps)
  also have "\<dots> = 0" using r by simp
  finally show "unat al dvd unat x + unat pad" by (simp add: mod_eq_0_iff_dvd)
qed

lemma small_add3: "unat (x :: u64) + unat y + unat z < 2 ^ 64 \<Longrightarrow> unat (x + y + z) = unat x + unat y + unat z"
  by (simp add: unat_word_ariths)

lemma Allocate_inv:
  assumes new: "chunk_provider new" and inv: "arena_inv cs a bl" and cs: "unat cs \<le> 2 ^ 62"
    and n: "n \<le> cs" and al: "unat al dvd 16"
  shows "(\<exists>p a'. Allocate new n al a = Inr (p, a') \<and> arena_inv cs a' (bl @ [(p, n, al)])) \<or> Allocate new n al a = Inl bad_alloc"
proof -
  let ?l = "last (ar_chunks a)"
  define pad where "pad = (al - (?l + ar_offset a) mod al) mod al"
  have al0: "al \<noteq> 0" using al by auto
  have al16: "unat al \<le> 16" using al by (simp add: dvd_imp_le)
  note pa = padding_aligns [OF al0, of "?l + ar_offset a", folded pad_def]
  have ne: "ar_chunks a \<noteq> []" and c: "ar_chunk_size a = cs" and off: "unat (ar_offset a) \<le> unat cs"
    and l: "unat ?l + unat cs < 2 ^ 64" using inv by (auto simp: arena_inv_def word_le_nat_alt)
  have n': "unat n \<le> unat cs" using n by (simp add: word_le_nat_alt)
  have sum: "unat (ar_offset a + n + pad) = unat (ar_offset a) + unat n + unat pad"
    using off n' cs pa(2) al16 by (intro small_add3) simp
  have lo: "unat (?l + ar_offset a) = unat ?l + unat (ar_offset a)" using l off by (simp add: unat_word_ariths)
  show ?thesis
  proof (cases "cs < ar_offset a + n + pad")
    case False
    then have room: "unat (ar_offset a) + unat n + unat pad \<le> unat cs" using sum by (simp add: word_less_nat_alt)
    have "Allocate new n al a = Inr (?l + ar_offset a + pad, a\<lparr>ar_offset := ar_offset a + (n + pad)\<rparr>)"
      using False ne al0 c by (simp add: Allocate_def pad_def [symmetric])
    then show ?thesis using bump_inv [OF inv room] pa(1) lo by simp
  next
    case True
    show ?thesis
    proof (cases "AllocateChunk new a")
      case (Inl e)
      then have "e = bad_alloc" by (auto simp: AllocateChunk_def split: option.splits)
      then show ?thesis using True Inl ne al0 c by (simp add: Allocate_def pad_def [symmetric])
    next
      case (Inr a1)
      note i1 = AllocateChunk_inv [OF new inv Inr]
      have d: "unat al dvd unat (last (ar_chunks a1))"
        using i1(1) al by (auto simp: arena_inv_def intro: dvd_trans)
      have "arena_inv cs (a1\<lparr>ar_offset := ar_offset a1 + (n + 0)\<rparr>) (bl @ [(last (ar_chunks a1) + ar_offset a1 + 0, n, al)])"
        using bump_inv [OF i1(1), of n 0 al] i1(2) n' d by simp
      then show ?thesis using True Inr ne al0 c by (simp add: Allocate_def pad_def [symmetric])
    qed
  qed
qed

lemma Arena_Reset_inv: "arena_inv cs a bl \<Longrightarrow> arena_inv cs (Arena_Reset a) []"
  by (auto simp: arena_inv_def Arena_Reset_def blocks_apart_def split: list.splits)

lemma arena_run_inv:
  assumes "chunk_provider new" "unat cs \<le> 2 ^ 62" "\<forall>x \<in> set ops. fits cs x" "arena_inv cs a bl"
  shows "(\<exists>a' bl'. arena_run new ops a bl = Inr (a', bl') \<and> arena_inv cs a' bl') \<or> arena_run new ops a bl = Inl bad_alloc"
  using assms(3,4)
proof (induction ops arbitrary: a bl)
  case (Cons x ops)
  show ?case
  proof (cases x)
    case (Alloc n al)
    then show ?thesis
      using Allocate_inv [OF assms(1) Cons.prems(2) assms(2), of n al] Cons.prems(1) Cons.IH by fastforce
  qed (use Cons Arena_Reset_inv in auto)
qed simp

lemma ctor_arena_inv:
  assumes "chunk_provider new" "ArenaAllocator_ctor new cs = Inr a"
  shows "arena_inv cs a []"
  using assms
  by (auto simp: ArenaAllocator_ctor_def AllocateChunk_def arena_inv_def chunk_provider_def blocks_apart_def
      split: option.splits)

text \<open>A provider of chunks: the next multiple of 16 past the live chunks, while the address space lasts.\<close>

definition bump_new :: "u64 list \<Rightarrow> u64 \<Rightarrow> u64 option" where
  "bump_new live n =
     (let b = 16 * Suc ((fold max (map unat live) 0 + unat n) div 16)
      in if b + unat n < 2 ^ 64 then Some (of_nat b) else None)"

lemma fold_max_ge: "x \<in> set xs \<Longrightarrow> x \<le> fold max xs (y :: nat)" "y \<le> fold max xs (y :: nat)"
  by (induction xs arbitrary: y) (auto intro: order_trans [OF max.cobounded1] order_trans [OF max.cobounded2])

lemma bump_new_provider: "chunk_provider bump_new"
proof -
  have "unat b + unat n < 2 ^ 64 \<and> 16 dvd unat b \<and> (\<forall>c \<in> set live. apart c n b n)" if "bump_new live n = Some b" for live n b
  proof -
    define k where "k = 16 * Suc ((fold max (map unat live) 0 + unat n) div 16)"
    have k: "k + unat n < 2 ^ 64" "b = of_nat k" using that by (auto simp: bump_new_def Let_def k_def split: if_splits)
    have u: "unat b = k" using k by (simp add: unat_of_nat_small)
    have "fold max (map unat live) 0 + unat n \<le> k" unfolding k_def by presburger
    then have "unat c + unat n \<le> k" if "c \<in> set live" for c
      using fold_max_ge(1) [of "unat c" "map unat live" 0] that by simp
    then show ?thesis using u k by (auto simp: apart_def k_def)
  qed
  then show ?thesis by (simp add: chunk_provider_def)
qed

text \<open>(C31) For any sequence of requests that each fit a chunk (of at most \<open>2 ^ 62\<close> bytes) and ask for an alignment
  of at most 16, interleaved with \<open>Reset\<close>, the arena serves every request or memory is exhausted; the blocks
  handed out since the last \<open>Reset\<close> each lie inside one live chunk, are aligned as asked, and no two of them
  overlap.\<close>

theorem arena_blocks_sound:
  assumes "chunk_provider new" "unat cs \<le> 2 ^ 62" "ArenaAllocator_ctor new cs = Inr a" "\<forall>x \<in> set ops. fits cs x"
  shows "case arena_run new ops a [] of
      Inl e \<Rightarrow> e = bad_alloc
    | Inr (a', bl) \<Rightarrow> blocks_apart bl
        \<and> (\<forall>b \<in> set bl. aligned b \<and> (\<exists>c \<in> set (ar_chunks a'). block_in c cs b))"
proof -
  have "aligned b \<and> (\<exists>c \<in> set (ar_chunks a'). block_in c cs b)" if inv: "arena_inv cs a' bl" and b: "b \<in> set bl" for a' bl b
  proof -
    have "ar_chunks a' \<noteq> []" "unat (ar_offset a') \<le> unat cs" "aligned b"
      using inv b by (auto simp: arena_inv_def word_le_nat_alt)
    with inv b show ?thesis
      by (cases rule: arena_block_cases) (fastforce simp: block_in_def intro: last_in_set dest: in_set_butlastD)+
  qed
  moreover have "blocks_apart bl" if "arena_inv cs a' bl" for a' bl using that by (simp add: arena_inv_def)
  ultimately show ?thesis using arena_run_inv [OF assms(1,2,4) ctor_arena_inv [OF assms(1,3)]] by fastforce
qed

theorem arena_blocks_sound_witness:
  "chunk_provider bump_new \<and>
   (case arena_run bump_new [Alloc 10 1, Alloc 8 8, Alloc 60 4] \<lparr>ar_chunk_size = 64, ar_offset = 0, ar_chunks = [80]\<rparr> [] of
      Inl e \<Rightarrow> False
    | Inr (a', bl) \<Rightarrow> bl = [(80, 10, 1), (96, 8, 8), (160, 60, 4)] \<and> blocks_apart bl)"
proof -
  have c: "ArenaAllocator_ctor bump_new 64 = Inr \<lparr>ar_chunk_size = 64, ar_offset = 0, ar_chunks = [80]\<rparr>"
    by (simp add: ArenaAllocator_ctor_def AllocateChunk_def bump_new_def Let_def)
  have f: "\<forall>x \<in> set [Alloc 10 1, Alloc 8 8, Alloc 60 4]. fits 64 x" by simp
  have r: "arena_run bump_new [Alloc 10 1, Alloc 8 8, Alloc 60 4] \<lparr>ar_chunk_size = 64, ar_offset = 0, ar_chunks = [80]\<rparr> []
    = Inr (\<lparr>ar_chunk_size = 64, ar_offset = 60, ar_chunks = [80, 160]\<rparr>, [(80, 10, 1), (96, 8, 8), (160, 60, 4)])"
    by (simp add: Allocate_def AllocateChunk_def bump_new_def Let_def)
  show ?thesis using arena_blocks_sound [OF bump_new_provider _ c f] bump_new_provider r by simp
qed

text \<open>A request that does not fit the rest of the current chunk is placed at the base of a new chunk of the
  usual size, whatever its size and alignment.  So it lies inside the chunk exactly when it is no larger than a
  chunk, and is aligned exactly when \<open>operator new\<close> happened to align the chunk that far: the code checks
  neither.\<close>

theorem new_chunk_unchecked:
  assumes "ar_chunks a \<noteq> []" "al \<noteq> 0" "new (ar_chunks a) (ar_chunk_size a) = Some b"
    and "ar_chunk_size a < ar_offset a + n + (al - (last (ar_chunks a) + ar_offset a) mod al) mod al"
  shows "\<exists>a'. Allocate new n al a = Inr (b, a') \<and> ar_chunks a' = ar_chunks a @ [b] \<and> ar_offset a' = n
    \<and> (block_in b (ar_chunk_size a) (b, n, al) \<longleftrightarrow> n \<le> ar_chunk_size a)
    \<and> (aligned (b, n, al) \<longleftrightarrow> unat al dvd unat b)"
  using assms by (simp add: Allocate_def AllocateChunk_def Let_def block_in_def aligned_def word_le_nat_alt)

text \<open>A 100-byte request in an arena of 64-byte chunks, and an 8-byte request aligned to 64 bytes.\<close>

theorem new_chunk_unchecked_witness:
  "(\<exists>a'. Allocate bump_new 100 8 \<lparr>ar_chunk_size = 64, ar_offset = 0, ar_chunks = [80]\<rparr> = Inr (160, a')
      \<and> \<not> block_in 160 64 (160, 100, 8))
   \<and> (\<exists>a'. Allocate bump_new 8 64 \<lparr>ar_chunk_size = 64, ar_offset = 60, ar_chunks = [80]\<rparr> = Inr (160, a')
      \<and> \<not> aligned (160, 8, 64))"
proof -
  have b: "bump_new [80] 64 = Some 160" by (simp add: bump_new_def Let_def)
  show ?thesis
    using new_chunk_unchecked [of "\<lparr>ar_chunk_size = 64, ar_offset = 0, ar_chunks = [80]\<rparr>" 8 bump_new 160 100]
      new_chunk_unchecked [of "\<lparr>ar_chunk_size = 64, ar_offset = 60, ar_chunks = [80]\<rparr>" 64 bump_new 160 8] b
    by (auto simp: aligned_def)
qed

end
