(* ===== verification/Lexer.thy ===== *)
theory Lexer
  imports Sting_Prelude
begin

text \<open>
  The character level of the lexer (\<^verbatim>\<open>src/sql/parser/lexer.h\<close>) and the parser object around it
  (\<^verbatim>\<open>src/sql/parser/parser.h\<close>).  The functions that form tokens (\<open>NextToken\<close>, \<open>PeekToken\<close>, \<open>SkipWhitespace\<close>,
  \<open>ParseIdentifier\<close>, \<open>ParseNumber\<close>, \<open>ParseStringLiteral\<close>) are declared there and defined nowhere in the repository, so
  there is nothing to translate.  Reading a \<open>string_view\<close> past its end and overflowing the signed column counter are
  undefined.
\<close>

section \<open>Tokens\<close>

datatype TokenType =
    TK_INVALID | TK_END_OF_FILE | TK_IDENTIFIER | TK_NUMBER | TK_STRING_LITERAL
  | TK_SELECT | TK_FROM | TK_WHERE | TK_INSERT | TK_INTO | TK_VALUES | TK_UPDATE | TK_SET | TK_DELETE
  | TK_PLUS | TK_MINUS | TK_STAR | TK_SLASH | TK_EQUALS | TK_NOT_EQUALS | TK_GREATER | TK_LESS | TK_AND | TK_OR
  | TK_COMMA | TK_SEMICOLON | TK_LEFT_PAREN | TK_RIGHT_PAREN

record token =
  tk_type :: TokenType
  tk_val :: string
  tk_line :: i32
  tk_column :: i32

section \<open>The lexer's position\<close>

record lexer =
  lx_query :: string
  lx_pos :: u64
  lx_line :: i32
  lx_col :: i32

definition Lexer_ctor :: "string \<Rightarrow> lexer" where
  "Lexer_ctor query = \<lparr>lx_query = query, lx_pos = 0, lx_line = 1, lx_col = 1\<rparr>"

definition PeekChar :: "lexer \<Rightarrow> char" where
  "PeekChar l = (if unat (lx_pos l) < length (lx_query l) then lx_query l ! unat (lx_pos l) else CHR 0x00)"

definition NextChar :: "lexer \<Rightarrow> error + char \<times> lexer" where
  "NextChar l =
     (if sint (lx_col l) = 2 ^ 31 - 1 then Inl Undefined
      else if unat (lx_pos l) < length (lx_query l)
      then Inr (lx_query l ! unat (lx_pos l), l\<lparr>lx_col := lx_col l + 1, lx_pos := lx_pos l + 1\<rparr>)
      else Inl Undefined)"

record parser =
  ps_lexer :: lexer

definition Parser_ctor :: "string \<Rightarrow> parser" where
  "Parser_ctor query = \<lparr>ps_lexer = Lexer_ctor query\<rparr>"

section \<open>Reading a query\<close>

fun read_chars :: "nat \<Rightarrow> lexer \<Rightarrow> error + string \<times> lexer" where
  "read_chars 0 l = Inr ([], l)"
| "read_chars (Suc n) l =
     (case NextChar l of
        Inl e \<Rightarrow> Inl e
      | Inr (c, l) \<Rightarrow> (case read_chars n l of Inl e \<Rightarrow> Inl e | Inr (cs, l) \<Rightarrow> Inr (c # cs, l)))"

text \<open>The lexer after \<open>n\<close> characters of the query.\<close>

definition lexer_at :: "string \<Rightarrow> nat \<Rightarrow> lexer" where
  "lexer_at query n = \<lparr>lx_query = query, lx_pos = of_nat n, lx_line = 1, lx_col = of_nat (Suc n)\<rparr>"

lemma lexer_at_0: "lexer_at query 0 = Lexer_ctor query"
  by (simp add: lexer_at_def Lexer_ctor_def)

lemma lexer_at_chars:
  assumes "n \<le> length query" and "length query < 2 ^ 31 - 1"
  shows "PeekChar (lexer_at query n) = (if n < length query then query ! n else CHR 0x00)"
    "NextChar (lexer_at query n) = (if n < length query then Inr (query ! n, lexer_at query (Suc n)) else Inl Undefined)"
proof -
  have u: "unat (of_nat n :: u64) = n" using assms by (intro unat_of_nat_small) simp
  have s: "sint (of_nat (Suc n) :: i32) = int (Suc n)"
    using assms by (simp add: signed_of_nat signed_take_bit_int_eq_self del: of_nat_Suc)
  show "PeekChar (lexer_at query n) = (if n < length query then query ! n else CHR 0x00)"
    by (simp add: PeekChar_def lexer_at_def u)
  show "NextChar (lexer_at query n) = (if n < length query then Inr (query ! n, lexer_at query (Suc n)) else Inl Undefined)"
  proof (cases "n < length query")
    case True
    then show ?thesis using assms s by (simp add: NextChar_def lexer_at_def u add.commute)
  next
    case False
    then show ?thesis by (simp add: NextChar_def lexer_at_def u)
  qed
qed

lemma read_chars_at:
  assumes "i + n \<le> length query" and "length query < 2 ^ 31 - 1"
  shows "read_chars n (lexer_at query i) = Inr (take n (drop i query), lexer_at query (i + n))"
  using assms
proof (induction n arbitrary: i)
  case (Suc n)
  then have "i < length query" by simp
  then show ?case
    using Suc.IH [of "Suc i"] Suc.prems lexer_at_chars(2) [of i query] by (simp add: take_Suc_conv_app_nth Cons_nth_drop_Suc [symmetric])
qed simp

text \<open>A parser made for a query of less than \<open>2 ^ 31 - 1\<close> characters reads exactly its characters, in order: after \<open>n\<close> calls of
  \<open>NextChar\<close> the first \<open>n\<close> have been returned, the column is \<open>n + 1\<close>, and \<open>PeekChar\<close> shows the next one without moving, or
  the null character at the end.  One more call at the end is undefined.\<close>

theorem lexer_reads_query:
  assumes "n \<le> length query" and "length query < 2 ^ 31 - 1"
  shows "\<exists>l. read_chars n (ps_lexer (Parser_ctor query)) = Inr (take n query, l)
    \<and> unat (lx_pos l) = n \<and> sint (lx_col l) = int n + 1 \<and> lx_line l = 1
    \<and> PeekChar l = (if n < length query then query ! n else CHR 0x00)
    \<and> (case NextChar l of Inr (c, l') \<Rightarrow> n < length query \<and> c = PeekChar l | Inl e \<Rightarrow> n = length query)"
proof -
  have "unat (of_nat n :: u64) = n" using assms by (intro unat_of_nat_small) simp
  moreover have "sint (of_nat (Suc n) :: i32) = int (Suc n)"
    using assms by (simp add: signed_of_nat signed_take_bit_int_eq_self del: of_nat_Suc)
  ultimately have "unat (lx_pos (lexer_at query n)) = n" "sint (lx_col (lexer_at query n)) = int n + 1" "lx_line (lexer_at query n) = 1"
    by (simp_all add: lexer_at_def)
  then show ?thesis
    using read_chars_at [of 0 n query] lexer_at_chars [OF assms] assms by (simp add: Parser_ctor_def lexer_at_0)
qed

theorem lexer_reads_query_witness:
  "\<exists>l. read_chars 6 (ps_lexer (Parser_ctor ''SELECT 1'')) = Inr (''SELECT'', l) \<and> PeekChar l = CHR '' '' \<and> sint (lx_col l) = 7"
  using lexer_reads_query [of 6 "''SELECT 1''"] by auto

end
